(* ===== verification/Shm_Memory.thy ===== *)
theory Shm_Memory
  imports Shmfx_Prelude
begin

text \<open>
  Mapped memory as a list of bytes. Integers are stored little-endian, as on the x86-64 target.
  \<open>load_bytes\<close>/\<open>store_bytes\<close> are the plain reads and writes (\<^verbatim>\<open>memcpy\<close>), \<open>load_le\<close>/\<open>store_le\<close>
  the reads and writes of one integer field. The read-after-write laws need the access to lie inside
  the memory: an access outside it is undefined in the program, and the component theories prove
  that theirs are inside.
\<close>

section \<open>Little-endian integers\<close>

definition le_bytes :: "nat \<Rightarrow> 'a::len word \<Rightarrow> u8 list" where
  "le_bytes n w = map (\<lambda>i. ucast (drop_bit (8 * i) w)) [0..<n]"

primrec le_word :: "u8 list \<Rightarrow> 'a::len word" where
  "le_word [] = 0"
| "le_word (b # bs) = ucast b OR push_bit 8 (le_word bs)"

lemma length_le_bytes [simp]: "length (le_bytes n w) = n"
  by (simp add: le_bytes_def)

lemma bit_le_word:
  "bit (le_word bs :: 'a::len word) i \<longleftrightarrow>
     i < LENGTH('a) \<and> i div 8 < length bs \<and> bit (bs ! (i div 8)) (i mod 8)"
proof (induction bs arbitrary: i)
  case Nil
  then show ?case by simp
next
  case (Cons b bs)
  show ?case
  proof (cases "i < 8")
    case True
    then show ?thesis by (auto simp: bit_simps)
  next
    case False
    then have d: "i div 8 = Suc ((i - 8) div 8)" "i mod 8 = (i - 8) mod 8"
      by (simp_all add: le_div_geq le_mod_geq)
    have nb: "\<not> bit b i"
      using False bit_imp_le_length [of b i] by auto
    show ?thesis
      using False Cons.IH [of "i - 8"] nb by (auto simp: bit_simps d)
  qed
qed

lemma le_word_le_bytes:
  "LENGTH('a) \<le> 8 * n \<Longrightarrow> le_word (le_bytes n (w :: 'a::len word)) = w"
  by (rule bit_word_eqI) (auto simp: bit_le_word le_bytes_def bit_simps)

lemma le_bytes_inj:
  "le_bytes n (v :: 'a::len word) = le_bytes n w \<Longrightarrow> LENGTH('a) \<le> 8 * n \<Longrightarrow> v = w"
  by (metis le_word_le_bytes)

section \<open>Loads and stores\<close>

definition load_bytes :: "nat \<Rightarrow> nat \<Rightarrow> u8 list \<Rightarrow> u8 list" where
  "load_bytes off n m = take n (drop off m)"

definition store_bytes :: "nat \<Rightarrow> u8 list \<Rightarrow> u8 list \<Rightarrow> u8 list" where
  "store_bytes off bs m = take off m @ bs @ drop (off + length bs) m"

definition load_le :: "nat \<Rightarrow> nat \<Rightarrow> u8 list \<Rightarrow> 'a::len word" where
  "load_le off n m = le_word (load_bytes off n m)"

definition store_le :: "nat \<Rightarrow> nat \<Rightarrow> 'a::len word \<Rightarrow> u8 list \<Rightarrow> u8 list" where
  "store_le off n w m = store_bytes off (le_bytes n w) m"

lemma length_store_bytes [shm_laws]:
  "off + length bs \<le> length m \<Longrightarrow> length (store_bytes off bs m) = length m"
  by (simp add: store_bytes_def)

lemma length_store_le [shm_laws]:
  "off + n \<le> length m \<Longrightarrow> length (store_le off n w m) = length m"
  by (simp add: store_le_def length_store_bytes)

lemma load_store_bytes_same [shm_laws]:
  "off + length bs \<le> length m \<Longrightarrow> n = length bs \<Longrightarrow> load_bytes off n (store_bytes off bs m) = bs"
  by (simp add: load_bytes_def store_bytes_def)

lemma nth_store_bytes:
  assumes "off + length bs \<le> length m" "i < length m"
  shows "store_bytes off bs m ! i =
    (if off \<le> i \<and> i < off + length bs then bs ! (i - off) else m ! i)"
  using assms by (auto simp: store_bytes_def nth_append min_def)

lemma load_store_bytes_disjoint:
  assumes fit: "off + length bs \<le> length m"
    and disj: "off' + n \<le> off \<or> off + length bs \<le> off'"
  shows "load_bytes off' n (store_bytes off bs m) = load_bytes off' n m"
proof (rule nth_equalityI)
  show "length (load_bytes off' n (store_bytes off bs m)) = length (load_bytes off' n m)"
    using fit by (simp add: load_bytes_def length_store_bytes)
next
  fix i assume "i < length (load_bytes off' n (store_bytes off bs m))"
  then show "load_bytes off' n (store_bytes off bs m) ! i = load_bytes off' n m ! i"
    using fit disj by (auto simp: load_bytes_def length_store_bytes nth_store_bytes)
qed

lemma load_bytes_sub:
  "k + n \<le> l \<Longrightarrow> load_bytes k n (load_bytes off l m) = load_bytes (off + k) n m"
  by (simp add: load_bytes_def drop_take add.commute min_def)

lemma length_load_bytes [shm_laws]: "off + n \<le> length m \<Longrightarrow> length (load_bytes off n m) = n"
  by (simp add: load_bytes_def)

lemma load_store_le_same [shm_laws]:
  "off + n \<le> length m \<Longrightarrow> LENGTH('a) \<le> 8 * n \<Longrightarrow>
     load_le off n (store_le off n (w :: 'a::len word) m) = w"
  by (simp add: load_le_def store_le_def load_store_bytes_same le_word_le_bytes)

lemma load_store_le_disjoint:
  "off + n \<le> length m \<Longrightarrow> off' + n' \<le> off \<or> off + n \<le> off' \<Longrightarrow>
     load_le off' n' (store_le off n w m) = load_le off' n' m"
  by (simp add: load_le_def store_le_def load_store_bytes_disjoint)

lemma load_le_store_bytes_disjoint:
  "off + length bs \<le> length m \<Longrightarrow> off' + n' \<le> off \<or> off + length bs \<le> off' \<Longrightarrow>
     load_le off' n' (store_bytes off bs m) = load_le off' n' m"
  by (simp add: load_le_def load_store_bytes_disjoint)

lemma load_bytes_store_le_disjoint:
  "off + n \<le> length m \<Longrightarrow> off' + n' \<le> off \<or> off + n \<le> off' \<Longrightarrow>
     load_bytes off' n' (store_le off n w m) = load_bytes off' n' m"
  by (simp add: store_le_def load_store_bytes_disjoint)

lemmas disjoint_laws =
  load_store_bytes_disjoint load_store_le_disjoint load_le_store_bytes_disjoint
  load_bytes_store_le_disjoint

end
