(* ===== verification/Shm_Sha256.thy ===== *)
theory Shm_Sha256
  imports Shm_Memory
begin

text \<open>
  SHA-256 as \<^verbatim>\<open>src/shm_security.cpp\<close> computes it, in a stream with a block buffer, and the proof that
  it is the hash of FIPS 180-4 for every message. The standard's hash is written down independently:
  the message schedule is a recurrence, the rotations are the library's, the padding is applied to
  the whole message.
\<close>

unbundle bit_operations_syntax

section \<open>The hash of the source\<close>

definition kSha256BlockBytes :: nat where "kSha256BlockBytes = 64"

record Sha256State =
  sh_h :: "u32 list"
  sh_block :: "u8 list"
  sh_total_bytes :: u64
  sh_block_used :: nat

text \<open>The round constants, row by row as the source lists them.\<close>

definition kSha256K :: "u32 list" where
  "kSha256K = concat
    [[0x428a2f98, 0x71374491, 0xb5c0fbcf, 0xe9b5dba5, 0x3956c25b, 0x59f111f1],
     [0x923f82a4, 0xab1c5ed5, 0xd807aa98, 0x12835b01, 0x243185be, 0x550c7dc3],
     [0x72be5d74, 0x80deb1fe, 0x9bdc06a7, 0xc19bf174, 0xe49b69c1, 0xefbe4786],
     [0x0fc19dc6, 0x240ca1cc, 0x2de92c6f, 0x4a7484aa, 0x5cb0a9dc, 0x76f988da],
     [0x983e5152, 0xa831c66d, 0xb00327c8, 0xbf597fc7, 0xc6e00bf3, 0xd5a79147],
     [0x06ca6351, 0x14292967, 0x27b70a85, 0x2e1b2138, 0x4d2c6dfc, 0x53380d13],
     [0x650a7354, 0x766a0abb, 0x81c2c92e, 0x92722c85, 0xa2bfe8a1, 0xa81a664b],
     [0xc24b8b70, 0xc76c51a3, 0xd192e819, 0xd6990624, 0xf40e3585, 0x106aa070],
     [0x19a4c116, 0x1e376c08, 0x2748774c, 0x34b0bcb5, 0x391c0cb3, 0x4ed8aa4a],
     [0x5b9cca4f, 0x682e6ff3, 0x748f82ee, 0x78a5636f, 0x84c87814, 0x8cc70208],
     [0x90befffa, 0xa4506ceb, 0xbef9a3f7, 0xc67178f2]]"

definition rotr :: "u32 \<Rightarrow> nat \<Rightarrow> u32" where
  "rotr x n = drop_bit n x OR push_bit (32 - n) x"

definition load_be32 :: "u8 list \<Rightarrow> nat \<Rightarrow> u32" where
  "load_be32 p i =
     push_bit 24 (ucast (p ! i)) OR push_bit 16 (ucast (p ! (i + 1))) OR
     push_bit 8 (ucast (p ! (i + 2))) OR ucast (p ! (i + 3))"

definition store_be32 :: "u32 \<Rightarrow> u8 list" where
  "store_be32 v = [ucast (drop_bit 24 v), ucast (drop_bit 16 v), ucast (drop_bit 8 v), ucast v]"

definition sha256_init :: "Sha256State \<Rightarrow> Sha256State" where
  "sha256_init state =
     state\<lparr>sh_h := [0x6a09e667, 0xbb67ae85, 0x3c6ef372, 0xa54ff53a,
                    0x510e527f, 0x9b05688c, 0x1f83d9ab, 0x5be0cd19],
           sh_total_bytes := 0, sh_block_used := 0\<rparr>"

definition schedule_word :: "u32 list \<Rightarrow> nat \<Rightarrow> u32" where
  "schedule_word w i =
     (let s0 = rotr (w ! (i - 15)) 7 XOR rotr (w ! (i - 15)) 18 XOR drop_bit 3 (w ! (i - 15));
          s1 = rotr (w ! (i - 2)) 17 XOR rotr (w ! (i - 2)) 19 XOR drop_bit 10 (w ! (i - 2))
      in w ! (i - 16) + s0 + w ! (i - 7) + s1)"

definition schedule :: "u8 list \<Rightarrow> u32 list" where
  "schedule block =
     fold (\<lambda>i w. w[i := schedule_word w i]) [16..<64]
       (fold (\<lambda>i w. w[i := load_be32 block (i * 4)]) [0..<16] (replicate 64 0))"

fun sha256_round :: "u32 list \<Rightarrow> nat \<Rightarrow>
    u32 \<times> u32 \<times> u32 \<times> u32 \<times> u32 \<times> u32 \<times> u32 \<times> u32 \<Rightarrow>
    u32 \<times> u32 \<times> u32 \<times> u32 \<times> u32 \<times> u32 \<times> u32 \<times> u32" where
  "sha256_round w i (a, b, c, d, e, f, g, h) =
     (let s1 = rotr e 6 XOR rotr e 11 XOR rotr e 25;
          ch = (e AND f) XOR (NOT e AND g);
          temp1 = h + s1 + ch + kSha256K ! i + w ! i;
          s0 = rotr a 2 XOR rotr a 13 XOR rotr a 22;
          maj = (a AND b) XOR (a AND c) XOR (b AND c);
          temp2 = s0 + maj
      in (temp1 + temp2, a, b, c, d + temp1, e, f, g))"

definition compress :: "u32 list \<Rightarrow> u8 list \<Rightarrow> u32 list" where
  "compress hs block =
     (case fold (sha256_round (schedule block)) [0..<64]
             (hs ! 0, hs ! 1, hs ! 2, hs ! 3, hs ! 4, hs ! 5, hs ! 6, hs ! 7) of
        (a, b, c, d, e, f, g, h) \<Rightarrow>
          [hs ! 0 + a, hs ! 1 + b, hs ! 2 + c, hs ! 3 + d, hs ! 4 + e, hs ! 5 + f, hs ! 6 + g, hs ! 7 + h])"

definition sha256_transform :: "Sha256State \<Rightarrow> u8 list \<Rightarrow> Sha256State" where
  "sha256_transform state block = state\<lparr>sh_h := compress (sh_h state) block\<rparr>"

text \<open>The loop of the update; its first argument bounds the iterations, each takes at least a byte.\<close>

fun sha256_update_loop :: "nat \<Rightarrow> Sha256State \<Rightarrow> u8 list \<Rightarrow> Sha256State" where
  "sha256_update_loop 0 state data = state"
| "sha256_update_loop (Suc n) state data =
     (if data = [] then state
      else
        let tk = min (length data) (kSha256BlockBytes - sh_block_used state);
            state1 = state\<lparr>sh_block := store_bytes (sh_block_used state) (take tk data) (sh_block state),
                           sh_block_used := sh_block_used state + tk\<rparr>;
            state2 = (if sh_block_used state1 = kSha256BlockBytes
                      then (sha256_transform state1 (sh_block state1))\<lparr>sh_block_used := 0\<rparr>
                      else state1)
        in sha256_update_loop n state2 (drop tk data))"

definition sha256_update :: "Sha256State \<Rightarrow> u8 list \<Rightarrow> Sha256State" where
  "sha256_update state data =
     sha256_update_loop (length data)
       (state\<lparr>sh_total_bytes := sh_total_bytes state + of_nat (length data)\<rparr>) data"

definition fill_zero :: "nat \<Rightarrow> nat \<Rightarrow> u8 list \<Rightarrow> u8 list" where
  "fill_zero from to block = store_bytes from (replicate (to - from) 0) block"

definition sha256_final :: "Sha256State \<Rightarrow> u8 list" where
  "sha256_final state =
     (let bit_len = sh_total_bytes state * 8;
          state1 = state\<lparr>sh_block := (sh_block state)[sh_block_used state := 0x80],
                         sh_block_used := sh_block_used state + 1\<rparr>;
          state2 = (if 56 < sh_block_used state1
                    then (sha256_transform state1 (fill_zero (sh_block_used state1) 64 (sh_block state1)))
                           \<lparr>sh_block := fill_zero (sh_block_used state1) 64 (sh_block state1), sh_block_used := 0\<rparr>
                    else state1);
          block3 = fill_zero (sh_block_used state2) 56 (sh_block state2);
          block4 = fold (\<lambda>i b. b[56 + i := ucast (drop_bit ((7 - i) * 8) bit_len)]) [0..<8] block3;
          state4 = sha256_transform state2 block4
      in concat (map store_be32 (sh_h state4)))"

definition sha256_zero :: Sha256State where
  "sha256_zero = \<lparr>sh_h = replicate 8 0, sh_block = replicate 64 0, sh_total_bytes = 0, sh_block_used = 0\<rparr>"

definition sha256 :: "u8 list \<Rightarrow> u8 list" where
  "sha256 data = sha256_final (sha256_update (sha256_init sha256_zero) data)"

section \<open>The standard's hash\<close>

text \<open>
  SHA-256 as FIPS 180-4 has it: the message schedule as a recurrence, the rounds over the schedule,
  the padding of the whole message, and one compression per block.
\<close>

definition fips_sigma0 :: "u32 \<Rightarrow> u32" where
  "fips_sigma0 x = word_rotr 7 x XOR word_rotr 18 x XOR drop_bit 3 x"

definition fips_sigma1 :: "u32 \<Rightarrow> u32" where
  "fips_sigma1 x = word_rotr 17 x XOR word_rotr 19 x XOR drop_bit 10 x"

fun fips_W :: "u8 list \<Rightarrow> nat \<Rightarrow> u32" where
  "fips_W block t =
     (if t < 16 then load_be32 block (4 * t)
      else fips_sigma1 (fips_W block (t - 2)) + fips_W block (t - 7) +
           fips_sigma0 (fips_W block (t - 15)) + fips_W block (t - 16))"

declare fips_W.simps [simp del]

definition fips_round ::
  "u32 \<times> u32 \<times> u32 \<times> u32 \<times> u32 \<times> u32 \<times> u32 \<times> u32 \<Rightarrow> u32 \<times> u32 \<Rightarrow>
   u32 \<times> u32 \<times> u32 \<times> u32 \<times> u32 \<times> u32 \<times> u32 \<times> u32" where
  "fips_round v kw =
     (case (v, kw) of ((a, b, c, d, e, f, g, h), (k, w)) \<Rightarrow>
        let t1 = h + (word_rotr 6 e XOR word_rotr 11 e XOR word_rotr 25 e) +
                 ((e AND f) XOR (NOT e AND g)) + k + w;
            t2 = (word_rotr 2 a XOR word_rotr 13 a XOR word_rotr 22 a) +
                 ((a AND b) XOR (a AND c) XOR (b AND c))
        in (t1 + t2, a, b, c, d + t1, e, f, g))"

definition fips_compress :: "u32 list \<Rightarrow> u8 list \<Rightarrow> u32 list" where
  "fips_compress hs block =
     (case foldl fips_round (hs ! 0, hs ! 1, hs ! 2, hs ! 3, hs ! 4, hs ! 5, hs ! 6, hs ! 7)
             (zip kSha256K (map (fips_W block) [0..<64])) of
        (a, b, c, d, e, f, g, h) \<Rightarrow> map2 (+) hs [a, b, c, d, e, f, g, h])"

function fips_blocks :: "u32 list \<Rightarrow> u8 list \<Rightarrow> u32 list" where
  "fips_blocks hs msg =
     (if length msg < 64 then hs else fips_blocks (fips_compress hs (take 64 msg)) (drop 64 msg))"
  by auto
termination by (relation "measure (length \<circ> snd)") auto

declare fips_blocks.simps [simp del]

definition fips_H0 :: "u32 list" where
  "fips_H0 = [0x6a09e667, 0xbb67ae85, 0x3c6ef372, 0xa54ff53a, 0x510e527f, 0x9b05688c, 0x1f83d9ab, 0x5be0cd19]"

definition be64 :: "u64 \<Rightarrow> u8 list" where
  "be64 x = map (\<lambda>i. ucast (drop_bit ((7 - i) * 8) x)) [0..<8]"

definition fips_pad :: "u8 list \<Rightarrow> u8 list" where
  "fips_pad msg = [0x80] @ replicate ((119 - length msg mod 64) mod 64) 0 @ be64 (of_nat (8 * length msg))"

definition fips_sha256 :: "u8 list \<Rightarrow> u8 list" where
  "fips_sha256 msg = concat (map store_be32 (fips_blocks fips_H0 (msg @ fips_pad msg)))"

section \<open>Compression\<close>

lemma rotr_word_rotr:
  assumes "0 < n" "n < 32"
  shows "rotr x n = word_rotr n x"
proof (rule bit_word_eqI)
  fix k
  assume "k < LENGTH(32)"
  then have k: "k < 32"
    by simp
  have b: "\<not> bit x j" if "32 \<le> j" for j
    using that bit_imp_le_length [of x j] by auto
  have m: "(k + n) mod 32 = (if k + n < 32 then k + n else k + n - 32)"
    using k assms by (simp add: mod_if)
  show "bit (rotr x n) k = bit (word_rotr n x) k"
    using assms k b [of "n + k"] by (auto simp: rotr_def bit_simps bit_word_rotr_iff m add.commute)
qed

lemma fold_nth_update:
  assumes "k + n \<le> length b"
  shows "fold (\<lambda>i b. b[k + i := f i]) [0..<n] b = take k b @ map f [0..<n] @ drop (k + n) b"
  using assms
proof (induction n)
  case (Suc n)
  then have "drop (k + n) b = b ! (k + n) # drop (Suc (k + n)) b"
    by (simp add: Cons_nth_drop_Suc)
  with Suc show ?case
    by (simp add: list_update_append)
qed simp

lemma schedule_prefix:
  assumes "n \<le> 64" "16 \<le> n"
  shows "fold (\<lambda>i w. w[i := schedule_word w i]) [16..<n]
     (map (fips_W block) [0..<16] @ replicate 48 0) = map (fips_W block) [0..<n] @ replicate (64 - n) 0"
  using assms(2,1)
proof (induction n rule: dec_induct)
  case base
  then show ?case by simp
next
  case (step n)
  let ?w = "map (fips_W block) [0..<n] @ replicate (64 - n) 0"
  have nth: "?w ! j = fips_W block j" if "j < n" for j
    using that by (simp add: nth_append)
  have "schedule_word ?w n = fips_W block n"
    using step.hyps(1)
    by (subst fips_W.simps)
      (simp add: schedule_word_def nth rotr_word_rotr fips_sigma0_def fips_sigma1_def)
  moreover have "64 - n = Suc (64 - Suc n)"
    using step.prems by simp
  ultimately show ?case
    using step by (simp add: list_update_append)
qed

lemma schedule_load:
  assumes "n \<le> 16"
  shows "fold (\<lambda>i w. w[i := load_be32 block (i * 4)]) [0..<n] (replicate 64 0) =
    map (fips_W block) [0..<n] @ replicate (64 - n) 0"
  using assms
proof (induction n)
  case (Suc n)
  have "64 - n = Suc (64 - Suc n)" "load_be32 block (n * 4) = fips_W block n"
    using Suc.prems by (simp_all add: fips_W.simps mult.commute)
  then show ?case
    using Suc by (simp add: list_update_append)
qed simp

lemma schedule_fips: "schedule block = map (fips_W block) [0..<64]"
proof -
  have "64 - 16 = (48 :: nat)" "replicate (64 - 64) (0 :: u32) = []"
    by simp_all
  then show ?thesis
    unfolding schedule_def schedule_load [OF order_refl]
    using schedule_prefix [of 64 block] by (simp only: append_Nil2)
qed

lemma length_K: "length kSha256K = 64"
  by (simp add: kSha256K_def)

lemma sha256_round_fips: "sha256_round w i v = fips_round v (kSha256K ! i, w ! i)"
  by (cases "(w, i, v)" rule: sha256_round.cases) (simp add: fips_round_def rotr_word_rotr Let_def)

lemma rounds_fips:
  assumes "length w = 64"
  shows "fold (sha256_round w) [0..<64] v = foldl fips_round v (zip kSha256K w)"
proof -
  have "zip kSha256K w = map (\<lambda>i. (kSha256K ! i, w ! i)) [0..<64]"
    using assms by (intro nth_equalityI) (simp_all add: length_K)
  moreover have "sha256_round w = (\<lambda>i v. fips_round v (kSha256K ! i, w ! i))"
    by (simp add: fun_eq_iff sha256_round_fips)
  ultimately show ?thesis
    by (simp only: foldl_conv_fold fold_map comp_def)
qed

lemma compress_fips: "length hs = 8 \<Longrightarrow> compress hs block = fips_compress hs block"
  unfolding compress_def fips_compress_def schedule_fips
  by (subst rounds_fips) (auto simp: split: prod.split simp: numeral_eq_Suc length_Suc_conv)

lemma length_compress [simp]: "length (compress hs block) = 8"
  by (simp add: compress_def split: prod.split)

section \<open>Streaming\<close>

text \<open>
  The state after absorbing \<open>d\<close>: the full blocks are hashed, the rest is in the buffer.
\<close>

definition buffered :: "Sha256State \<Rightarrow> u8 list \<Rightarrow> bool" where
  "buffered st d \<longleftrightarrow> (\<exists>full tail. d = full @ tail \<and> 64 dvd length full \<and> length tail < 64 \<and>
     sh_block_used st = length tail \<and> take (length tail) (sh_block st) = tail \<and>
     length (sh_block st) = 64 \<and> sh_h st = fips_blocks fips_H0 full \<and> length (sh_h st) = 8)"

definition absorbed :: "Sha256State \<Rightarrow> u8 list \<Rightarrow> bool" where
  "absorbed st d \<longleftrightarrow> buffered st d \<and> sh_total_bytes st = of_nat (length d)"

lemma fips_blocks_append:
  "64 dvd length xs \<Longrightarrow> fips_blocks hs (xs @ ys) = fips_blocks (fips_blocks hs xs) ys"
proof (induction hs xs rule: fips_blocks.induct)
  case (1 hs xs)
  show ?case
  proof (cases "length xs < 64")
    case True
    then have "xs = []"
      using "1.prems" by (auto elim: dvdE)
    then show ?thesis
      by (simp add: fips_blocks.simps [of hs "[]"])
  next
    case False
    then have "64 dvd length (drop 64 xs)"
      using "1.prems" by (simp add: dvd_diff_nat)
    with False "1.IH" show ?thesis
      by (simp add: fips_blocks.simps [of hs xs] fips_blocks.simps [of hs "xs @ ys"])
  qed
qed

lemma fips_blocks_short [simp]: "length xs < 64 \<Longrightarrow> fips_blocks hs xs = hs"
  by (simp add: fips_blocks.simps)

lemma fips_blocks_one:
  "length b = 64 \<Longrightarrow> length hs = 8 \<Longrightarrow> fips_blocks hs b = compress hs b"
  by (simp add: fips_blocks.simps [of hs b] compress_fips)

lemma update_loop_buffered:
  "buffered st d \<Longrightarrow> length data \<le> n \<Longrightarrow> buffered (sha256_update_loop n st data) (d @ data)"
proof (induction n arbitrary: st d data)
  case 0
  then show ?case by simp
next
  case (Suc n)
  show ?case
  proof (cases "data = []")
    case True
    then show ?thesis using Suc.prems(1) by simp
  next
    case False
    from Suc.prems(1) obtain full tail where d: "d = full @ tail" "64 dvd length full" "length tail < 64"
        "sh_block_used st = length tail" "take (length tail) (sh_block st) = tail"
        "length (sh_block st) = 64" "sh_h st = fips_blocks fips_H0 full" "length (sh_h st) = 8"
      by (auto simp: buffered_def)
    define tk where "tk = min (length data) (64 - length tail)"
    define block where "block = store_bytes (length tail) (take tk data) (sh_block st)"
    have tk: "0 < tk" "tk \<le> length data" "length tail + tk \<le> 64"
      using False d(3) by (auto simp: tk_def)
    have block: "length block = 64" "take (length tail + tk) block = tail @ take tk data"
      using tk d(5,6) by (simp_all add: block_def store_bytes_def)
    define st2 where "st2 = (let st1 = st\<lparr>sh_block := block, sh_block_used := length tail + tk\<rparr> in
        if length tail + tk = 64 then (sha256_transform st1 block)\<lparr>sh_block_used := 0\<rparr> else st1)"
    have "buffered st2 (d @ take tk data)"
    proof (cases "length tail + tk = 64")
      case True
      then have b: "block = tail @ take tk data"
        using block by simp
      have "fips_blocks fips_H0 (full @ block) = compress (sh_h st) block"
        using d(2,7,8) block(1) by (simp add: fips_blocks_append fips_blocks_one)
      then show ?thesis
        unfolding buffered_def using True d(1,2) block(1) tk(2)
        by (intro exI [of _ "full @ block"] exI [of _ "[]"])
          (simp add: st2_def sha256_transform_def b)
    next
      case False
      then show ?thesis
        unfolding buffered_def using d block tk
        by (intro exI [of _ full] exI [of _ "tail @ take tk data"]) (simp add: st2_def)
    qed
    then have "buffered (sha256_update_loop n st2 (drop tk data)) ((d @ take tk data) @ drop tk data)"
      using tk Suc.prems(2) by (intro Suc.IH) simp_all
    moreover have "sha256_update_loop (Suc n) st data = sha256_update_loop n st2 (drop tk data)"
      using False by (simp add: d(4) st2_def tk_def block_def kSha256BlockBytes_def Let_def)
    ultimately show ?thesis
      by simp
  qed
qed

lemma update_loop_total [simp]:
  "sh_total_bytes (sha256_update_loop n st data) = sh_total_bytes st"
  by (induction n arbitrary: st data) (simp_all add: Let_def sha256_transform_def)

lemma buffered_total [simp]: "buffered (st\<lparr>sh_total_bytes := x\<rparr>) d = buffered st d"
  by (simp add: buffered_def)

lemma absorbed_update: "absorbed st d \<Longrightarrow> absorbed (sha256_update st data) (d @ data)"
  by (simp add: absorbed_def sha256_update_def update_loop_buffered)

lemma absorbed_init: "length (sh_block st) = 64 \<Longrightarrow> absorbed (sha256_init st) []"
  by (simp add: absorbed_def buffered_def sha256_init_def fips_H0_def)

text \<open>The last blocks are the buffer with the padding.\<close>

lemma be64_update:
  "length b = 64 \<Longrightarrow>
     fold (\<lambda>i b. b[56 + i := ucast (drop_bit ((7 - i) * 8) x)]) [0..<8] b = take 56 b @ be64 x"
  using fold_nth_update [of 56 8 b] by (simp add: be64_def del: upt_rec_numeral)

lemma take_mark:
  "length b = 64 \<Longrightarrow> r < 64 \<Longrightarrow> take r b = tail \<Longrightarrow> length tail = r \<Longrightarrow> take (Suc r) (b[r := x]) = tail @ [x]"
  by (simp add: take_Suc_conv_app_nth)

lemma take_fill_zero:
  assumes "length b = 64" "from \<le> to" "to \<le> 64"
  shows "take to (fill_zero from to b) = take from b @ replicate (to - from) 0"
    "length (fill_zero from to b) = 64"
  using assms by (simp_all add: fill_zero_def store_bytes_def)

lemma length_be64 [simp]: "length (be64 x) = 8"
  by (simp add: be64_def)

lemma sha256_final_fips:
  assumes "absorbed st d"
  shows "sha256_final st = fips_sha256 d"
proof -
  from assms obtain full tail where d: "d = full @ tail" "64 dvd length full" "length tail < 64"
      "sh_block_used st = length tail" "take (length tail) (sh_block st) = tail"
      "length (sh_block st) = 64" "sh_h st = fips_blocks fips_H0 full" "length (sh_h st) = 8"
    and total: "sh_total_bytes st * 8 = of_nat (8 * length d)"
    by (auto simp: absorbed_def buffered_def)
  let ?L = "be64 (of_nat (8 * length d))" and ?r = "length tail"
  have r: "length d mod 64 = ?r"
    using d(1-3) by (auto elim!: dvdE)
  define b1 where "b1 = (sh_block st)[?r := 0x80]"
  have b1: "length b1 = 64" "take (Suc ?r) b1 = tail @ [0x80]"
    using d(3,5,6) by (simp_all add: b1_def take_mark)
  have blocks: "fips_blocks fips_H0 (d @ fips_pad d) = fips_blocks (sh_h st) (tail @ fips_pad d)"
    by (simp add: d fips_blocks_append)
  show ?thesis
  proof (cases "56 < Suc ?r")
    case False
    have "(119 - ?r) mod 64 = 55 - ?r"
      using False by (simp add: mod_if)
    then have pad: "tail @ fips_pad d = take 56 (fill_zero (Suc ?r) 56 b1) @ ?L"
      using False b1 by (simp add: fips_pad_def r take_fill_zero)
    have "length (tail @ fips_pad d) = 64"
      unfolding pad using False b1 by (simp add: take_fill_zero)
    then show ?thesis
      using False unfolding sha256_final_def fips_sha256_def blocks
      by (simp add: Let_def d(4) total be64_update take_fill_zero(2) b1 sha256_transform_def
          fips_blocks_one [OF _ d(8)] pad flip: b1_def)
  next
    case True
    then have "(119 - ?r) mod 64 = (64 - Suc ?r) + 56"
      using d(3) by (simp add: mod_if)
    then have z: "replicate ((119 - ?r) mod 64) (0 :: u8) = replicate (64 - Suc ?r) 0 @ replicate 56 0"
      by (simp only: replicate_add)
    let ?b2 = "fill_zero (Suc ?r) 64 b1"
    have b2: "length ?b2 = 64" "?b2 = tail @ 0x80 # replicate (64 - Suc ?r) 0"
      using d(3) b1 take_fill_zero [of b1 "Suc ?r" 64] by simp_all
    have pad: "tail @ fips_pad d = ?b2 @ replicate 56 0 @ ?L"
      unfolding fips_pad_def r z b2(2) by simp
    have "fips_blocks (sh_h st) (tail @ fips_pad d) = compress (compress (sh_h st) ?b2) (replicate 56 0 @ ?L)"
      unfolding pad by (simp add: fips_blocks_append b2(1) fips_blocks_one d(8))
    then show ?thesis
      using True unfolding sha256_final_def fips_sha256_def blocks
      by (simp add: Let_def d(4) total be64_update take_fill_zero b2(1) sha256_transform_def flip: b1_def)
  qed
qed

section \<open>Properties\<close>

text \<open>
  C14. The streaming hash of the source is SHA-256: for every message, buffering, padding, the message
  schedule in an array and the rounds give what the standard's definition gives.
\<close>

theorem sha256_fips: "sha256 data = fips_sha256 data"
proof -
  have "absorbed (sha256_init sha256_zero) []"
    by (rule absorbed_init) (simp add: sha256_zero_def)
  then show ?thesis
    using absorbed_update [of "sha256_init sha256_zero" "[]" data] by (simp add: sha256_def sha256_final_fips)
qed

text \<open>
  The known answer of FIPS 180-4 for the message of the three letters abc, computed from the
  definitions that model the source.
\<close>

theorem sha256_abc:
  "sha256 [0x61, 0x62, 0x63] =
     [0xba, 0x78, 0x16, 0xbf, 0x8f, 0x01, 0xcf, 0xea, 0x41, 0x41, 0x40, 0xde, 0x5d, 0xae, 0x22, 0x23,
      0xb0, 0x03, 0x61, 0xa3, 0x96, 0x17, 0x7a, 0x9c, 0xb4, 0x10, 0xff, 0x61, 0xf2, 0x00, 0x15, 0xad]"
  by code_simp

end
