(* ===== verification/Shm_Types.thy ===== *)
theory Shm_Types
  imports Shmfx_Prelude
begin

text \<open>
  The data of \<^verbatim>\<open>include/shmfx/shm_types.h\<close> and \<^verbatim>\<open>include/shmfx/shm_error.h\<close>: constants, enums, create options,
  \<^verbatim>\<open>align_up\<close>, and the error codes with the two result classes.
\<close>

section \<open>Constants\<close>

definition SHMFX_MAGIC :: u32 where [shm_consts]: "SHMFX_MAGIC = 0x53484D46"
definition SHMFX_VERSION_MAJOR :: u16 where [shm_consts]: "SHMFX_VERSION_MAJOR = 1"
definition SHMFX_VERSION_MINOR :: u16 where [shm_consts]: "SHMFX_VERSION_MINOR = 0"
definition SHMFX_HEADER_SIZE :: u64 where [shm_consts]: "SHMFX_HEADER_SIZE = 256"
definition SHMFX_IMMUTABLE_BYTES :: nat where [shm_consts]: "SHMFX_IMMUTABLE_BYTES = 128"
definition SHMFX_HMAC_BYTES :: nat where [shm_consts]: "SHMFX_HMAC_BYTES = 32"
definition SHMFX_NAME_BYTES :: nat where [shm_consts]: "SHMFX_NAME_BYTES = 64"

text \<open>
  The cache-line size is the build's choice; the fallback branch of the header (64 bytes, which is
  also what x86-64 compilers report) is the one modelled.
\<close>

definition SHMFX_CACHE_LINE_BYTES :: u64 where [shm_consts]: "SHMFX_CACHE_LINE_BYTES = 64"
definition MAX_SEGMENT_SIZE :: u64 where [shm_consts]: "MAX_SEGMENT_SIZE = push_bit 30 1"
definition TOTAL_QUOTA_BYTES :: u64 where [shm_consts]: "TOTAL_QUOTA_BYTES = push_bit 30 4"
definition MAX_REGISTRY_ENTRIES :: nat where [shm_consts]: "MAX_REGISTRY_ENTRIES = 1024"
definition REGISTRY_BITMAP_BYTES :: nat where
  [shm_consts]: "REGISTRY_BITMAP_BYTES = MAX_REGISTRY_ENTRIES div 8"
definition MPSC_CAS_RETRY_BUDGET :: nat where [shm_consts]: "MPSC_CAS_RETRY_BUDGET = 64"
definition HEARTBEAT_DEAD_NS :: u64 where
  [shm_consts]: "HEARTBEAT_DEAD_NS = 3 * 1000 * 1000 * 1000"
definition SEGMENT_ZOMBIE_NS :: u64 where
  [shm_consts]: "SEGMENT_ZOMBIE_NS = 60 * 60 * 1000 * 1000 * 1000"
definition REGISTRY_NAME :: string where [shm_consts]: "REGISTRY_NAME = ''/shmfx.registry''"
definition REGISTRY_LOCK_NAME :: string where
  [shm_consts]: "REGISTRY_LOCK_NAME = ''/shmfx.registry.lock''"

section \<open>Enums\<close>

datatype SegmentType = Raw | RecordRing | Kv | Registry

primrec segment_type_code :: "SegmentType \<Rightarrow> u32" where
  "segment_type_code Raw = 1"
| "segment_type_code RecordRing = 2"
| "segment_type_code Kv = 3"
| "segment_type_code Registry = 4"

datatype SegmentState = Init | Active | Draining | Dead

primrec segment_state_code :: "SegmentState \<Rightarrow> u32" where
  "segment_state_code Init = 0"
| "segment_state_code Active = 1"
| "segment_state_code Draining = 2"
| "segment_state_code Dead = 3"

lemma segment_state_code_inj:
  "segment_state_code a = segment_state_code b \<Longrightarrow> a = b"
  by (cases a; cases b) simp_all

text \<open>The lifecycle order of the states is the order of their codes.\<close>

instantiation SegmentState :: linorder
begin

definition less_eq_SegmentState :: "SegmentState \<Rightarrow> SegmentState \<Rightarrow> bool" where
  "less_eq_SegmentState a b \<longleftrightarrow> segment_state_code a \<le> segment_state_code b"

definition less_SegmentState :: "SegmentState \<Rightarrow> SegmentState \<Rightarrow> bool" where
  "less_SegmentState a b \<longleftrightarrow> segment_state_code a < segment_state_code b"

instance
proof
  fix x y z :: SegmentState
  show "(x < y) = (x \<le> y \<and> \<not> y \<le> x)"
    by (auto simp: less_SegmentState_def less_eq_SegmentState_def)
  show "x \<le> x"
    by (simp add: less_eq_SegmentState_def)
  show "x \<le> y \<Longrightarrow> y \<le> z \<Longrightarrow> x \<le> z"
    by (simp add: less_eq_SegmentState_def)
  show "x \<le> y \<Longrightarrow> y \<le> x \<Longrightarrow> x = y"
    by (rule segment_state_code_inj) (simp add: less_eq_SegmentState_def)
  show "x \<le> y \<or> y \<le> x"
    by (auto simp: less_eq_SegmentState_def)
qed

end

datatype AttachMode = ReadOnly | ReadWrite

definition HmacEnabled :: u32 where [shm_consts]: "HmacEnabled = push_bit 0 1"
definition RobustMutex :: u32 where [shm_consts]: "RobustMutex = push_bit 1 1"
definition LockfreeRing :: u32 where [shm_consts]: "LockfreeRing = push_bit 2 1"
definition ReadonlyPayload :: u32 where [shm_consts]: "ReadonlyPayload = push_bit 3 1"

record CreateOptions =
  co_name :: string
  co_type :: SegmentType
  co_total_size :: u64
  co_meta_size :: u64
  co_perm :: u32
  co_flags :: u32

section \<open>Alignment\<close>

definition align_up :: "u64 \<Rightarrow> u64 \<Rightarrow> u64" where
  "align_up v alignment = (v + alignment - 1) AND NOT (alignment - 1)"

text \<open>
  For a power-of-two boundary and no overflow of the sum, the result is the least multiple of the
  boundary that is not below the value.
\<close>

lemma unat_align_up:
  assumes k: "k < 64" and fit: "unat v + 2 ^ k - 1 < 2 ^ 64"
  shows "unat (align_up v (2 ^ k)) = ((unat v + 2 ^ k - 1) div 2 ^ k) * 2 ^ k"
proof -
  have m: "(2 ^ k - 1 :: u64) = mask k"
    by (simp add: mask_eq_exp_minus_1)
  have p: "(2 :: nat) ^ k \<le> 2 ^ 63"
    using k by (intro power_increasing) auto
  have u: "unat (mask k :: u64) = 2 ^ k - 1"
    using p unat_of_nat_64 [of "mask k"] by (simp add: of_nat_mask_eq mask_eq_exp_minus_1)
  have "unat (v + mask k) = unat v + (2 ^ k - 1)"
    using fit unat_add_64 [of v "mask k"] u by simp
  then have "unat (v + 2 ^ k - 1) = unat v + 2 ^ k - 1"
    by (simp add: m [symmetric] add_diff_eq)
  then show ?thesis
    by (simp add: align_up_def m unat_and_not_mask)
qed

section \<open>Error codes and results\<close>

datatype ErrorCode =
    Ok | InvalidName | CorruptedHeader | NotFound | AlreadyExists | PermissionDenied
  | QuotaExceeded | PriorOwnerDead | RingFull | VersionMismatch | SegmentDead

primrec error_code_num :: "ErrorCode \<Rightarrow> int" where
  "error_code_num Ok = 0"
| "error_code_num InvalidName = - 1"
| "error_code_num CorruptedHeader = - 2"
| "error_code_num NotFound = - 3"
| "error_code_num AlreadyExists = - 4"
| "error_code_num PermissionDenied = - 5"
| "error_code_num QuotaExceeded = - 6"
| "error_code_num PriorOwnerDead = - 7"
| "error_code_num RingFull = - 8"
| "error_code_num VersionMismatch = - 9"
| "error_code_num SegmentDead = - 10"

definition is_ok :: "ErrorCode \<Rightarrow> bool" where
  "is_ok code \<longleftrightarrow> code = Ok"

primrec to_string :: "ErrorCode \<Rightarrow> string" where
  "to_string Ok = ''Ok''"
| "to_string InvalidName = ''ErrInvalidName''"
| "to_string CorruptedHeader = ''ErrCorruptedHeader''"
| "to_string NotFound = ''ErrNotFound''"
| "to_string AlreadyExists = ''ErrAlreadyExists''"
| "to_string PermissionDenied = ''ErrPermissionDenied''"
| "to_string QuotaExceeded = ''ErrQuotaExceeded''"
| "to_string PriorOwnerDead = ''ErrPriorOwnerDead''"
| "to_string RingFull = ''ErrRingFull''"
| "to_string VersionMismatch = ''ErrVersionMismatch''"
| "to_string SegmentDead = ''ErrSegmentDead''"

text \<open>
  \<^verbatim>\<open>Result<T>\<close> is a value or an error code; \<^verbatim>\<open>Result<void>\<close> only stores a code,
  and \<^const>\<open>Ok\<close> is success.
\<close>

type_synonym 'a Result = "ErrorCode + 'a"
type_synonym VoidResult = ErrorCode

definition has_value :: "'a Result \<Rightarrow> bool" where
  "has_value r = (case r of Inl _ \<Rightarrow> False | Inr _ \<Rightarrow> True)"

definition result_error :: "'a Result \<Rightarrow> ErrorCode" where
  "result_error r = (case r of Inl e \<Rightarrow> e | Inr _ \<Rightarrow> Ok)"

definition void_has_value :: "VoidResult \<Rightarrow> bool" where
  "void_has_value e \<longleftrightarrow> e = Ok"

lemma has_value_simps [simp]:
  "has_value (Inr v)" "\<not> has_value (Inl e)"
  "result_error (Inr v) = Ok" "result_error (Inl e) = e"
  by (simp_all add: has_value_def result_error_def)

end
