(* ===== verification/Shm_Header.thy ===== *)
theory Shm_Header
  imports Shm_Types Shm_Memory
begin

text \<open>
  The shared-memory structs of \<^verbatim>\<open>include/shmfx/shm_header.h\<close>. Each struct is a record of its named
  fields (padding and reserved bytes, which no code reads, are left out of the records); its C layout
  is described separately by the list of all its members, from which offsets and sizes are computed
  with the ABI rule and checked against the header's static assertions. The bytes covered by the
  HMAC are the little-endian image of the immutable fields.
\<close>

section \<open>Fixed name buffers\<close>

abbreviation NUL :: char where
  "NUL \<equiv> CHR 0x00"

definition copy_name :: "string \<Rightarrow> string" where
  "copy_name name =
     (let n = min (length name) (SHMFX_NAME_BYTES - 1)
      in take n name @ replicate (SHMFX_NAME_BYTES - n) NUL)"

definition fixed_name_view :: "string \<Rightarrow> string" where
  "fixed_name_view buf = takeWhile (\<lambda>c. c \<noteq> NUL) (take SHMFX_NAME_BYTES buf)"

lemma length_copy_name [simp]: "length (copy_name name) = SHMFX_NAME_BYTES"
  by (simp add: copy_name_def Let_def shm_consts)

lemma takeWhile_no_NUL_append:
  "NUL \<notin> set xs \<Longrightarrow> takeWhile (\<lambda>c. c \<noteq> NUL) (xs @ replicate (Suc n) NUL) = xs"
  by (induction xs) auto

text \<open>A name that fits is read back unchanged.\<close>

lemma fixed_name_view_copy_name [shm_laws]:
  assumes "NUL \<notin> set name" and "length name < SHMFX_NAME_BYTES"
  shows "fixed_name_view (copy_name name) = name"
proof -
  have n: "SHMFX_NAME_BYTES - length name = Suc (63 - length name)"
    and m: "min (length name) (SHMFX_NAME_BYTES - 1) = length name"
    using assms(2) by (simp_all add: shm_consts)
  have c: "copy_name name = name @ replicate (Suc (63 - length name)) NUL"
    unfolding copy_name_def Let_def m n by simp
  have t: "take SHMFX_NAME_BYTES (copy_name name) = copy_name name"
    by simp
  show ?thesis
    unfolding fixed_name_view_def t unfolding c by (rule takeWhile_no_NUL_append [OF assms(1)])
qed

lemma no_NUL_fixed_name_view: "NUL \<notin> set (fixed_name_view buf)"
  unfolding fixed_name_view_def using set_takeWhileD by fastforce

definition byte_of_char :: "char \<Rightarrow> u8" where
  "byte_of_char c = of_nat (of_char c)"

lemma byte_of_char_inj: "byte_of_char a = byte_of_char b \<Longrightarrow> a = b"
proof -
  assume eq: "byte_of_char a = byte_of_char b"
  have "unat (byte_of_char c) = of_char c" for c
    by (simp add: byte_of_char_def unat_of_nat)
  with eq have "(of_char a :: nat) = of_char b"
    by metis
  then show "a = b"
    by simp
qed

section \<open>Structs\<close>

text \<open>
  The robust process-shared mutex in the header, as a state: free, held, released by the death of its
  holder, held by the first locker after such a death, or unusable.
\<close>

datatype pthread_mutex = MFree | MHeld | MOwnerDead | MHeldInconsistent | MNotRecoverable

record ShmHeader =
  h_magic :: u32
  h_version_major :: u16
  h_version_minor :: u16
  h_segment_type :: u32
  h_flags :: u32
  h_total_size :: u64
  h_payload_size :: u64
  h_meta_offset :: u32
  h_meta_size :: u32
  h_payload_offset :: u32
  h_creator_pid :: u32
  h_created_at_ns :: u64
  h_creator_start_time :: u64
  h_name :: string
  h_hmac :: "u8 list"
  h_owner_pid :: u32
  h_owner_start_time :: u64
  h_ref_count :: u32
  h_state :: u32
  h_heartbeat_counter :: u64
  h_heartbeat_last_ns :: u64
  h_control_mutex :: pthread_mutex

record RecordRingMeta =
  record_max :: u32
  record_stride :: u32
  producer_mode :: u32
  consumer_mode :: u32
  lost_count :: u64

record RegistryEntry =
  re_seq_storage :: u32
  re_name :: string
  re_total_size :: u64
  re_segment_type :: u32
  re_owner_pid :: u32
  re_owner_start_time :: u64
  re_flags :: u32
  re_created_at_ns :: u64
  re_last_seen_ns :: u64

record RegistryPayload =
  count_storage :: u32
  bitmap :: "u8 list"
  slots :: "RegistryEntry list"

section \<open>Layout\<close>

text \<open>A member is its name, its size and its alignment.\<close>

type_synonym member = "string \<times> nat \<times> nat"

definition round_up :: "nat \<Rightarrow> nat \<Rightarrow> nat" where
  "round_up n a = ((n + a - 1) div a) * a"

fun member_offset :: "nat \<Rightarrow> string \<Rightarrow> member list \<Rightarrow> nat option" where
  "member_offset off f [] = None"
| "member_offset off f ((g, sz, al) # ms) =
     (if f = g then Some (round_up off al) else member_offset (round_up off al + sz) f ms)"

fun layout_end :: "nat \<Rightarrow> member list \<Rightarrow> nat" where
  "layout_end off [] = off"
| "layout_end off ((g, sz, al) # ms) = layout_end (round_up off al + sz) ms"

definition struct_align :: "member list \<Rightarrow> nat" where
  "struct_align ms = foldr max (map (snd \<circ> snd) ms) 1"

definition struct_size :: "member list \<Rightarrow> nat" where
  "struct_size ms = round_up (layout_end 0 ms) (struct_align ms)"

definition offsetof :: "string \<Rightarrow> member list \<Rightarrow> nat option" where
  "offsetof f ms = member_offset 0 f ms"

definition ShmHeader_layout :: "member list" where
  "ShmHeader_layout =
    [(''magic'', 4, 4), (''version_major'', 2, 2), (''version_minor'', 2, 2),
     (''segment_type'', 4, 4), (''flags'', 4, 4), (''total_size'', 8, 8),
     (''payload_size'', 8, 8), (''meta_offset'', 4, 4), (''meta_size'', 4, 4),
     (''payload_offset'', 4, 4), (''creator_pid'', 4, 4), (''created_at_ns'', 8, 8),
     (''creator_start_time'', 8, 8), (''name'', 64, 1), (''hmac'', 32, 1),
     (''owner_pid'', 4, 4), (''_pad0'', 4, 4), (''owner_start_time'', 8, 8),
     (''ref_count'', 4, 4), (''state'', 4, 4), (''heartbeat_counter'', 8, 8),
     (''heartbeat_last_ns'', 8, 8), (''control_mutex'', 40, 8), (''_reserved'', 16, 1)]"

definition RecordRingMeta_layout :: "member list" where
  "RecordRingMeta_layout =
    [(''record_max'', 4, 4), (''record_stride'', 4, 4), (''producer_mode'', 4, 4),
     (''consumer_mode'', 4, 4), (''lost_count'', 8, 8), (''_reserved'', 40, 1)]"

definition RegistryEntry_layout :: "member list" where
  "RegistryEntry_layout =
    [(''seq_storage'', 4, 4), (''_pad0'', 4, 4), (''name'', 64, 1), (''total_size'', 8, 8),
     (''segment_type'', 4, 4), (''owner_pid'', 4, 4), (''owner_start_time'', 8, 8),
     (''flags'', 4, 4), (''_pad1'', 4, 4), (''created_at_ns'', 8, 8),
     (''last_seen_ns'', 8, 8), (''_reserved'', 8, 1)]"

definition RegistryPayload_layout :: "member list" where
  "RegistryPayload_layout =
    [(''count_storage'', 4, 4), (''_pad0'', 4, 4), (''bitmap'', REGISTRY_BITMAP_BYTES, 1),
     (''_align'', 120, 1),
     (''slots'', struct_size RegistryEntry_layout * MAX_REGISTRY_ENTRIES,
        struct_align RegistryEntry_layout)]"

lemmas layout_defs =
  struct_size_def struct_align_def offsetof_def round_up_def ShmHeader_layout_def
  RecordRingMeta_layout_def RegistryEntry_layout_def RegistryPayload_layout_def

lemma RegistryPayload_size:
  "struct_size RegistryPayload_layout = 256 + 128 * MAX_REGISTRY_ENTRIES"
  by (simp add: layout_defs) (simp add: shm_consts)

lemma RegistryPayload_slots: "offsetof ''slots'' RegistryPayload_layout = Some 256"
  by (simp add: layout_defs) (simp add: shm_consts)

lemma ShmHeader_size: "struct_size ShmHeader_layout = 256"
  by (simp add: layout_defs)

text \<open>
  The layouts satisfy the static assertions of the header: the struct sizes are 256, 64, 128 and
  256 + 128 * 1024 bytes, the HMAC starts where the immutable block ends, and the owner fields, the
  control mutex and the registry slots are at the asserted offsets.
\<close>

theorem layout_static_asserts:
  "struct_size ShmHeader_layout = unat SHMFX_HEADER_SIZE \<and>
   struct_align ShmHeader_layout \<ge> 8 \<and>
   offsetof ''hmac'' ShmHeader_layout = Some SHMFX_IMMUTABLE_BYTES \<and>
   offsetof ''owner_pid'' ShmHeader_layout = Some 160 \<and>
   offsetof ''owner_start_time'' ShmHeader_layout = Some 168 \<and>
   offsetof ''control_mutex'' ShmHeader_layout = Some 200 \<and>
   struct_size RecordRingMeta_layout = 64 \<and>
   struct_size RegistryEntry_layout = 128 \<and>
   offsetof ''slots'' RegistryPayload_layout = Some 256 \<and>
   struct_size RegistryPayload_layout = 256 + 128 * MAX_REGISTRY_ENTRIES"
  by (intro conjI) (simp_all only: RegistryPayload_size RegistryPayload_slots ShmHeader_size,
      simp_all add: layout_defs, simp_all add: shm_consts)

section \<open>The immutable block\<close>

definition immutable_bytes :: "ShmHeader \<Rightarrow> u8 list" where
  "immutable_bytes h =
     le_bytes 4 (h_magic h) @ le_bytes 2 (h_version_major h) @ le_bytes 2 (h_version_minor h) @
     le_bytes 4 (h_segment_type h) @ le_bytes 4 (h_flags h) @ le_bytes 8 (h_total_size h) @
     le_bytes 8 (h_payload_size h) @ le_bytes 4 (h_meta_offset h) @ le_bytes 4 (h_meta_size h) @
     le_bytes 4 (h_payload_offset h) @ le_bytes 4 (h_creator_pid h) @ le_bytes 8 (h_created_at_ns h) @
     le_bytes 8 (h_creator_start_time h) @ map byte_of_char (h_name h)"

lemma length_immutable_bytes:
  "length (h_name h) = SHMFX_NAME_BYTES \<Longrightarrow> length (immutable_bytes h) = SHMFX_IMMUTABLE_BYTES"
  by (simp add: immutable_bytes_def shm_consts)

definition same_immutable :: "ShmHeader \<Rightarrow> ShmHeader \<Rightarrow> bool" where
  "same_immutable h h' \<longleftrightarrow>
     h_magic h = h_magic h' \<and> h_version_major h = h_version_major h' \<and> h_version_minor h = h_version_minor h' \<and>
     h_segment_type h = h_segment_type h' \<and> h_flags h = h_flags h' \<and> h_total_size h = h_total_size h' \<and>
     h_payload_size h = h_payload_size h' \<and> h_meta_offset h = h_meta_offset h' \<and>
     h_meta_size h = h_meta_size h' \<and> h_payload_offset h = h_payload_offset h' \<and>
     h_creator_pid h = h_creator_pid h' \<and> h_created_at_ns h = h_created_at_ns h' \<and>
     h_creator_start_time h = h_creator_start_time h' \<and> h_name h = h_name h'"

lemma map_byte_of_char_inj: "map byte_of_char s = map byte_of_char t \<Longrightarrow> s = t"
  by (rule map_injective) (auto simp: inj_def byte_of_char_inj)

lemma le_bytes_append_inj:
  fixes v w :: "'a::len word"
  shows "le_bytes n v @ xs = le_bytes n w @ ys \<Longrightarrow> LENGTH('a) \<le> 8 * n \<Longrightarrow> v = w \<and> xs = ys"
  by (auto dest: le_bytes_inj)

text \<open>The image determines every immutable field: no change of one of them leaves it unchanged.\<close>

lemma immutable_bytes_inj:
  "immutable_bytes h = immutable_bytes h' \<longleftrightarrow> same_immutable h h'"
proof
  assume "immutable_bytes h = immutable_bytes h'"
  then show "same_immutable h h'"
    unfolding immutable_bytes_def same_immutable_def
    by (elim le_bytes_append_inj [elim_format] conjE) (auto dest: map_byte_of_char_inj)
next
  assume "same_immutable h h'"
  then show "immutable_bytes h = immutable_bytes h'"
    by (simp add: immutable_bytes_def same_immutable_def)
qed

end
