(* ===== verification/Shm_Interfaces.thy ===== *)
theory Shm_Interfaces
  imports Shmfx_Prelude
begin

text \<open>
  The contracts the components rely on, each a locale with the client facts proved once: transition
  systems with an invariant, bounded first-in first-out queues, streaming hashes and bounded tables. The
  theories of the providers interpret them on the definitions that model the code.
\<close>

section \<open>Transition systems\<close>

inductive reachable :: "('s \<Rightarrow> bool) \<Rightarrow> ('s \<Rightarrow> 's \<Rightarrow> bool) \<Rightarrow> 's \<Rightarrow> bool"
  for start :: "'s \<Rightarrow> bool" and step :: "'s \<Rightarrow> 's \<Rightarrow> bool" where
  reach_start: "start s \<Longrightarrow> reachable start step s"
| reach_step: "reachable start step s \<Longrightarrow> step s t \<Longrightarrow> reachable start step t"

text \<open>
  An invariant that every step keeps as long as a resource is not used up; a state that still has
  the resource only has predecessors that had it.
\<close>

locale bounded_invariant =
  fixes start :: "'s \<Rightarrow> bool" and step :: "'s \<Rightarrow> 's \<Rightarrow> bool"
    and within :: "'s \<Rightarrow> bool" and inv :: "'s \<Rightarrow> bool"
  assumes inv_start: "start s \<Longrightarrow> inv s"
    and inv_step: "inv s \<Longrightarrow> within t \<Longrightarrow> step s t \<Longrightarrow> inv t"
    and within_back: "step s t \<Longrightarrow> within t \<Longrightarrow> within s"
begin

lemma reachable_inv: "reachable start step s \<Longrightarrow> within s \<Longrightarrow> inv s"
  by (induction rule: reachable.induct) (blast intro: inv_start inv_step within_back)+

lemma reachable_never:
  "(\<And>s. inv s \<Longrightarrow> \<not> bad s) \<Longrightarrow> within s \<Longrightarrow> bad s \<Longrightarrow> \<not> reachable start step s"
  using reachable_inv by blast

end

locale step_invariant =
  fixes start :: "'s \<Rightarrow> bool" and step :: "'s \<Rightarrow> 's \<Rightarrow> bool" and inv :: "'s \<Rightarrow> bool"
  assumes start_inv: "start s \<Longrightarrow> inv s"
    and step_inv: "inv s \<Longrightarrow> step s t \<Longrightarrow> inv t"

sublocale step_invariant \<subseteq> unbounded: bounded_invariant start step "\<lambda>_. True" inv
  by unfold_locales (auto intro: start_inv step_inv)

section \<open>Bounded queues\<close>

text \<open>
  \<open>items\<close> is the queue's content as a list, \<open>room\<close> how many more pushes it can
  accept now, \<open>life\<close> how many pushes its finite position counters still allow; a push only
  counts on being served if it is \<open>live\<close>.
\<close>

locale bounded_fifo =
  fixes inv :: "'q \<Rightarrow> bool" and items :: "'q \<Rightarrow> 'a list" and room :: "'q \<Rightarrow> nat"
    and life :: "'q \<Rightarrow> nat" and live :: "'x \<Rightarrow> bool" and entry :: "'q \<Rightarrow> 'x \<Rightarrow> 'a"
    and push :: "'x \<Rightarrow> 'q \<Rightarrow> bool \<times> 'q" and pop :: "'q \<Rightarrow> ('a \<times> 'q) option"
  assumes push_room: "inv q \<Longrightarrow> live x \<Longrightarrow> 0 < life q \<Longrightarrow> 0 < room q \<Longrightarrow> push x q = (ok, q') \<Longrightarrow>
      ok \<and> inv q' \<and> items q' = items q @ [entry q x] \<and> Suc (room q') = room q \<and>
      Suc (life q') = life q \<and> entry q' = entry q"
    and push_full: "inv q \<Longrightarrow> room q = 0 \<Longrightarrow> push x q = (ok, q') \<Longrightarrow>
      \<not> ok \<and> inv q' \<and> items q' = items q \<and> room q' = 0 \<and> life q' = life q \<and> entry q' = entry q"
    and pop_empty: "inv q \<Longrightarrow> items q = [] \<Longrightarrow> pop q = None"
    and pop_item: "inv q \<Longrightarrow> items q = a # as \<Longrightarrow>
      \<exists>q'. pop q = Some (a, q') \<and> inv q' \<and> items q' = as \<and> room q' = Suc (room q) \<and>
           life q' = life q \<and> entry q' = entry q"

text \<open>Clients of a queue: pop up to a number of entries, push a list of entries.\<close>

fun pop_upto :: "('q \<Rightarrow> ('a \<times> 'q) option) \<Rightarrow> nat \<Rightarrow> 'q \<Rightarrow> 'a list \<times> 'q" where
  "pop_upto pop 0 q = ([], q)"
| "pop_upto pop (Suc n) q =
     (case pop q of
        None \<Rightarrow> ([], q)
      | Some (a, q') \<Rightarrow> (case pop_upto pop n q' of (as, q'') \<Rightarrow> (a # as, q'')))"

fun push_list :: "('x \<Rightarrow> 'q \<Rightarrow> bool \<times> 'q) \<Rightarrow> 'x list \<Rightarrow> 'q \<Rightarrow> bool list \<times> 'q" where
  "push_list push [] q = ([], q)"
| "push_list push (x # xs) q =
     (case push x q of (ok, q') \<Rightarrow> (case push_list push xs q' of (oks, q'') \<Rightarrow> (ok # oks, q'')))"

context bounded_fifo
begin

lemma pop_upto_items:
  "inv q \<Longrightarrow> \<exists>q'. pop_upto pop n q = (take n (items q), q') \<and> inv q' \<and>
     items q' = drop n (items q) \<and> room q' = room q + min n (length (items q)) \<and>
     life q' = life q \<and> entry q' = entry q"
proof (induction n arbitrary: q)
  case 0
  then show ?case by simp
next
  case (Suc n)
  show ?case
  proof (cases "items q")
    case Nil
    with Suc.prems show ?thesis by (simp add: pop_empty)
  next
    case (Cons a as)
    from pop_item [OF Suc.prems this] obtain q1 where
      q1: "pop q = Some (a, q1)" "inv q1" "items q1 = as" "room q1 = Suc (room q)"
        "life q1 = life q" "entry q1 = entry q" by blast
    from Suc.IH [OF q1(2)] q1 Cons show ?thesis by auto
  qed
qed

lemma push_list_items:
  "inv q \<Longrightarrow> list_all live xs \<Longrightarrow> length xs \<le> life q \<Longrightarrow>
   \<exists>q'. push_list push xs q =
        (replicate (min (room q) (length xs)) True @ replicate (length xs - room q) False, q') \<and>
      inv q' \<and> items q' = items q @ map (entry q) (take (room q) xs) \<and>
      room q' = room q - length xs \<and> entry q' = entry q"
proof (induction xs arbitrary: q)
  case Nil
  then show ?case by simp
next
  case (Cons x xs)
  obtain ok q1 where p: "push x q = (ok, q1)"
    by fastforce
  show ?case
  proof (cases "room q")
    case 0
    from push_full [OF Cons.prems(1) 0 p] Cons.IH [of q1] Cons.prems p 0 show ?thesis
      by auto
  next
    case (Suc r)
    have "ok \<and> inv q1 \<and> items q1 = items q @ [entry q x] \<and> Suc (room q1) = room q \<and>
        Suc (life q1) = life q \<and> entry q1 = entry q"
      using Cons.prems Suc p by (intro push_room) auto
    with Cons.IH [of q1] Cons.prems p Suc show ?thesis
      by auto
  qed
qed

text \<open>What was accepted is delivered in order, and only that.\<close>

lemma push_then_pop:
  assumes "inv q" "list_all live xs" "length xs \<le> life q" "items q = []"
    and "push_list push xs q = (oks, q')"
  shows "fst (pop_upto pop n q') = take n (map (entry q) (take (room q) xs))"
  using push_list_items [OF assms(1-3)] assms(4,5) pop_upto_items [of q' n] by auto

end

section \<open>Streaming hashes\<close>

text \<open>A hash computed piecewise is the hash of the concatenation.\<close>

locale streaming_hash =
  fixes init :: 's and update :: "'s \<Rightarrow> 'a list \<Rightarrow> 's" and final :: "'s \<Rightarrow> 'a list"
    and hash :: "'a list \<Rightarrow> 'a list" and size :: nat
  assumes final_update: "final (foldl update init xs) = hash (concat xs)"
    and length_hash: "length (hash x) = size"
begin

lemma final_two: "final (update (update init x) y) = hash (x @ y)"
  using final_update [of "[x, y]"] by simp

text \<open>The keyed hash of RFC 2104 with padded keys \<open>ik\<close> and \<open>ok\<close>.\<close>

lemma keyed_hash:
  "final (update (update init ok) (final (update (update init ik) x))) = hash (ok @ hash (ik @ x))"
  by (simp add: final_two)

end

section \<open>Bounded tables\<close>

text \<open>
  A table of entries by key with room for \<open>cap\<close> keys. Operations answer \<open>stored\<close>, \<open>full\<close> or
  \<open>missing\<close>; \<open>view\<close> is the content as a map.
\<close>

datatype ('x, 'k) table_op = TInsert 'x | TDelete 'k

fun table_run ::
  "('x \<Rightarrow> 't \<Rightarrow> 'r \<times> 't) \<Rightarrow> ('k \<Rightarrow> 't \<Rightarrow> 'r \<times> 't) \<Rightarrow> ('x, 'k) table_op list \<Rightarrow> 't \<Rightarrow> 'r list \<times> 't" where
  "table_run ins del [] t = ([], t)"
| "table_run ins del (op # ops) t =
     (case (case op of TInsert x \<Rightarrow> ins x t | TDelete k \<Rightarrow> del k t) of
        (r, t') \<Rightarrow> (case table_run ins del ops t' of (rs, t'') \<Rightarrow> (r # rs, t'')))"

definition map_insert ::
  "('x \<Rightarrow> 'k) \<Rightarrow> ('x \<Rightarrow> 'e) \<Rightarrow> nat \<Rightarrow> 'r \<Rightarrow> 'r \<Rightarrow> 'x \<Rightarrow> ('k \<Rightarrow> 'e option) \<Rightarrow> 'r \<times> ('k \<Rightarrow> 'e option)" where
  "map_insert key val cap stored full x m =
     (if key x \<in> dom m \<or> card (dom m) < cap then (stored, m(key x \<mapsto> val x)) else (full, m))"

definition map_delete :: "'r \<Rightarrow> 'r \<Rightarrow> 'k \<Rightarrow> ('k \<Rightarrow> 'e option) \<Rightarrow> 'r \<times> ('k \<Rightarrow> 'e option)" where
  "map_delete stored missing k m = (if k \<in> dom m then (stored, m(k := None)) else (missing, m))"

locale bounded_table =
  fixes inv :: "'t \<Rightarrow> bool" and view :: "'t \<Rightarrow> 'k \<Rightarrow> 'e option"
    and key :: "'x \<Rightarrow> 'k" and val :: "'x \<Rightarrow> 'e" and good :: "'x \<Rightarrow> bool" and cap :: nat
    and stored :: 'r and full :: 'r and missing :: 'r
    and ins :: "'x \<Rightarrow> 't \<Rightarrow> 'r \<times> 't" and del :: "'k \<Rightarrow> 't \<Rightarrow> 'r \<times> 't"
  assumes insert_view: "inv t \<Longrightarrow> good x \<Longrightarrow> ins x t = (r, t') \<Longrightarrow>
      inv t' \<and> map_insert key val cap stored full x (view t) = (r, view t')"
    and delete_view: "inv t \<Longrightarrow> del k t = (r, t') \<Longrightarrow>
      inv t' \<and> map_delete stored missing k (view t) = (r, view t')"
begin

lemma run_view:
  "inv t \<Longrightarrow> \<forall>x. TInsert x \<in> set ops \<longrightarrow> good x \<Longrightarrow> table_run ins del ops t = (rs, t') \<Longrightarrow>
   inv t' \<and> table_run (map_insert key val cap stored full) (map_delete stored missing) ops (view t) = (rs, view t')"
proof (induction ops arbitrary: t rs)
  case (Cons op ops)
  obtain r t1 where r: "(case op of TInsert x \<Rightarrow> ins x t | TDelete k \<Rightarrow> del k t) = (r, t1)"
    by fastforce
  obtain rs1 where rs: "table_run ins del ops t1 = (rs1, t')" "rs = r # rs1"
    using Cons.prems(3) r by (auto split: prod.splits)
  have t1: "inv t1" and m: "(case op of TInsert x \<Rightarrow> map_insert key val cap stored full x (view t)
     | TDelete k \<Rightarrow> map_delete stored missing k (view t)) = (r, view t1)"
  proof (atomize (full), cases op)
    case (TInsert x)
    then show "inv t1 \<and> (case op of TInsert x \<Rightarrow> map_insert key val cap stored full x (view t)
       | TDelete k \<Rightarrow> map_delete stored missing k (view t)) = (r, view t1)"
      using r insert_view [OF Cons.prems(1), of x r t1] Cons.prems(2) by simp
  next
    case (TDelete k)
    then show "inv t1 \<and> (case op of TInsert x \<Rightarrow> map_insert key val cap stored full x (view t)
       | TDelete k \<Rightarrow> map_delete stored missing k (view t)) = (r, view t1)"
      using r delete_view [OF Cons.prems(1), of k r t1] by simp
  qed
  have "\<forall>x. TInsert x \<in> set ops \<longrightarrow> good x"
    using Cons.prems(2) by simp
  from Cons.IH [OF t1 this rs(1)] show ?case
    by (simp add: m rs(2))
qed simp

text \<open>An entry that is removed again leaves the other entries as they were.\<close>

lemma insert_delete:
  assumes "inv t" "good x" "key x \<notin> dom (view t)" "ins x t = (stored, t1)" "del (key x) t1 = (r, t2)"
    and "stored \<noteq> full"
  shows "r = stored \<and> view t2 = view t"
proof -
  have 1: "inv t1" "view t1 = (view t)(key x \<mapsto> val x)"
    using insert_view [OF assms(1,2,4)] assms(6) by (auto simp: map_insert_def split: if_splits)
  have "view t (key x) = None"
    using assms(3) by (simp add: domIff)
  then have "(view t)(key x := None) = view t"
    by (simp add: fun_upd_idem_iff)
  then show ?thesis
    using delete_view [OF 1(1) assms(5)] by (simp add: map_delete_def 1(2))
qed

end

end
