(* ===== verification/Shm_Strings.thy ===== *)
theory Shm_Strings
  imports Shmfx_Prelude
begin

text \<open>
  The operations on strings and characters the sources use from the C++ library: searching,
  substrings, character classes, numbers.
\<close>

section \<open>Searching\<close>

text \<open>What the source uses of \<^verbatim>\<open>std::string_view\<close>; a position past the end does not occur.\<close>

definition sv_find :: "char \<Rightarrow> nat \<Rightarrow> string \<Rightarrow> nat option" where
  "sv_find c pos s =
     (if c \<in> set (drop pos s) then Some (pos + length (takeWhile (\<lambda>x. x \<noteq> c) (drop pos s))) else None)"

definition sv_substr :: "nat \<Rightarrow> nat \<Rightarrow> string \<Rightarrow> string" where
  "sv_substr pos n s = take n (drop pos s)"

definition char_between :: "char \<Rightarrow> char \<Rightarrow> char \<Rightarrow> bool" where
  "char_between lo hi c \<longleftrightarrow> (of_char lo :: nat) \<le> of_char c \<and> (of_char c :: nat) \<le> of_char hi"

definition sv_rfind :: "char \<Rightarrow> string \<Rightarrow> nat option" where
  "sv_rfind c s =
     (if c \<in> set s then Some (length s - 1 - length (takeWhile (\<lambda>x. x \<noteq> c) (rev s))) else None)"

fun sv_contains :: "string \<Rightarrow> string \<Rightarrow> bool" where
  "sv_contains t [] = (t = [])"
| "sv_contains t (c # s) = (take (length t) (c # s) = t \<or> sv_contains t s)"

definition is_space :: "char \<Rightarrow> bool" where
  "is_space c \<longleftrightarrow> c = CHR '' '' \<or> char_between CHR 0x09 CHR 0x0D c"

definition is_digit :: "char \<Rightarrow> bool" where
  "is_digit c \<longleftrightarrow> char_between CHR ''0'' CHR ''9'' c"

section \<open>Numbers\<close>

definition digits_value :: "string \<Rightarrow> nat" where
  "digits_value ds = foldl (\<lambda>n c. 10 * n + (of_char c - 48)) 0 ds"

text \<open>
  \<^verbatim>\<open>std::stoull\<close>: leading white space and a sign are skipped, the longest run of digits is
  converted; \<open>None\<close> is an exception, for no digits or for a value of more than 64 bits.
\<close>

definition stoull :: "string \<Rightarrow> u64 option" where
  "stoull s =
     (let s1 = dropWhile is_space s;
          neg = (s1 \<noteq> [] \<and> hd s1 = CHR ''-'');
          s2 = (if s1 \<noteq> [] \<and> (hd s1 = CHR ''-'' \<or> hd s1 = CHR ''+'') then tl s1 else s1);
          ds = takeWhile is_digit s2
      in if ds = [] \<or> 2 ^ 64 \<le> digits_value ds then None
         else Some (if neg then - of_nat (digits_value ds) else of_nat (digits_value ds)))"

section \<open>Laws\<close>

lemma takeWhile_until:
  "c \<notin> set xs \<Longrightarrow> takeWhile (\<lambda>x. x \<noteq> c) (xs @ c # ys) = xs"
  by (induction xs) auto

lemma sv_find_Some:
  assumes "sv_find c pos s = Some i" "pos \<le> length s"
  shows "\<exists>a b. s = take pos s @ a @ c # b \<and> c \<notin> set a \<and> i = pos + length a"
proof -
  have c: "c \<in> set (drop pos s)" and i: "i = pos + length (takeWhile (\<lambda>x. x \<noteq> c) (drop pos s))"
    using assms(1) by (auto simp: sv_find_def split: if_splits)
  obtain b where "dropWhile (\<lambda>x. x \<noteq> c) (drop pos s) = c # b"
    using c by (metis (mono_tags, lifting) dropWhile_eq_Nil_conv hd_dropWhile list.exhaust_sel)
  then have "drop pos s = takeWhile (\<lambda>x. x \<noteq> c) (drop pos s) @ c # b"
    by (metis takeWhile_dropWhile_id)
  moreover have "c \<notin> set (takeWhile (\<lambda>x. x \<noteq> c) (drop pos s))"
    by (auto dest: set_takeWhileD)
  ultimately show ?thesis
    using i by (metis append_take_drop_id)
qed

lemma sv_rfind_last:
  "c \<notin> set ys \<Longrightarrow> sv_rfind c (xs @ c # ys) = Some (length xs)"
  using takeWhile_until [of c "rev ys" "rev xs"] by (simp add: sv_rfind_def)

lemma sv_rfind_None: "sv_rfind c s = None \<longleftrightarrow> c \<notin> set s"
  by (simp add: sv_rfind_def)

lemma sv_contains_iff: "sv_contains t s \<longleftrightarrow> (\<exists>a b. s = a @ t @ b)"
proof (induction s)
  case (Cons c s)
  have "take (length t) (c # s) = t \<longleftrightarrow> (\<exists>b. c # s = t @ b)"
    by (metis append_eq_conv_conj append_take_drop_id)
  then show ?case
    using Cons by (auto simp: Cons_eq_append_conv)
qed simp

lemma stoull_digits:
  assumes "ds \<noteq> []" "list_all is_digit ds" "rest = [] \<or> \<not> is_digit (hd rest)" "digits_value ds < 2 ^ 64"
  shows "stoull (ds @ rest) = Some (of_nat (digits_value ds))"
proof -
  obtain d ds' where ds: "ds = d # ds'"
    using assms(1) by (cases ds) auto
  have "is_digit d"
    using assms(2) ds by simp
  then have d: "\<not> is_space d" "d \<noteq> CHR ''-''" "d \<noteq> CHR ''+''"
    by (auto simp: is_digit_def is_space_def char_between_def)
  have "takeWhile is_digit (ds @ rest) = ds"
    using assms(2,3) by (cases rest) (auto simp: list_all_iff takeWhile_append2)
  then show ?thesis
    using assms(1,4) d by (simp add: stoull_def ds)
qed

end
