(* ===== verification/Shm_Security.thy ===== *)
theory Shm_Security
  imports Shm_Sha256 Shm_Header Shm_Interfaces Shm_Strings
begin

text \<open>
  \<^verbatim>\<open>src/shm_security.cpp\<close>: the names of segments, the limits on their creation, the key, and the
  message authentication code over the immutable block of the header. The environment variable and
  the content of the key file are inputs, and so is the result of the permission call.
\<close>

unbundle bit_operations_syntax

section \<open>Names\<close>

definition kAllowedNamespaces :: "string list" where
  "kAllowedNamespaces = [''log'', ''tlm'', ''kv'', ''app'', ''sys'']"

definition kMaxNamespaceSegments :: u32 where
  "kMaxNamespaceSegments = 1024"

definition is_name_tail_char :: "char \<Rightarrow> bool" where
  "is_name_tail_char c \<longleftrightarrow>
     char_between CHR ''a'' CHR ''z'' c \<or> char_between CHR ''0'' CHR ''9'' c \<or> c = CHR ''_'' \<or> c = CHR ''-''"

definition namespace_allowed :: "string \<Rightarrow> bool" where
  "namespace_allowed ns \<longleftrightarrow> ns \<in> set kAllowedNamespaces"

record ParsedName =
  pn_ns :: string
  pn_leaf :: string
  pn_bootstrap :: bool

definition name_prefix :: string where
  "name_prefix = ''/shmfx.''"

definition parse_and_validate_name :: "string \<Rightarrow> ParsedName Result" where
  "parse_and_validate_name name =
     (if name = REGISTRY_NAME \<or> name = REGISTRY_LOCK_NAME
      then Inr \<lparr>pn_ns = [], pn_leaf = name, pn_bootstrap = True\<rparr>
      else if SHMFX_NAME_BYTES \<le> length name \<or> sv_substr 0 (length name_prefix) name \<noteq> name_prefix
      then Inl InvalidName
      else case sv_find CHR ''.'' (length name_prefix) name of
             None \<Rightarrow> Inl InvalidName
           | Some dot \<Rightarrow>
               let ns = sv_substr (length name_prefix) (dot - length name_prefix) name;
                   leaf = drop (dot + 1) name
               in if length ns < 2 \<or> 15 < length ns \<or> leaf = [] \<or> 39 < length leaf then Inl InvalidName
                  else if \<not> char_between CHR ''a'' CHR ''z'' (hd ns) \<or>
                          \<not> char_between CHR ''a'' CHR ''z'' (hd leaf) then Inl InvalidName
                  else if \<not> list_all is_name_tail_char (tl ns) \<or>
                          \<not> list_all is_name_tail_char (tl leaf) then Inl InvalidName
                  else if \<not> namespace_allowed ns then Inl PermissionDenied
                  else Inr \<lparr>pn_ns = ns, pn_leaf = leaf, pn_bootstrap = False\<rparr>)"

section \<open>Creation limits\<close>

definition namespace_count_step :: "ParsedName \<Rightarrow> RegistryEntry \<Rightarrow> u64 \<times> u32 \<Rightarrow> u64 \<times> u32" where
  "namespace_count_step parsed entry acc =
     (case acc of (total_bytes, namespace_count) \<Rightarrow>
        (total_bytes + re_total_size entry,
         if \<not> pn_bootstrap parsed \<and>
            sv_substr 0 (7 + length (pn_ns parsed)) (fixed_name_view (re_name entry)) =
              ''/shmfx.'' @ pn_ns parsed
         then namespace_count + 1 else namespace_count))"

definition validate_create_security :: "CreateOptions \<Rightarrow> RegistryEntry list \<Rightarrow> VoidResult" where
  "validate_create_security options existing_entries =
     (case parse_and_validate_name (co_name options) of
        Inl e \<Rightarrow> e
      | Inr parsed \<Rightarrow>
          if co_total_size options < SHMFX_HEADER_SIZE + co_meta_size options \<or>
             MAX_SEGMENT_SIZE < co_total_size options
          then QuotaExceeded
          else case fold (namespace_count_step parsed) existing_entries (co_total_size options, 0) of
                 (total_bytes, namespace_count) \<Rightarrow>
                   if TOTAL_QUOTA_BYTES < total_bytes \<or> kMaxNamespaceSegments \<le> namespace_count
                   then QuotaExceeded else Ok)"

text \<open>The system call's result is an input.\<close>

definition apply_permissions :: "int \<Rightarrow> VoidResult" where
  "apply_permissions fchmod_rc = (if fchmod_rc \<noteq> 0 then PermissionDenied else Ok)"

section \<open>Keys\<close>

definition hex_value :: "char \<Rightarrow> int" where
  "hex_value c =
     (if char_between CHR ''0'' CHR ''9'' c then of_char c - of_char CHR ''0''
      else if char_between CHR ''a'' CHR ''f'' c then of_char c - of_char CHR ''a'' + 10
      else if char_between CHR ''A'' CHR ''F'' c then of_char c - of_char CHR ''A'' + 10
      else - 1)"

fun parse_hex_pairs :: "string \<Rightarrow> u8 list option" where
  "parse_hex_pairs (a # b # rest) =
     (let hi = hex_value a; lo = hex_value b
      in if hi < 0 \<or> lo < 0 then None
         else map_option ((#) (of_int (push_bit 4 hi OR lo))) (parse_hex_pairs rest))"
| "parse_hex_pairs _ = Some []"

definition parse_hex_key :: "string \<Rightarrow> u8 list option" where
  "parse_hex_key hex = (if length hex \<noteq> SHMFX_HMAC_BYTES * 2 then None else parse_hex_pairs hex)"

text \<open>Where the key comes from: the environment variable and the content of the key file.\<close>

record key_source =
  ks_env :: "string option"
  ks_file :: "string option"

definition load_hmac_key :: "key_source \<Rightarrow> u8 list option" where
  "load_hmac_key ks =
     (case ks_env ks of
        Some env \<Rightarrow> parse_hex_key env
      | None \<Rightarrow>
          (case ks_file ks of
             None \<Rightarrow> None
           | Some content \<Rightarrow> parse_hex_key (takeWhile (Not \<circ> is_space) (dropWhile is_space content))))"

section \<open>Signatures\<close>

definition hmac_sha256 :: "u8 list \<Rightarrow> u8 list \<Rightarrow> u8 list" where
  "hmac_sha256 key data =
     (let b = (\<lambda>i. if i < length key then key ! i else 0);
          ipad = map (\<lambda>i. b i XOR 0x36) [0..<kSha256BlockBytes];
          opad = map (\<lambda>i. b i XOR 0x5c) [0..<kSha256BlockBytes];
          inner = sha256_update (sha256_update (sha256_init sha256_zero) ipad) data;
          inner_digest = sha256_final inner;
          outer = sha256_update (sha256_update (sha256_init sha256_zero) opad) inner_digest
      in sha256_final outer)"

definition has_hmac_bytes :: "ShmHeader \<Rightarrow> bool" where
  "has_hmac_bytes header \<longleftrightarrow> list_ex (\<lambda>b. b \<noteq> 0) (h_hmac header)"

definition digest_equal :: "u8 list \<Rightarrow> u8 list \<Rightarrow> bool" where
  "digest_equal lhs rhs \<longleftrightarrow> fold (\<lambda>i diff. diff OR (lhs ! i XOR rhs ! i)) [0..<length rhs] 0 = 0"

definition sign_header_if_enabled :: "key_source \<Rightarrow> ShmHeader \<Rightarrow> VoidResult \<times> ShmHeader" where
  "sign_header_if_enabled ks header =
     (if h_flags header AND HmacEnabled = 0
      then (Ok, header\<lparr>h_hmac := replicate SHMFX_HMAC_BYTES 0\<rparr>)
      else case load_hmac_key ks of
             None \<Rightarrow> (PermissionDenied, header)
           | Some key \<Rightarrow>
               let header0 = header\<lparr>h_hmac := replicate SHMFX_HMAC_BYTES 0\<rparr>
               in (Ok, header0\<lparr>h_hmac := hmac_sha256 key (immutable_bytes header0)\<rparr>))"

definition verify_header_hmac :: "key_source \<Rightarrow> ShmHeader \<Rightarrow> VoidResult" where
  "verify_header_hmac ks header =
     (if h_flags header AND HmacEnabled = 0 \<and> \<not> has_hmac_bytes header then Ok
      else case load_hmac_key ks of
             None \<Rightarrow> PermissionDenied
           | Some key \<Rightarrow>
               if \<not> digest_equal (h_hmac header) (hmac_sha256 key (immutable_bytes header))
               then CorruptedHeader else Ok)"

section \<open>The name grammar\<close>

text \<open>
  What \<^verbatim>\<open>/shmfx.<namespace>.<name>\<close> means: a lower-case letter, then letters, digits, underscores
  and hyphens.
\<close>

definition name_part :: "nat \<Rightarrow> nat \<Rightarrow> string \<Rightarrow> bool" where
  "name_part lo hi s \<longleftrightarrow> lo \<le> length s \<and> length s \<le> hi \<and> s \<noteq> [] \<and>
     char_between CHR ''a'' CHR ''z'' (hd s) \<and> list_all is_name_tail_char (tl s)"

lemma tail_char_no_dot: "is_name_tail_char c \<Longrightarrow> c \<noteq> CHR ''.'' \<and> c \<noteq> NUL \<and> c \<noteq> CHR ''/''"
  by (auto simp: is_name_tail_char_def char_between_def)

lemma name_part_chars:
  assumes "name_part lo hi s" "c \<in> set s"
  shows "c \<noteq> CHR ''.'' \<and> c \<noteq> NUL \<and> c \<noteq> CHR ''/''"
proof -
  have "is_name_tail_char (hd s)"
    using assms(1) by (simp add: name_part_def is_name_tail_char_def)
  moreover have "set s = insert (hd s) (set (tl s))"
    using assms(2) by (cases s) auto
  ultimately have "is_name_tail_char c"
    using assms by (auto simp: name_part_def list_all_iff)
  then show ?thesis
    by (rule tail_char_no_dot)
qed

lemma sv_find_dot:
  "CHR ''.'' \<notin> set ns \<Longrightarrow> sv_find CHR ''.'' (length p) (p @ ns @ CHR ''.'' # leaf) = Some (length p + length ns)"
  by (simp add: sv_find_def takeWhile_until)

lemma dotted_not_registry: "name_prefix @ ns @ CHR ''.'' # leaf \<noteq> REGISTRY_NAME"
proof
  assume "name_prefix @ ns @ CHR ''.'' # leaf = REGISTRY_NAME"
  then have "ns @ CHR ''.'' # leaf = ''registry''"
    by (simp add: name_prefix_def shm_consts)
  then have "CHR ''.'' \<in> set ''registry''"
    by (metis in_set_conv_decomp)
  then show False
    by simp
qed

lemma parse_dotted:
  assumes "CHR ''.'' \<notin> set ns" "length ns + length leaf < 56"
    and "name = name_prefix @ ns @ CHR ''.'' # leaf" "name \<noteq> REGISTRY_LOCK_NAME"
  shows "parse_and_validate_name name =
    (if name_part 2 15 ns \<and> name_part 1 39 leaf
     then if namespace_allowed ns then Inr \<lparr>pn_ns = ns, pn_leaf = leaf, pn_bootstrap = False\<rparr>
          else Inl PermissionDenied
     else Inl InvalidName)"
proof -
  have len: "length name_prefix = 7"
    by (simp add: name_prefix_def)
  have "\<not> SHMFX_NAME_BYTES \<le> length name" "sv_substr 0 (length name_prefix) name = name_prefix"
    using assms(2,3) by (simp_all add: sv_substr_def shm_consts len)
  moreover have "sv_find CHR ''.'' (length name_prefix) name = Some (length name_prefix + length ns)"
    using sv_find_dot [OF assms(1)] assms(3) by simp
  moreover have "sv_substr (length name_prefix) (length name_prefix + length ns - length name_prefix) name = ns"
      "drop (length name_prefix + length ns + 1) name = leaf"
    using assms(3) by (simp_all add: sv_substr_def)
  moreover have "name \<noteq> REGISTRY_NAME"
    using assms(3) dotted_not_registry by simp
  ultimately show ?thesis
    unfolding parse_and_validate_name_def using assms(4)
    by (auto simp: name_part_def Let_def)
qed

lemma parse_undotted:
  assumes "name \<noteq> REGISTRY_NAME" "name \<noteq> REGISTRY_LOCK_NAME"
    and "\<And>ns leaf. CHR ''.'' \<notin> set ns \<Longrightarrow> length ns + length leaf < 56 \<Longrightarrow>
      name \<noteq> name_prefix @ ns @ CHR ''.'' # leaf"
  shows "parse_and_validate_name name = Inl InvalidName"
proof (cases "SHMFX_NAME_BYTES \<le> length name \<or> sv_substr 0 (length name_prefix) name \<noteq> name_prefix")
  case True
  then show ?thesis
    using assms(1,2) by (simp add: parse_and_validate_name_def)
next
  case False
  then have pre: "take (length name_prefix) name = name_prefix" and len: "length name < 64"
    by (simp_all add: sv_substr_def shm_consts)
  then have le: "length name_prefix \<le> length name"
    by (metis length_take min.cobounded1)
  have "sv_find CHR ''.'' (length name_prefix) name = None"
  proof (rule ccontr)
    assume "sv_find CHR ''.'' (length name_prefix) name \<noteq> None"
    then obtain i where "sv_find CHR ''.'' (length name_prefix) name = Some i"
      by blast
    from sv_find_Some [OF this le] pre obtain a b where
      n: "name = name_prefix @ a @ CHR ''.'' # b" "CHR ''.'' \<notin> set a"
      by auto
    moreover have "length a + length b < 56"
      using len n(1) by (simp add: name_prefix_def)
    ultimately show False
      using assms(3) by blast
  qed
  then show ?thesis
    using assms(1,2) by (simp add: parse_and_validate_name_def)
qed

lemma namespaces_part: "ns \<in> set kAllowedNamespaces \<Longrightarrow> name_part 2 15 ns"
  by (auto simp: kAllowedNamespaces_def name_part_def is_name_tail_char_def char_between_def)

lemma namespaces_not_lock:
  "ns \<in> set kAllowedNamespaces \<Longrightarrow> name_prefix @ ns @ rest \<noteq> REGISTRY_LOCK_NAME"
  by (auto simp: kAllowedNamespaces_def name_prefix_def shm_consts)

lemma parse_accepts:
  assumes "parse_and_validate_name name = Inr p"
  shows "(name = REGISTRY_NAME \<or> name = REGISTRY_LOCK_NAME) \<and>
      p = \<lparr>pn_ns = [], pn_leaf = name, pn_bootstrap = True\<rparr> \<or>
    pn_ns p \<in> set kAllowedNamespaces \<and> name_part 1 39 (pn_leaf p) \<and> \<not> pn_bootstrap p \<and>
      name = name_prefix @ pn_ns p @ CHR ''.'' # pn_leaf p"
proof (cases "name = REGISTRY_NAME \<or> name = REGISTRY_LOCK_NAME")
  case True
  then show ?thesis
    using assms by (auto simp: parse_and_validate_name_def)
next
  case False
  then obtain ns leaf where n: "CHR ''.'' \<notin> set ns" "length ns + length leaf < 56"
      "name = name_prefix @ ns @ CHR ''.'' # leaf"
    using parse_undotted [of name] assms by fastforce
  have "namespace_allowed ns \<and> name_part 1 39 leaf \<and> p = \<lparr>pn_ns = ns, pn_leaf = leaf, pn_bootstrap = False\<rparr>"
    using assms False parse_dotted [OF n] by (auto split: if_splits)
  then show ?thesis
    by (simp add: n(3) namespace_allowed_def)
qed

lemma parse_namespaced:
  assumes "ns \<in> set kAllowedNamespaces" "name_part 1 39 leaf"
  shows "parse_and_validate_name (name_prefix @ ns @ CHR ''.'' # leaf) =
    Inr \<lparr>pn_ns = ns, pn_leaf = leaf, pn_bootstrap = False\<rparr>"
proof -
  note part = namespaces_part [OF assms(1)]
  have "CHR ''.'' \<notin> set ns" "length ns + length leaf < 56"
    using name_part_chars [OF part] part assms(2) by (auto simp: name_part_def)
  then show ?thesis
    using parse_dotted [OF _ _ refl namespaces_not_lock [OF assms(1)]] part assms
    by (simp add: namespace_allowed_def)
qed

text \<open>An accepted name fits the fixed buffers and is a single path component.\<close>

lemma parse_name_fits:
  assumes "parse_and_validate_name name = Inr p"
  shows "length name < SHMFX_NAME_BYTES" "NUL \<notin> set name" "name \<noteq> []"
    "hd name = CHR ''/''" "CHR ''/'' \<notin> set (tl name)"
proof -
  consider "name = REGISTRY_NAME" | "name = REGISTRY_LOCK_NAME" |
    ns leaf where "name_part 2 15 ns" "name_part 1 39 leaf" "name = name_prefix @ ns @ CHR ''.'' # leaf"
    using parse_accepts [OF assms] namespaces_part by blast
  then have "length name < SHMFX_NAME_BYTES \<and> NUL \<notin> set name \<and> name \<noteq> [] \<and>
    hd name = CHR ''/'' \<and> CHR ''/'' \<notin> set (tl name)"
  proof cases
    case 3
    then show ?thesis
      using name_part_chars [OF 3(1)] name_part_chars [OF 3(2)]
      by (auto simp: name_prefix_def name_part_def shm_consts)
  qed (simp_all add: shm_consts)
  then show "length name < SHMFX_NAME_BYTES" "NUL \<notin> set name" "name \<noteq> []"
    "hd name = CHR ''/''" "CHR ''/'' \<notin> set (tl name)"
    by auto
qed

section \<open>Signatures\<close>

lemma length_fips_blocks: "length hs = 8 \<Longrightarrow> length (fips_blocks hs msg) = 8"
proof (induction hs msg rule: fips_blocks.induct)
  case (1 hs msg)
  then show ?case
    by (subst fips_blocks.simps) (simp flip: compress_fips)
qed

lemma length_store_be32s: "length (concat (map store_be32 hs)) = 4 * length hs"
  by (induction hs) (simp_all add: store_be32_def)

lemma length_fips_sha256: "length (fips_sha256 msg) = SHMFX_HMAC_BYTES"
  by (simp add: fips_sha256_def length_store_be32s length_fips_blocks fips_H0_def shm_consts)

lemma absorbed_parts: "absorbed st d \<Longrightarrow> absorbed (foldl sha256_update st xs) (d @ concat xs)"
proof (induction xs arbitrary: st d)
  case (Cons x xs)
  from Cons.IH [OF absorbed_update [OF Cons.prems]] show ?case by simp
qed simp

interpretation sha256_stream:
  streaming_hash "sha256_init sha256_zero" sha256_update sha256_final fips_sha256 SHMFX_HMAC_BYTES
proof
  have "absorbed (sha256_init sha256_zero) []"
    by (rule absorbed_init) (simp add: sha256_zero_def)
  then show "sha256_final (foldl sha256_update (sha256_init sha256_zero) xs) = fips_sha256 (concat xs)" for xs
    using absorbed_parts [of _ "[]" xs] by (simp add: sha256_final_fips)
qed (rule length_fips_sha256)

definition rfc2104 :: "(u8 list \<Rightarrow> u8 list) \<Rightarrow> nat \<Rightarrow> u8 list \<Rightarrow> u8 list \<Rightarrow> u8 list" where
  "rfc2104 H B key data =
     (let K = key @ replicate (B - length key) 0
      in H (map (\<lambda>b. b XOR 0x5c) K @ H (map (\<lambda>b. b XOR 0x36) K @ data)))"

lemma hmac_sha256_rfc2104:
  assumes "length key \<le> 64"
  shows "hmac_sha256 key data = rfc2104 fips_sha256 64 key data"
proof -
  have "map (\<lambda>i. (if i < length key then key ! i else 0) XOR c) [0..<64] =
      map (\<lambda>b. b XOR c) (key @ replicate (64 - length key) 0)" for c :: u8
    using assms by (intro nth_equalityI) (simp_all add: nth_append)
  then show ?thesis
    unfolding hmac_sha256_def rfc2104_def Let_def kSha256BlockBytes_def
    by (simp only: sha256_stream.keyed_hash)
qed

lemma length_hmac: "length (hmac_sha256 key data) = SHMFX_HMAC_BYTES"
  unfolding hmac_sha256_def Let_def sha256_stream.keyed_hash by (rule length_fips_sha256)

lemma or_zero_iff: "(a :: u8) OR b = 0 \<longleftrightarrow> a = 0 \<and> b = 0"
  by (simp add: bit_eq_iff bit_simps) blast

lemma xor_zero_iff: "(a :: u8) XOR b = 0 \<longleftrightarrow> a = b"
  by (simp add: bit_eq_iff bit_simps)

lemma digest_fold:
  "fold (\<lambda>i diff. diff OR (lhs ! i XOR rhs ! i)) [0..<n] (d :: u8) = 0 \<longleftrightarrow>
     d = 0 \<and> (\<forall>i<n. lhs ! i = rhs ! i)"
  by (induction n) (auto simp: or_zero_iff xor_zero_iff less_Suc_eq)

lemma digest_equal_iff:
  "length lhs = length rhs \<Longrightarrow> digest_equal lhs rhs \<longleftrightarrow> lhs = rhs"
  unfolding digest_equal_def digest_fold by (metis nth_equalityI)

lemma parse_hex_pairs_length:
  "parse_hex_pairs s = Some k \<Longrightarrow> length k = length s div 2"
  by (induction s arbitrary: k rule: parse_hex_pairs.induct) (auto simp: Let_def split: if_splits)

lemma length_key: "load_hmac_key ks = Some key \<Longrightarrow> length key = SHMFX_HMAC_BYTES"
  by (auto simp: load_hmac_key_def parse_hex_key_def shm_consts dest!: parse_hex_pairs_length
      split: option.splits if_splits)

lemma immutable_bytes_hmac [simp]: "immutable_bytes (h\<lparr>h_hmac := x\<rparr>) = immutable_bytes h"
  by (simp add: immutable_bytes_def)

text \<open>The condition under which the header must carry a correct code.\<close>

definition must_sign :: "ShmHeader \<Rightarrow> bool" where
  "must_sign h \<longleftrightarrow> h_flags h AND HmacEnabled \<noteq> 0 \<or> has_hmac_bytes h"

lemma verify_iff:
  assumes "length (h_hmac h) = SHMFX_HMAC_BYTES"
  shows "verify_header_hmac ks h = Ok \<longleftrightarrow>
    (must_sign h \<longrightarrow> (\<exists>key. load_hmac_key ks = Some key \<and> h_hmac h = hmac_sha256 key (immutable_bytes h)))"
  using assms by (auto simp: verify_header_hmac_def must_sign_def digest_equal_iff length_hmac
      split: option.splits)

lemma verify_same_immutable:
  assumes "same_immutable h h'" "h_hmac h = h_hmac h'"
  shows "verify_header_hmac ks h = verify_header_hmac ks h'"
proof -
  have "immutable_bytes h = immutable_bytes h'" "h_flags h = h_flags h'"
    using assms(1) immutable_bytes_inj by (blast, simp add: same_immutable_def)
  then show ?thesis
    by (simp only: verify_header_hmac_def has_hmac_bytes_def assms(2))
qed

lemma sign_header_cases:
  assumes "sign_header_if_enabled ks h = (Ok, h')"
  shows "h' = h\<lparr>h_hmac := h_hmac h'\<rparr>" "length (h_hmac h') = SHMFX_HMAC_BYTES" "verify_header_hmac ks h' = Ok"
proof -
  show c: "h' = h\<lparr>h_hmac := h_hmac h'\<rparr>" "length (h_hmac h') = SHMFX_HMAC_BYTES"
    using assms by (auto simp: sign_header_if_enabled_def Let_def length_hmac split: if_splits option.splits)
  show "verify_header_hmac ks h' = Ok"
    using assms verify_iff [OF c(2), of ks]
    by (auto simp: sign_header_if_enabled_def must_sign_def has_hmac_bytes_def Let_def list_ex_iff
        split: if_splits option.splits)
qed

section \<open>Quotas\<close>

definition in_namespace :: "ParsedName \<Rightarrow> RegistryEntry \<Rightarrow> bool" where
  "in_namespace p e \<longleftrightarrow> \<not> pn_bootstrap p \<and>
     take (7 + length (pn_ns p)) (fixed_name_view (re_name e)) = ''/shmfx.'' @ pn_ns p"

lemma quota_fold:
  "fold (namespace_count_step p) es (t, c) =
     (t + of_nat (sum_list (map (unat \<circ> re_total_size) es)),
      c + of_nat (length (filter (in_namespace p) es)))"
  by (induction es arbitrary: t c)
    (simp_all add: namespace_count_step_def in_namespace_def sv_substr_def algebra_simps)

lemma validate_create_exact:
  assumes p: "parse_and_validate_name (co_name opts) = Inr p"
    and meta: "256 + unat (co_meta_size opts) < 2 ^ 64"
    and total: "unat (co_total_size opts) + sum_list (map (unat \<circ> re_total_size) es) < 2 ^ 64"
    and len: "length es < 2 ^ 32"
  shows "validate_create_security opts es =
    (if 256 + unat (co_meta_size opts) \<le> unat (co_total_size opts) \<and>
        unat (co_total_size opts) \<le> 2 ^ 30 \<and>
        unat (co_total_size opts) + sum_list (map (unat \<circ> re_total_size) es) \<le> 2 ^ 32 \<and>
        length (filter (in_namespace p) es) < 1024
     then Ok else QuotaExceeded)"
proof -
  let ?sum = "sum_list (map (unat \<circ> re_total_size) es)" and ?n = "length (filter (in_namespace p) es)"
  have h: "unat (SHMFX_HEADER_SIZE + co_meta_size opts) = 256 + unat (co_meta_size opts)"
    using meta by (subst unat_add_64) (simp_all add: shm_consts)
  have t: "unat (co_total_size opts + of_nat ?sum) = unat (co_total_size opts) + ?sum"
    using total by (subst unat_add_64) (simp_all add: unat_of_nat_64)
  have "?n < 2 ^ 32"
    using len le_less_trans [OF length_filter_le] by blast
  then have c: "unat (of_nat ?n :: u32) = ?n"
    by (simp add: unat_of_nat_32)
  have "(co_total_size opts < SHMFX_HEADER_SIZE + co_meta_size opts) =
      (unat (co_total_size opts) < 256 + unat (co_meta_size opts))"
    unfolding word_less_nat_alt h ..
  moreover have "(MAX_SEGMENT_SIZE < co_total_size opts) = (2 ^ 30 < unat (co_total_size opts))"
    unfolding word_less_nat_alt by (simp add: shm_consts)
  moreover have "(TOTAL_QUOTA_BYTES < co_total_size opts + of_nat ?sum) =
      (2 ^ 32 < unat (co_total_size opts) + ?sum)"
    unfolding word_less_nat_alt t by (simp add: shm_consts)
  moreover have "(kMaxNamespaceSegments \<le> 0 + of_nat ?n) = (1024 \<le> ?n)"
    unfolding word_le_nat_alt add_0 c by (simp add: kMaxNamespaceSegments_def)
  ultimately show ?thesis
    unfolding validate_create_security_def p sum.case quota_fold prod.case by auto
qed

section \<open>Keys in hexadecimal\<close>

definition hex_digit :: "nat \<Rightarrow> char" where
  "hex_digit n = ''0123456789abcdef'' ! n"

definition hex_encode :: "u8 list \<Rightarrow> string" where
  "hex_encode bs = concat (map (\<lambda>b. [hex_digit (unat b div 16), hex_digit (unat b mod 16)]) bs)"

lemma hex_value_digits: "list_all (\<lambda>n. hex_value (hex_digit n) = int n) [0..<16]"
  by code_simp

lemma hex_value_digit: "n < 16 \<Longrightarrow> hex_value (hex_digit n) = int n"
  using hex_value_digits by (simp only: list_all_iff set_upt atLeastLessThan_iff) simp

lemma nibbles: "of_int (push_bit 4 (int (unat b div 16)) OR int (unat b mod 16)) = (b :: u8)"
proof -
  have "push_bit 4 (drop_bit 4 (unat b)) OR take_bit 4 (unat b) = unat b"
    by (rule bit_eqI) (auto simp: bit_simps)
  moreover have "unat b div 16 = drop_bit 4 (unat b)" "unat b mod 16 = take_bit 4 (unat b)"
    by (simp_all add: drop_bit_eq_div take_bit_eq_mod)
  ultimately have "push_bit 4 (int (unat b div 16)) OR int (unat b mod 16) = int (unat b)"
    by (metis of_nat_or_eq push_bit_of_nat)
  then show ?thesis
    by simp
qed

lemma parse_hex_encode: "parse_hex_pairs (hex_encode bs) = Some bs"
proof (induction bs)
  case (Cons b bs)
  have "unat b < 256"
    using unat_lt_8 [of b] by simp
  then have "hex_value (hex_digit (unat b div 16)) = int (unat b div 16)"
      "hex_value (hex_digit (unat b mod 16)) = int (unat b mod 16)"
    by (simp_all add: hex_value_digit less_mult_imp_div_less)
  then show ?case
    using Cons nibbles [of b] by (simp add: hex_encode_def Let_def)
qed (simp add: hex_encode_def)

lemma hex_encode_chars: "c \<in> set (hex_encode bs) \<Longrightarrow> \<exists>n<16. c = hex_digit n"
proof (induction bs)
  case (Cons b bs)
  have "unat b div 16 < 16"
    using unat_lt_8 [of b] by (simp add: less_mult_imp_div_less)
  moreover have "unat b mod 16 < 16"
    by simp
  moreover have "c = hex_digit (unat b div 16) \<or> c = hex_digit (unat b mod 16) \<or> c \<in> set (hex_encode bs)"
    using Cons.prems by (simp add: hex_encode_def)
  ultimately show ?case
    using Cons.IH by blast
qed (simp add: hex_encode_def)

lemma hex_digits_no_space: "list_all (\<lambda>n. \<not> is_space (hex_digit n)) [0..<16]"
  by code_simp

lemma hex_digit_no_space: "n < 16 \<Longrightarrow> \<not> is_space (hex_digit n)"
  using hex_digits_no_space by (simp only: list_all_iff set_upt atLeastLessThan_iff) simp

lemma length_hex_encode: "length (hex_encode bs) = 2 * length bs"
  by (induction bs) (simp_all add: hex_encode_def)

section \<open>Properties\<close>

text \<open>
  C25. The names the framework accepts are exactly the two bootstrap names and
  \<^verbatim>\<open>/shmfx.<namespace>.<leaf>\<close> with one of the five namespaces and a leaf of 1 to 39 characters
  that starts with a lower-case letter and goes on with lower-case letters, digits, underscores and
  hyphens; parsing returns the two parts.
\<close>

theorem name_grammar:
  "parse_and_validate_name name = Inr p \<longleftrightarrow>
     (name = REGISTRY_NAME \<or> name = REGISTRY_LOCK_NAME) \<and>
       p = \<lparr>pn_ns = [], pn_leaf = name, pn_bootstrap = True\<rparr> \<or>
     (\<exists>ns leaf. ns \<in> set kAllowedNamespaces \<and> name_part 1 39 leaf \<and>
        name = name_prefix @ ns @ CHR ''.'' # leaf \<and>
        p = \<lparr>pn_ns = ns, pn_leaf = leaf, pn_bootstrap = False\<rparr>)"
  (is "?l \<longleftrightarrow> ?r")
proof
  assume ?l
  from parse_accepts [OF this] show ?r
    by (elim disjE) auto
next
  assume ?r
  then show ?l
    by (auto simp: parse_namespaced) (simp_all add: parse_and_validate_name_def)
qed

text \<open>
  An accepted name is safe to use: it fits the fixed 64-byte name buffers with its terminator and
  is read back from them unchanged, and it is a single path component.
\<close>

theorem accepted_name_safe:
  assumes "parse_and_validate_name name = Inr p"
  shows "fixed_name_view (copy_name name) = name \<and> hd name = CHR ''/'' \<and> CHR ''/'' \<notin> set (tl name)"
  using parse_name_fits [OF assms] by (simp add: fixed_name_view_copy_name)

definition demo_name :: string where
  "demo_name = ''/shmfx.log.app1''"

lemma demo_name_parse:
  "parse_and_validate_name demo_name = Inr \<lparr>pn_ns = ''log'', pn_leaf = ''app1'', pn_bootstrap = False\<rparr>"
proof -
  have "name_part 1 39 ''app1''"
    by (simp add: name_part_def is_name_tail_char_def char_between_def)
  then have "parse_and_validate_name (name_prefix @ ''log'' @ CHR ''.'' # ''app1'') =
      Inr \<lparr>pn_ns = ''log'', pn_leaf = ''app1'', pn_bootstrap = False\<rparr>"
    by (intro parse_namespaced) (simp_all add: kAllowedNamespaces_def)
  then show ?thesis
    by (simp add: demo_name_def name_prefix_def)
qed

theorem accepted_name_safe_witness: "fixed_name_view (copy_name demo_name) = demo_name"
  using accepted_name_safe [OF demo_name_parse] by blast

text \<open>
  C26. The code over the header is HMAC-SHA-256 of RFC 2104 over the standard's hash, for every key that
  does not exceed the block (the keys of the framework have 32 bytes).
\<close>

theorem hmac_is_rfc2104:
  assumes "length key \<le> 64"
  shows "hmac_sha256 key data = rfc2104 fips_sha256 64 key data"
  using assms by (rule hmac_sha256_rfc2104)

theorem hmac_is_rfc2104_witness:
  "hmac_sha256 (replicate 32 7) [1, 2] = rfc2104 fips_sha256 64 (replicate 32 7) [1, 2]"
  using hmac_is_rfc2104 [of "replicate 32 7" "[1, 2]"] by simp

text \<open>
  A header is accepted exactly if it is neither flagged nor coded, or a key is available and the
  stored code is the code of the immutable block; the comparison without early exit is equality.
\<close>

theorem verify_header_exact:
  assumes "length (h_hmac h) = SHMFX_HMAC_BYTES"
  shows "verify_header_hmac ks h = Ok \<longleftrightarrow>
    h_flags h AND HmacEnabled = 0 \<and> list_all (\<lambda>b. b = 0) (h_hmac h) \<or>
    (\<exists>key. load_hmac_key ks = Some key \<and> h_hmac h = hmac_sha256 key (immutable_bytes h))"
  using verify_iff [OF assms, of ks] by (auto simp: must_sign_def has_hmac_bytes_def list_ex_iff list_all_iff)

definition demo_keys :: key_source where
  "demo_keys = \<lparr>ks_env = Some (hex_encode (replicate 32 1)), ks_file = None\<rparr>"

definition demo_header :: ShmHeader where
  "demo_header = \<lparr>h_magic = SHMFX_MAGIC, h_version_major = 1, h_version_minor = 0, h_segment_type = 1,
     h_flags = HmacEnabled, h_total_size = 4096, h_payload_size = 3776, h_meta_offset = 256,
     h_meta_size = 64, h_payload_offset = 320, h_creator_pid = 7, h_created_at_ns = 1,
     h_creator_start_time = 2, h_name = copy_name demo_name, h_hmac = replicate SHMFX_HMAC_BYTES 0,
     h_owner_pid = 7, h_owner_start_time = 2, h_ref_count = 1, h_state = segment_state_code Active,
     h_heartbeat_counter = 0, h_heartbeat_last_ns = 5, h_control_mutex = MFree\<rparr>"

lemma demo_keys_load: "load_hmac_key demo_keys = Some (replicate 32 1)"
  using parse_hex_encode [of "replicate 32 1"] length_hex_encode [of "replicate 32 1"]
  by (simp add: load_hmac_key_def demo_keys_def parse_hex_key_def shm_consts)

theorem verify_header_exact_witness:
  "verify_header_hmac demo_keys (demo_header\<lparr>h_flags := 0\<rparr>) = Ok"
  using verify_header_exact [of "demo_header\<lparr>h_flags := 0\<rparr>" demo_keys]
  by (simp add: demo_header_def list_all_iff)

text \<open>
  Signing and verifying fit together: what signing accepts is verified with the same keys, and it
  stays verified whatever happens to the mutable fields; without a key a flagged header cannot be
  signed.
\<close>

theorem sign_then_verify:
  assumes "sign_header_if_enabled ks h = (e, h')"
  shows "(e = Ok \<longrightarrow> (\<forall>h''. same_immutable h'' h' \<and> h_hmac h'' = h_hmac h' \<longrightarrow> verify_header_hmac ks h'' = Ok)) \<and>
    (e \<noteq> Ok \<longleftrightarrow> h_flags h AND HmacEnabled \<noteq> 0 \<and> load_hmac_key ks = None)"
proof -
  have "verify_header_hmac ks h'' = verify_header_hmac ks h'"
    if "same_immutable h'' h'" "h_hmac h'' = h_hmac h'" for h''
    using that by (rule verify_same_immutable)
  moreover have "(e \<noteq> Ok) = (h_flags h AND HmacEnabled \<noteq> 0 \<and> load_hmac_key ks = None)"
    using assms by (auto simp: sign_header_if_enabled_def Let_def split: if_splits option.splits)
  ultimately show ?thesis
    using sign_header_cases(3) [of ks h h'] assms by auto
qed

theorem sign_then_verify_witness:
  "\<exists>h'. sign_header_if_enabled demo_keys demo_header = (Ok, h') \<and>
     verify_header_hmac demo_keys (h'\<lparr>h_state := 3, h_owner_pid := 0\<rparr>) = Ok"
proof -
  obtain e h' where s: "sign_header_if_enabled demo_keys demo_header = (e, h')"
    by (cases "sign_header_if_enabled demo_keys demo_header")
  moreover have "e = Ok"
    using sign_then_verify [OF s] by (simp add: demo_keys_load)
  ultimately show ?thesis
    using sign_then_verify [OF s] by (simp add: same_immutable_def)
qed

text \<open>
  The creation limits, as long as the sums do not wrap: the segment holds its header and metadata,
  is at most 1 GiB, keeps the total of all registered segments within 4 GiB, and its namespace has
  fewer than 1024 segments; anything else is refused with QuotaExceeded.
\<close>

theorem create_limits:
  assumes "parse_and_validate_name (co_name opts) = Inr p"
    and "256 + unat (co_meta_size opts) < 2 ^ 64"
    and "unat (co_total_size opts) + sum_list (map (unat \<circ> re_total_size) es) < 2 ^ 64"
    and "length es < 2 ^ 32"
  shows "validate_create_security opts es =
    (if 256 + unat (co_meta_size opts) \<le> unat (co_total_size opts) \<and>
        unat (co_total_size opts) \<le> 2 ^ 30 \<and>
        unat (co_total_size opts) + sum_list (map (unat \<circ> re_total_size) es) \<le> 2 ^ 32 \<and>
        length (filter (in_namespace p) es) < 1024
     then Ok else QuotaExceeded)"
  using assms by (rule validate_create_exact)

definition demo_options :: CreateOptions where
  "demo_options = \<lparr>co_name = demo_name, co_type = Raw, co_total_size = 4096, co_meta_size = 64,
     co_perm = 384, co_flags = 0\<rparr>"

theorem create_limits_witness: "validate_create_security demo_options [] = Ok"
  using create_limits [of demo_options _ "[]"] demo_name_parse by (simp add: demo_options_def)


text \<open>
  A 32-byte key written in hexadecimal is read back from the environment variable or, with white
  space around it, from the key file; the environment has precedence, and a key of any other length
  is refused.
\<close>

theorem hex_key_roundtrip:
  assumes "length key = SHMFX_HMAC_BYTES" "list_all is_space before" "list_all is_space after"
  shows "load_hmac_key \<lparr>ks_env = Some (hex_encode key), ks_file = f\<rparr> = Some key \<and>
    load_hmac_key \<lparr>ks_env = None, ks_file = Some (before @ hex_encode key @ after)\<rparr> = Some key \<and>
    (length bad \<noteq> 64 \<longrightarrow> load_hmac_key \<lparr>ks_env = Some bad, ks_file = f\<rparr> = None)"
proof -
  have p: "parse_hex_key (hex_encode key) = Some key"
    using assms(1) by (simp add: parse_hex_key_def length_hex_encode parse_hex_encode)
  have "\<not> is_space c" if "c \<in> set (hex_encode key)" for c
    using hex_encode_chars [OF that] hex_digit_no_space by blast
  then have ns: "list_all (Not \<circ> is_space) (hex_encode key)"
    by (simp add: list_all_iff)
  have "dropWhile is_space (before @ hex_encode key @ after) = hex_encode key @ after"
    using assms(1,2) ns length_hex_encode [of key]
    by (cases "hex_encode key") (auto simp: list_all_iff dropWhile_append2 shm_consts)
  moreover have "takeWhile (Not \<circ> is_space) (hex_encode key @ after) = hex_encode key"
    using ns assms(3) by (cases after) (auto simp: list_all_iff takeWhile_append2)
  ultimately show ?thesis
    using p by (simp add: load_hmac_key_def parse_hex_key_def shm_consts)
qed

theorem hex_key_roundtrip_witness:
  "load_hmac_key \<lparr>ks_env = None, ks_file = Some (hex_encode (replicate 32 171) @ [CHR 0x0A])\<rparr> = Some (replicate 32 171)"
  using hex_key_roundtrip [of "replicate 32 171" "[]" "[CHR 0x0A]"]
  by (simp add: shm_consts is_space_def char_between_def)

end
