(* ===== verification/Shm_Lifecycle.thy ===== *)
theory Shm_Lifecycle
  imports Shm_Security Shm_Interfaces
begin

text \<open>
  The lifecycle helpers of \<^verbatim>\<open>src/shm_lifecycle.cpp\<close>: the guard of the robust mutex, the clock, process start
  times and the verdict on an owner, the heartbeat registry with its worker thread, and the search for
  processes that map a segment. What the process reads of the system is an input of the definitions.
\<close>

section \<open>The robust mutex\<close>

text \<open>
  What POSIX says of a robust mutex. A call on a mutex that another thread holds waits: the result
  \<open>None\<close>.
\<close>

datatype lock_rc = LockOk | LockOwnerDead | LockNotRecoverable

fun pthread_mutex_lock :: "pthread_mutex \<Rightarrow> (lock_rc \<times> pthread_mutex) option" where
  "pthread_mutex_lock MFree = Some (LockOk, MHeld)"
| "pthread_mutex_lock MOwnerDead = Some (LockOwnerDead, MHeldInconsistent)"
| "pthread_mutex_lock MNotRecoverable = Some (LockNotRecoverable, MNotRecoverable)"
| "pthread_mutex_lock MHeld = None"
| "pthread_mutex_lock MHeldInconsistent = None"

fun pthread_mutex_unlock :: "pthread_mutex \<Rightarrow> pthread_mutex" where
  "pthread_mutex_unlock MHeld = MFree"
| "pthread_mutex_unlock MHeldInconsistent = MNotRecoverable"
| "pthread_mutex_unlock m = m"

fun pthread_mutex_consistent :: "pthread_mutex \<Rightarrow> bool \<times> pthread_mutex" where
  "pthread_mutex_consistent MHeldInconsistent = (True, MHeld)"
| "pthread_mutex_consistent m = (False, m)"


definition mutex_available :: "pthread_mutex \<Rightarrow> bool" where
  "mutex_available m \<longleftrightarrow> m \<noteq> MHeld \<and> m \<noteq> MHeldInconsistent"

section \<open>The guard\<close>

text \<open>The guard's pointer is only whether there is one; the mutex itself is passed beside it.\<close>

record ShmMutexGuard =
  g_mutex :: bool
  g_locked :: bool
  g_prior_owner_dead :: bool
  g_error :: ErrorCode

definition empty_guard :: ShmMutexGuard where
  "empty_guard = \<lparr>g_mutex = False, g_locked = False, g_prior_owner_dead = False, g_error = Ok\<rparr>"

definition guard_lock :: "pthread_mutex \<Rightarrow> (ShmMutexGuard \<times> pthread_mutex) option" where
  "guard_lock mutex =
     map_option (\<lambda>(rc, mutex').
       (case rc of
          LockOk \<Rightarrow> \<lparr>g_mutex = True, g_locked = True, g_prior_owner_dead = False, g_error = Ok\<rparr>
        | LockOwnerDead \<Rightarrow>
            \<lparr>g_mutex = True, g_locked = True, g_prior_owner_dead = True, g_error = PriorOwnerDead\<rparr>
        | LockNotRecoverable \<Rightarrow>
            \<lparr>g_mutex = False, g_locked = False, g_prior_owner_dead = False, g_error = PriorOwnerDead\<rparr>,
        mutex')) (pthread_mutex_lock mutex)"

definition guard_reset :: "ShmMutexGuard \<Rightarrow> pthread_mutex \<Rightarrow> ShmMutexGuard \<times> pthread_mutex" where
  "guard_reset g mutex =
     (empty_guard, if g_locked g \<and> g_mutex g then pthread_mutex_unlock mutex else mutex)"


text \<open>Move assignment between different guards, which guard the mutexes beside them.\<close>

definition guard_assign ::
  "ShmMutexGuard \<Rightarrow> pthread_mutex \<Rightarrow> ShmMutexGuard \<Rightarrow> ShmMutexGuard \<times> pthread_mutex \<times> ShmMutexGuard" where
  "guard_assign self mutex other = (other, snd (guard_reset self mutex), empty_guard)"

definition mark_consistent ::
  "ShmMutexGuard \<Rightarrow> pthread_mutex \<Rightarrow> VoidResult \<times> ShmMutexGuard \<times> pthread_mutex" where
  "mark_consistent g mutex =
     (if \<not> g_locked g \<or> \<not> g_mutex g then (g_error g, g, mutex)
      else if \<not> g_prior_owner_dead g then (Ok, g, mutex)
      else case pthread_mutex_consistent mutex of
             (False, mutex') \<Rightarrow> (PriorOwnerDead, g, mutex')
           | (True, mutex') \<Rightarrow> (Ok, g\<lparr>g_prior_owner_dead := False, g_error := Ok\<rparr>, mutex'))"

section \<open>Clocks and processes\<close>

text \<open>The result of \<^verbatim>\<open>clock_gettime\<close>: seconds and nanoseconds, or a failure.\<close>

definition monotonic_ns :: "(u64 \<times> u64) option \<Rightarrow> u64" where
  "monotonic_ns ts = (case ts of None \<Rightarrow> 0 | Some (sec, nsec) \<Rightarrow> sec * 1000 * 1000 * 1000 + nsec)"

text \<open>
  What the process sees of other processes: whether \<^verbatim>\<open>kill(pid, 0)\<close> fails with \<^verbatim>\<open>ESRCH\<close> (for
  the signed process id), and the content of \<^verbatim>\<open>/proc/<pid>/stat\<close>, if it can be opened.
\<close>

record proc_env =
  pe_esrch :: "int \<Rightarrow> bool"
  pe_stat :: "u32 \<Rightarrow> string option"

definition skip_spaces :: "string \<Rightarrow> nat \<Rightarrow> nat" where
  "skip_spaces tail start = start + length (takeWhile (\<lambda>c. c = CHR '' '') (drop start tail))"

fun skip_fields :: "nat \<Rightarrow> string \<Rightarrow> nat \<Rightarrow> nat option" where
  "skip_fields 0 tail start = Some start"
| "skip_fields (Suc n) tail start =
     (case sv_find CHR '' '' start tail of
        None \<Rightarrow> None
      | Some p \<Rightarrow> skip_fields n tail (skip_spaces tail p))"

definition read_proc_start_time :: "proc_env \<Rightarrow> u32 \<Rightarrow> u64 option" where
  "read_proc_start_time env pid =
     (case pe_stat env pid of
        None \<Rightarrow> None
      | Some content \<Rightarrow>
          let line = takeWhile (\<lambda>c. c \<noteq> CHR 0x0A) content
          in case sv_rfind CHR '')'' line of
               None \<Rightarrow> None
             | Some close_paren \<Rightarrow>
                 if length line \<le> close_paren + 2 then None
                 else
                   let tail = drop (close_paren + 2) line
                   in case skip_fields 19 tail 0 of
                        None \<Rightarrow> None
                      | Some start \<Rightarrow> stoull (drop start tail))"

definition owner_is_dead :: "proc_env \<Rightarrow> ShmHeader \<Rightarrow> u64 \<Rightarrow> bool" where
  "owner_is_dead env header now_mono_ns =
     (let pid = h_owner_pid header;
          expected_start_time = h_owner_start_time header
      in if pid = 0 then True
         else if pe_esrch env (sint pid) then True
         else if expected_start_time \<noteq> 0 \<and>
                 (case read_proc_start_time env pid of
                    None \<Rightarrow> False
                  | Some current \<Rightarrow> current \<noteq> expected_start_time) then True
         else
           let last = h_heartbeat_last_ns header
           in if last = 0 \<or> now_mono_ns < last then False
              else HEARTBEAT_DEAD_NS < now_mono_ns - last)"

section \<open>Heartbeats\<close>

text \<open>
  The globals of the file: the addresses of the headers the process owns, the worker thread that can
  be joined, if there is one, and the flag that tells workers to stop. Threads are numbers; the model
  also has the next unused number and the threads that run \<^verbatim>\<open>heartbeat_worker\<close>.
\<close>

record heartbeat =
  hb_headers :: "nat list"
  hb_thread :: "nat option"
  hb_stop :: bool
  hb_next :: nat
  hb_running :: "nat list"

definition no_heartbeat :: heartbeat where
  "no_heartbeat = \<lparr>hb_headers = [], hb_thread = None, hb_stop = False, hb_next = 0, hb_running = []\<rparr>"

definition beat :: "u64 \<Rightarrow> ShmHeader \<Rightarrow> ShmHeader" where
  "beat now header =
     header\<lparr>h_heartbeat_counter := h_heartbeat_counter header + 1, h_heartbeat_last_ns := now\<rparr>"

text \<open>Address 0 is the null pointer.\<close>

definition heartbeat_tick_locked ::
  "u64 \<Rightarrow> nat list \<Rightarrow> (nat \<Rightarrow> ShmHeader) \<Rightarrow> (nat \<Rightarrow> ShmHeader)" where
  "heartbeat_tick_locked now headers store =
     fold (\<lambda>a store. if a = 0 then store else store(a := beat now (store a))) headers store"

text \<open>One turn of the worker \<open>t\<close>, inside its lock.\<close>

definition heartbeat_worker_turn ::
  "nat \<Rightarrow> u64 \<Rightarrow> heartbeat \<times> (nat \<Rightarrow> ShmHeader) \<Rightarrow> heartbeat \<times> (nat \<Rightarrow> ShmHeader)" where
  "heartbeat_worker_turn t now = (\<lambda>(hb, store).
     if hb_stop hb then (hb\<lparr>hb_running := filter (\<lambda>x. x \<noteq> t) (hb_running hb)\<rparr>, store)
     else (hb, heartbeat_tick_locked now (hb_headers hb) store))"

definition add_heartbeat_header :: "nat \<Rightarrow> heartbeat \<Rightarrow> heartbeat" where
  "add_heartbeat_header a hb =
     (let hb1 = (if a \<in> set (hb_headers hb) then hb else hb\<lparr>hb_headers := hb_headers hb @ [a]\<rparr>)
      in if hb_thread hb1 \<noteq> None then hb1
         else hb1\<lparr>hb_stop := False, hb_thread := Some (hb_next hb1),
                  hb_running := hb_running hb1 @ [hb_next hb1], hb_next := Suc (hb_next hb1)\<rparr>)"

definition register_heartbeat_owner ::
  "nat \<Rightarrow> u64 \<Rightarrow> heartbeat \<times> (nat \<Rightarrow> ShmHeader) \<Rightarrow> heartbeat \<times> (nat \<Rightarrow> ShmHeader)" where
  "register_heartbeat_owner a now = (\<lambda>(hb, store).
     (add_heartbeat_header a hb, store(a := beat now (store a))))"

text \<open>The locked part of the call, with the thread that is then joined, if any.\<close>

definition remove_heartbeat_header :: "nat \<Rightarrow> heartbeat \<Rightarrow> nat option \<times> heartbeat" where
  "remove_heartbeat_header a hb =
     (let hb1 = hb\<lparr>hb_headers := filter (\<lambda>x. x \<noteq> a) (hb_headers hb)\<rparr>
      in if hb_headers hb1 = [] \<and> hb_thread hb1 \<noteq> None
         then (hb_thread hb1, hb1\<lparr>hb_stop := True, hb_thread := None\<rparr>)
         else (None, hb1))"

text \<open>The join returns once the thread has ended.\<close>

definition join_returns :: "nat option \<Rightarrow> heartbeat \<Rightarrow> bool" where
  "join_returns to_join hb =
     (case to_join of None \<Rightarrow> True | Some t \<Rightarrow> t \<notin> set (hb_running hb))"

text \<open>
  The whole call when no other call comes between its two parts: the worker's next turn sees the flag
  and ends, and the join returns.
\<close>

definition unregister_heartbeat_owner :: "nat \<Rightarrow> heartbeat \<Rightarrow> heartbeat" where
  "unregister_heartbeat_owner a hb =
     (case remove_heartbeat_header a hb of
        (None, hb1) \<Rightarrow> hb1
      | (Some t, hb1) \<Rightarrow> hb1\<lparr>hb_running := filter (\<lambda>x. x \<noteq> t) (hb_running hb1)\<rparr>)"

text \<open>The interleavings of the locked sections of all threads of the process.\<close>

inductive heartbeat_step ::
  "heartbeat \<times> (nat \<Rightarrow> ShmHeader) \<Rightarrow> heartbeat \<times> (nat \<Rightarrow> ShmHeader) \<Rightarrow> bool" where
  hb_register: "a \<noteq> 0 \<Longrightarrow> heartbeat_step s (register_heartbeat_owner a now s)"
| hb_unregister: "remove_heartbeat_header a hb = (j, hb') \<Longrightarrow> heartbeat_step (hb, store) (hb', store)"
| hb_turn: "t \<in> set (hb_running (fst s)) \<Longrightarrow> heartbeat_step s (heartbeat_worker_turn t now s)"

inductive_cases heartbeat_stepE: "heartbeat_step s s'"

section \<open>Mappings\<close>

definition shm_maps_token :: "string \<Rightarrow> string" where
  "shm_maps_token name =
     ''/dev/shm'' @ (if name \<noteq> [] \<and> hd name \<noteq> CHR ''/'' then ''/'' else []) @ name"

definition is_pid_dir_name :: "string \<Rightarrow> bool" where
  "is_pid_dir_name name \<longleftrightarrow> name \<noteq> [] \<and> list_all is_digit name"

text \<open>
  The process directory as the call reads it: \<open>None\<close> if it cannot be opened, otherwise the entries in
  order with the lines of their \<^verbatim>\<open>maps\<close> files (none, if the file cannot be read).
\<close>

type_synonym proc_maps = "(string \<times> string list) list option"

fun scan_proc :: "string \<Rightarrow> (string \<times> string list) list \<Rightarrow> bool" where
  "scan_proc token [] = False"
| "scan_proc token ((d, lines) # rest) =
     (if \<not> is_pid_dir_name d then scan_proc token rest
      else if list_ex (sv_contains token) lines then True
      else scan_proc token rest)"

definition any_process_maps_segment :: "proc_maps \<Rightarrow> string \<Rightarrow> bool" where
  "any_process_maps_segment proc name =
     (case proc of None \<Rightarrow> True | Some entries \<Rightarrow> scan_proc (shm_maps_token name) entries)"

section \<open>Lemmas\<close>

lemma guard_lock_available: "mutex_available m \<Longrightarrow> \<exists>g m'. guard_lock m = Some (g, m')"
  by (cases m) (simp_all add: guard_lock_def mutex_available_def)

text \<open>Fields separated by single spaces.\<close>

fun join_fields :: "string list \<Rightarrow> string" where
  "join_fields [] = []"
| "join_fields [f] = f"
| "join_fields (f # fs) = f @ CHR '' '' # join_fields fs"

definition field_ok :: "string \<Rightarrow> bool" where
  "field_ok f \<longleftrightarrow> f \<noteq> [] \<and> CHR '' '' \<notin> set f \<and> CHR '')'' \<notin> set f \<and> CHR 0x0A \<notin> set f"

lemma join_fields_Cons: "fs \<noteq> [] \<Longrightarrow> join_fields (f # fs) = f @ CHR '' '' # join_fields fs"
  by (cases fs) simp_all

lemma join_fields_start:
  "fs \<noteq> [] \<Longrightarrow> field_ok (hd fs) \<Longrightarrow> join_fields fs \<noteq> [] \<and> hd (join_fields fs) \<noteq> CHR '' ''"
  by (cases fs; cases "tl fs"; cases "hd fs") (auto simp: field_ok_def join_fields_Cons)

lemma skip_one_field:
  assumes "drop start tail = f @ CHR '' '' # rest" "CHR '' '' \<notin> set f" "rest = [] \<or> hd rest \<noteq> CHR '' ''"
  shows "\<exists>p. sv_find CHR '' '' start tail = Some p \<and> drop (skip_spaces tail p) tail = rest"
proof -
  have find: "sv_find CHR '' '' start tail = Some (start + length f)"
    using assms(1,2) by (simp add: sv_find_def takeWhile_until)
  have d: "drop (start + length f) tail = CHR '' '' # rest"
    using assms(1) by (metis add.commute append_eq_conv_conj drop_drop)
  have "takeWhile (\<lambda>c. c = CHR '' '') (CHR '' '' # rest) = [CHR '' '']"
    using assms(3) by (cases rest) auto
  then have "skip_spaces tail (start + length f) = Suc (start + length f)"
    by (simp add: skip_spaces_def d)
  moreover have "drop (Suc (start + length f)) tail = rest"
    using d by (metis drop_Suc list.sel(3) tl_drop)
  ultimately show ?thesis
    using find by auto
qed

lemma skip_fields_join:
  assumes "drop start tail = join_fields fs" "n < length fs" "list_all field_ok fs"
  shows "\<exists>p. skip_fields n tail start = Some p \<and> drop p tail = join_fields (drop n fs)"
  using assms
proof (induction n arbitrary: start fs)
  case (Suc n)
  then obtain f fs' where fs: "fs = f # fs'" "n < length fs'"
    by (cases fs) auto
  then have ne: "fs' \<noteq> []"
    by auto
  have "join_fields fs' = [] \<or> hd (join_fields fs') \<noteq> CHR '' ''"
    using join_fields_start [OF ne] Suc.prems(3) fs by (cases fs') auto
  then obtain p where p: "sv_find CHR '' '' start tail = Some p"
      "drop (skip_spaces tail p) tail = join_fields fs'"
    using skip_one_field [of start tail f "join_fields fs'"] Suc.prems(1,3) fs ne
    by (auto simp: join_fields_Cons field_ok_def)
  show ?case
    using Suc.IH [OF p(2) fs(2)] Suc.prems(3) p(1) fs by simp
qed simp

lemma join_fields_app:
  "fs \<noteq> [] \<Longrightarrow> join_fields fs = hd fs @ (if tl fs = [] then [] else CHR '' '' # join_fields (tl fs))"
  by (cases fs) (simp_all add: join_fields_Cons)

lemma set_join_fields:
  "list_all field_ok fs \<Longrightarrow> CHR '')'' \<notin> set (join_fields fs) \<and> CHR 0x0A \<notin> set (join_fields fs)"
  by (induction fs rule: join_fields.induct) (auto simp: field_ok_def)

text \<open>
  The content of a \<^verbatim>\<open>stat\<close> file: the process id, the command in parentheses, and from the third on
  the fields of the process, separated by spaces. The command may hold any characters but a line feed.
\<close>

definition stat_content :: "string \<Rightarrow> string \<Rightarrow> string list \<Rightarrow> string" where
  "stat_content pid comm flds = pid @ '' ('' @ comm @ '') '' @ join_fields flds @ [CHR 0x0A]"

lemma stat_line:
  assumes "CHR 0x0A \<notin> set pid" "CHR 0x0A \<notin> set comm" "list_all field_ok flds"
  shows "takeWhile (\<lambda>c. c \<noteq> CHR 0x0A) (stat_content pid comm flds) =
         (pid @ '' ('' @ comm) @ CHR '')'' # CHR '' '' # join_fields flds"
  using takeWhile_until [of "CHR 0x0A" "pid @ '' ('' @ comm @ '') '' @ join_fields flds" "[]"]
    assms set_join_fields [OF assms(3)] by (simp add: stat_content_def)

lemma read_start_time_stat:
  assumes stat: "pe_stat env pid = Some (stat_content p comm flds)"
    and lf: "CHR 0x0A \<notin> set p" "CHR 0x0A \<notin> set comm"
    and ok: "list_all field_ok flds" and n: "19 < length flds"
    and num: "list_all is_digit (flds ! 19)" "digits_value (flds ! 19) < 2 ^ 64"
  shows "read_proc_start_time env pid = Some (of_nat (digits_value (flds ! 19)))"
proof -
  let ?pre = "p @ '' ('' @ comm" and ?tail = "join_fields flds"
  let ?rest = "drop 19 flds"
  have rf: "sv_rfind CHR '')'' (?pre @ CHR '')'' # CHR '' '' # ?tail) = Some (length ?pre)"
    using set_join_fields [OF ok] by (intro sv_rfind_last) simp
  have d: "drop (length ?pre + 2) (?pre @ CHR '')'' # CHR '' '' # ?tail) = ?tail"
    by (simp only: drop_append) simp
  have ne: "flds \<noteq> []" "?rest \<noteq> []" "hd ?rest = flds ! 19"
    using n by (auto simp: hd_drop_conv_nth)
  have "field_ok (hd flds)" "field_ok (flds ! 19)"
    using ok n ne by (auto simp: list_all_iff)
  then have t: "?tail \<noteq> []" and f: "flds ! 19 \<noteq> []"
    using join_fields_start [OF ne(1)] by (auto simp: field_ok_def)
  obtain q where q: "skip_fields 19 ?tail 0 = Some q" "drop q ?tail = join_fields ?rest"
    using skip_fields_join [of 0 ?tail flds 19] n ok by auto
  have sp: "\<not> is_digit CHR '' ''"
    by (simp add: is_digit_def char_between_def)
  have "stoull (join_fields ?rest) = Some (of_nat (digits_value (flds ! 19)))"
    using ne f num sp by (simp only: join_fields_app [OF ne(2)] ne(3), intro stoull_digits) auto
  with q have st: "(case skip_fields 19 ?tail 0 of None \<Rightarrow> None | Some start \<Rightarrow> stoull (drop start ?tail)) =
      Some (of_nat (digits_value (flds ! 19)))"
    by simp
  show ?thesis
    using t
    unfolding read_proc_start_time_def stat option.case Let_def stat_line [OF lf ok] rf d st
    by simp
qed

section \<open>Lemmas on owners and heartbeats\<close>

lemma owner_fresh_heartbeat:
  assumes "h_owner_pid h \<noteq> 0" "\<not> pe_esrch env (sint (h_owner_pid h))"
    and "read_proc_start_time env (h_owner_pid h) \<in> {None, Some (h_owner_start_time h)}"
    and "unat now \<le> unat (h_heartbeat_last_ns h) + unat HEARTBEAT_DEAD_NS"
  shows "\<not> owner_is_dead env h now"
proof -
  have "\<not> HEARTBEAT_DEAD_NS < now - h_heartbeat_last_ns h" if "\<not> now < h_heartbeat_last_ns h"
    using that assms(4) by (simp add: word_less_nat_alt unat_sub word_le_nat_alt not_less)
  then show ?thesis
    using assms by (auto simp: owner_is_dead_def Let_def)
qed

lemma heartbeat_tick_beats:
  "a \<in> set hs \<Longrightarrow> a \<noteq> 0 \<Longrightarrow> h_heartbeat_last_ns (heartbeat_tick_locked now hs store a) = now"
proof (induction hs arbitrary: store rule: rev_induct)
  case (snoc b hs)
  then show ?case
    by (cases "a = b") (auto simp: heartbeat_tick_locked_def beat_def)
qed simp

lemma heartbeat_tick_others:
  "a \<notin> set hs \<Longrightarrow> heartbeat_tick_locked now hs store a = store a"
  by (induction hs arbitrary: store) (auto simp: heartbeat_tick_locked_def)

lemma heartbeat_tick_owner:
  "h_owner_pid (heartbeat_tick_locked now hs store a) = h_owner_pid (store a) \<and>
   h_owner_start_time (heartbeat_tick_locked now hs store a) = h_owner_start_time (store a)"
  by (induction hs arbitrary: store) (auto simp: heartbeat_tick_locked_def beat_def)

definition heartbeat_inv :: "heartbeat \<Rightarrow> bool" where
  "heartbeat_inv hb \<longleftrightarrow>
     (hb_headers hb \<noteq> [] \<longrightarrow> hb_thread hb \<noteq> None) \<and>
     (\<forall>t. hb_thread hb = Some t \<longrightarrow> t \<in> set (hb_running hb) \<and> \<not> hb_stop hb) \<and>
     distinct (hb_headers hb) \<and> 0 \<notin> set (hb_headers hb)"

lemma heartbeat_inv_add: "heartbeat_inv hb \<Longrightarrow> a \<noteq> 0 \<Longrightarrow> heartbeat_inv (add_heartbeat_header a hb)"
  by (auto simp: heartbeat_inv_def add_heartbeat_header_def Let_def)

lemma heartbeat_inv_remove:
  "heartbeat_inv hb \<Longrightarrow> remove_heartbeat_header a hb = (j, hb') \<Longrightarrow> heartbeat_inv hb'"
  by (auto simp: heartbeat_inv_def remove_heartbeat_header_def Let_def split: if_splits)

lemma heartbeat_inv_turn:
  "heartbeat_inv (fst s) \<Longrightarrow> heartbeat_inv (fst (heartbeat_worker_turn t now s))"
  by (auto simp: heartbeat_inv_def heartbeat_worker_turn_def split: prod.splits)

interpretation heartbeats: step_invariant "\<lambda>s. fst s = no_heartbeat" heartbeat_step "\<lambda>s. heartbeat_inv (fst s)"
proof
  show "heartbeat_inv (fst s)" if "fst s = no_heartbeat" for s :: "heartbeat \<times> (nat \<Rightarrow> ShmHeader)"
    using that by (simp add: heartbeat_inv_def no_heartbeat_def)
  show "heartbeat_inv (fst s')" if "heartbeat_inv (fst s)" "heartbeat_step s s'" for s s'
    using that(2,1)
    by cases (auto simp: register_heartbeat_owner_def heartbeat_inv_add heartbeat_inv_remove
        heartbeat_inv_turn split: prod.splits)
qed

lemma guard_cycle:
  "guard_lock m = Some (g, m') \<Longrightarrow> g_locked g \<Longrightarrow>
   \<exists>g'. mark_consistent g m' = (Ok, g', MHeld) \<and> snd (guard_reset g' MHeld) = MFree"
  by (cases m) (auto simp: guard_lock_def mark_consistent_def guard_reset_def)

lemma scan_proc_iff:
  "scan_proc token entries \<longleftrightarrow>
   (\<exists>(d, lines) \<in> set entries. is_pid_dir_name d \<and> (\<exists>l \<in> set lines. sv_contains token l))"
  by (induction entries) (auto simp: list_ex_iff split: if_splits)

section \<open>Properties\<close>



text \<open>
  The start time of a process is read from the twenty-second field of its \<^verbatim>\<open>stat\<close> line whatever
  the command's name is, parentheses, spaces and digits in it included.
\<close>

theorem start_time_any_comm:
  assumes "pe_stat env pid = Some (stat_content p comm flds)"
    and "CHR 0x0A \<notin> set p" "CHR 0x0A \<notin> set comm"
    and "list_all field_ok flds" "19 < length flds"
    and "list_all is_digit (flds ! 19)" "digits_value (flds ! 19) < 2 ^ 64"
  shows "read_proc_start_time env pid = Some (of_nat (digits_value (flds ! 19)))"
  using assms by (rule read_start_time_stat)

definition demo_proc :: proc_env where
  "demo_proc =
     \<lparr>pe_esrch = (\<lambda>pid. pid \<noteq> 42),
      pe_stat = (\<lambda>pid. if pid = 42
        then Some (stat_content ''42'' ''a) 1 (b'' (replicate 19 ''0'' @ [''777'', ''5'']))
        else None)\<rparr>"

theorem start_time_any_comm_witness: "read_proc_start_time demo_proc 42 = Some 777"
proof -
  have "digits_value ''777'' = 777"
    by (simp add: digits_value_def)
  moreover have "list_all field_ok (replicate 19 ''0'' @ [''777'', ''5''])"
    by (auto simp: field_ok_def list_all_iff)
  ultimately show ?thesis
    using start_time_any_comm [of demo_proc 42 "''42''" "''a) 1 (b''" "replicate 19 ''0'' @ [''777'', ''5'']"]
    by (simp add: demo_proc_def nth_append is_digit_def char_between_def)
qed


text \<open>
  C29. Heartbeats cover every registered header in every interleaving of registrations, removals and
  worker turns: as long as a header is registered, a worker that has not been told to stop is
  running, and each of its turns sets the header's last heartbeat to the current time, after which a
  process that is alive is not taken for dead for three seconds.
\<close>

theorem heartbeat_covers_owners:
  assumes "reachable (\<lambda>s. fst s = no_heartbeat) heartbeat_step (hb, store)" "a \<in> set (hb_headers hb)"
  shows "\<exists>t \<in> set (hb_running hb). hb_thread hb = Some t \<and>
    (\<forall>now hb' store'. heartbeat_worker_turn t now (hb, store) = (hb', store') \<longrightarrow>
       hb' = hb \<and> h_heartbeat_last_ns (store' a) = now \<and>
       (\<forall>env later. h_owner_pid (store a) \<noteq> 0 \<and> \<not> pe_esrch env (sint (h_owner_pid (store a))) \<and>
          read_proc_start_time env (h_owner_pid (store a)) = Some (h_owner_start_time (store a)) \<and>
          unat later \<le> unat now + 3000000000 \<longrightarrow>
          \<not> owner_is_dead env (store' a) later))"
proof -
  have inv: "heartbeat_inv hb"
    using heartbeats.unbounded.reachable_inv [OF assms(1)] by simp
  then obtain t where t: "t \<in> set (hb_running hb)" "hb_thread hb = Some t" "\<not> hb_stop hb" "a \<noteq> 0"
    using assms(2) by (force simp: heartbeat_inv_def)
  let ?s = "\<lambda>now. heartbeat_tick_locked now (hb_headers hb) store"
  have turn: "heartbeat_worker_turn t now (hb, store) = (hb, ?s now)" for now
    using t(3) by (simp add: heartbeat_worker_turn_def)
  have beat: "h_heartbeat_last_ns (?s now a) = now" for now
    using assms(2) t(4) by (rule heartbeat_tick_beats)
  have "\<not> owner_is_dead env (?s now a) later"
    if "h_owner_pid (store a) \<noteq> 0" "\<not> pe_esrch env (sint (h_owner_pid (store a)))"
      "read_proc_start_time env (h_owner_pid (store a)) = Some (h_owner_start_time (store a))"
      "unat later \<le> unat now + 3000000000" for env now later
    using that by (intro owner_fresh_heartbeat) (simp_all add: heartbeat_tick_owner beat shm_consts)
  then show ?thesis
    using t(1,2) turn beat by (intro bexI [of _ t]) auto
qed

definition demo_hb :: "heartbeat \<times> (nat \<Rightarrow> ShmHeader)" where
  "demo_hb = register_heartbeat_owner 4096 5 (no_heartbeat, \<lambda>_. demo_header)"

theorem heartbeat_covers_owners_witness: "\<exists>t \<in> set (hb_running (fst demo_hb)). hb_thread (fst demo_hb) = Some t"
proof -
  have "reachable (\<lambda>s. fst s = no_heartbeat) heartbeat_step demo_hb"
    unfolding demo_hb_def
    by (rule reach_step [where s = "(no_heartbeat, \<lambda>_. demo_header)"], rule reach_start, simp)
      (rule hb_register, simp)
  then have r: "reachable (\<lambda>s. fst s = no_heartbeat) heartbeat_step (fst demo_hb, snd demo_hb)"
    by simp
  have "4096 \<in> set (hb_headers (fst demo_hb))"
    by (simp add: demo_hb_def register_heartbeat_owner_def add_heartbeat_header_def no_heartbeat_def Let_def)
  from heartbeat_covers_owners [OF r this] show ?thesis
    by blast
qed

text \<open>
  C35. A stop request can be lost: after the last header of a process was removed, a registration
  before the worker's next turn resets the flag, and then no number of turns of the workers ends the
  thread the removal waits for, as long as no header is removed again.
\<close>

theorem heartbeat_stop_lost:
  assumes "remove_heartbeat_header a hb = (Some t, hb1)" "t \<in> set (hb_running hb)"
  shows "\<not> join_returns (Some t)
    (fst (fold (\<lambda>(u, now). heartbeat_worker_turn u now) turns (register_heartbeat_owner b now0 (hb1, store))))"
proof -
  have r: "hb_running hb1 = hb_running hb" "hb_thread hb1 = None"
    using assms(1) by (auto simp: remove_heartbeat_header_def Let_def split: if_splits)
  have keep: "\<not> hb_stop (fst s) \<Longrightarrow>
      fst (fold (\<lambda>(u, now). heartbeat_worker_turn u now) turns s) = fst s" for s
    by (induction turns arbitrary: s) (auto simp: heartbeat_worker_turn_def)
  let ?s = "register_heartbeat_owner b now0 (hb1, store)"
  have "\<not> hb_stop (fst ?s)" "t \<in> set (hb_running (fst ?s))"
    using r assms(2) by (auto simp: register_heartbeat_owner_def add_heartbeat_header_def Let_def)
  then show ?thesis
    using keep [of ?s] by (simp add: join_returns_def)
qed

theorem heartbeat_stop_lost_witness:
  "\<exists>t hb1. remove_heartbeat_header 4096 (fst demo_hb) = (Some t, hb1) \<and>
    \<not> join_returns (Some t) (fst (register_heartbeat_owner 8192 6 (hb1, snd demo_hb)))"
proof -
  let ?hb1 = "(fst demo_hb)\<lparr>hb_headers := [], hb_stop := True, hb_thread := None\<rparr>"
  have "remove_heartbeat_header 4096 (fst demo_hb) = (Some 0, ?hb1)" "0 \<in> set (hb_running (fst demo_hb))"
    by (simp_all add: demo_hb_def register_heartbeat_owner_def add_heartbeat_header_def no_heartbeat_def
        remove_heartbeat_header_def Let_def)
  then show ?thesis
    using heartbeat_stop_lost [of 4096 "fst demo_hb" 0 ?hb1 "[]" 8192 6 "snd demo_hb"] by auto
qed

text \<open>
  The search for processes that map a segment is exact: it reports one if and only if the process
  directory cannot be read or a line of the maps file of some process contains the segment's path.
\<close>

theorem any_process_maps_exact:
  "any_process_maps_segment proc name \<longleftrightarrow>
     proc = None \<or>
     (\<exists>entries d lines a b. proc = Some entries \<and> (d, lines) \<in> set entries \<and>
        d \<noteq> [] \<and> list_all is_digit d \<and> a @ shm_maps_token name @ b \<in> set lines)"
proof (cases proc)
  case None
  then show ?thesis
    by (simp add: any_process_maps_segment_def)
next
  case (Some entries)
  show ?thesis
    unfolding any_process_maps_segment_def Some option.case scan_proc_iff is_pid_dir_name_def sv_contains_iff
    by auto
qed

end
