(* ===== verification/Shm_Registry.thy ===== *)
theory Shm_Registry
  imports Shm_Lifecycle
begin

text \<open>
  The registry of \<^verbatim>\<open>src/shm_registry.cpp\<close>: slots with sequence locks, the bitmap, registration, removal and
  listing inside the robust lock, and the repair after the death of a holder. The writes of an operation
  are lists of functions, so that a crash between two of them can be expressed. The lemmas show that a
  well-formed payload is a table of entries by name, and what the repair makes of a damaged one.
\<close>

section \<open>Slots and bits\<close>

definition empty_entry :: RegistryEntry where
  "empty_entry =
     \<lparr>re_seq_storage = 0, re_name = replicate SHMFX_NAME_BYTES NUL, re_total_size = 0, re_segment_type = 0,
      re_owner_pid = 0, re_owner_start_time = 0, re_flags = 0, re_created_at_ns = 0, re_last_seen_ns = 0\<rparr>"

definition empty_payload :: RegistryPayload where
  "empty_payload =
     \<lparr>count_storage = 0, bitmap = replicate REGISTRY_BITMAP_BYTES 0,
      slots = replicate MAX_REGISTRY_ENTRIES empty_entry\<rparr>"

definition bit_is_set :: "RegistryPayload \<Rightarrow> nat \<Rightarrow> bool" where
  "bit_is_set payload index \<longleftrightarrow> (bitmap payload ! (index div 8)) AND push_bit (index mod 8) 1 \<noteq> 0"

definition set_slot_bit :: "nat \<Rightarrow> RegistryPayload \<Rightarrow> RegistryPayload" where
  "set_slot_bit index payload =
     payload\<lparr>bitmap := (bitmap payload)[index div 8 :=
       (bitmap payload ! (index div 8)) OR push_bit (index mod 8) 1]\<rparr>"

definition clear_slot_bit :: "nat \<Rightarrow> RegistryPayload \<Rightarrow> RegistryPayload" where
  "clear_slot_bit index payload =
     payload\<lparr>bitmap := (bitmap payload)[index div 8 :=
       (bitmap payload ! (index div 8)) AND NOT (push_bit (index mod 8) 1)]\<rparr>"

definition entry_name :: "RegistryEntry \<Rightarrow> string" where
  "entry_name entry = fixed_name_view (re_name entry)"

definition entry_name_equals :: "RegistryEntry \<Rightarrow> string \<Rightarrow> bool" where
  "entry_name_equals entry name \<longleftrightarrow> fixed_name_view (re_name entry) = name"

section \<open>The sequence lock of a slot\<close>

text \<open>
  The writes of a publication, in order: the odd number, the copy of the struct member by member, the
  odd number again, and the next even number.
\<close>

definition copy_members :: "RegistryEntry \<Rightarrow> (RegistryEntry \<Rightarrow> RegistryEntry) list" where
  "copy_members source =
     [re_seq_storage_update (\<lambda>_. re_seq_storage source), re_name_update (\<lambda>_. re_name source),
      re_total_size_update (\<lambda>_. re_total_size source), re_segment_type_update (\<lambda>_. re_segment_type source),
      re_owner_pid_update (\<lambda>_. re_owner_pid source),
      re_owner_start_time_update (\<lambda>_. re_owner_start_time source),
      re_flags_update (\<lambda>_. re_flags source), re_created_at_ns_update (\<lambda>_. re_created_at_ns source),
      re_last_seen_ns_update (\<lambda>_. re_last_seen_ns source)]"

definition publish_writes :: "u32 \<Rightarrow> RegistryEntry \<Rightarrow> (RegistryEntry \<Rightarrow> RegistryEntry) list" where
  "publish_writes s source =
     re_seq_storage_update (\<lambda>_. s + 1) # copy_members source @
     [re_seq_storage_update (\<lambda>_. s + 1), re_seq_storage_update (\<lambda>_. s + 2)]"

definition publish_slot :: "RegistryEntry \<Rightarrow> RegistryEntry \<Rightarrow> RegistryEntry" where
  "publish_slot slot source = fold (\<lambda>w. w) (publish_writes (re_seq_storage slot) source) slot"

text \<open>
  A reader sees the slot at successive moments: \<open>mem t\<close> is its content at the \<open>t\<close>th access.
\<close>

fun snapshot_loop :: "nat \<Rightarrow> (nat \<Rightarrow> RegistryEntry) \<Rightarrow> nat \<Rightarrow> RegistryEntry option" where
  "snapshot_loop 0 mem t = None"
| "snapshot_loop (Suc retries) mem t =
     (let s1 = re_seq_storage (mem t)
      in if s1 AND 1 \<noteq> 0 then snapshot_loop retries mem (t + 1)
         else
           let out = mem (t + 1); s2 = re_seq_storage (mem (t + 2))
           in if s1 = s2 then Some out else snapshot_loop retries mem (t + 3))"

definition snapshot_slot :: "(nat \<Rightarrow> RegistryEntry) \<Rightarrow> RegistryEntry option" where
  "snapshot_slot mem = snapshot_loop 100 mem 0"

section \<open>Recovery\<close>

definition put_slot :: "nat \<Rightarrow> RegistryEntry \<Rightarrow> RegistryPayload \<Rightarrow> RegistryPayload" where
  "put_slot index entry payload = payload\<lparr>slots := (slots payload)[index := entry]\<rparr>"

definition clear_slot_for_recovery :: "nat \<Rightarrow> RegistryPayload \<Rightarrow> RegistryPayload" where
  "clear_slot_for_recovery index payload =
     (let s = re_seq_storage (slots payload ! index)
      in clear_slot_bit index
           (put_slot index (empty_entry\<lparr>re_seq_storage := (s + 2) AND NOT 1\<rparr>) payload))"

definition recover_slot :: "nat \<Rightarrow> RegistryPayload \<times> u32 \<Rightarrow> RegistryPayload \<times> u32" where
  "recover_slot i = (\<lambda>(payload, count).
     let occupied = bit_is_set payload i;
         slot = slots payload ! i;
         writer_in_progress = (re_seq_storage slot AND 1 \<noteq> 0);
         has_name = (re_name slot ! 0 \<noteq> NUL)
     in if writer_in_progress \<or> (occupied \<and> \<not> has_name) \<or> (\<not> occupied \<and> has_name)
        then (clear_slot_for_recovery i payload, count)
        else (payload, if occupied then count + 1 else count))"

definition recover_registry_invariant :: "RegistryPayload \<Rightarrow> RegistryPayload" where
  "recover_registry_invariant payload =
     (case fold recover_slot [0..<MAX_REGISTRY_ENTRIES] (payload, 0) of
        (payload', count) \<Rightarrow> payload'\<lparr>count_storage := count\<rparr>)"

section \<open>Locking\<close>

text \<open>The registry segment: its control mutex and its payload.\<close>

record registry_seg =
  rg_mutex :: pthread_mutex
  rg_payload :: RegistryPayload

text \<open>\<open>None\<close>: the caller waits for the mutex.\<close>

definition lock_registry_control :: "registry_seg \<Rightarrow> (ShmMutexGuard Result \<times> registry_seg) option" where
  "lock_registry_control seg =
     (case guard_lock (rg_mutex seg) of
        None \<Rightarrow> None
      | Some (guard, mutex) \<Rightarrow>
          Some (if \<not> g_locked guard
                then (Inl (g_error guard), seg\<lparr>rg_mutex := snd (guard_reset guard mutex)\<rparr>)
                else if g_prior_owner_dead guard
                then
                  let p = recover_registry_invariant (rg_payload seg)
                  in case mark_consistent guard mutex of
                       (marked, guard', mutex') \<Rightarrow>
                         if marked \<noteq> Ok
                         then (Inl marked, \<lparr>rg_mutex = snd (guard_reset guard' mutex'), rg_payload = p\<rparr>)
                         else (Inr guard', \<lparr>rg_mutex = mutex', rg_payload = p\<rparr>)
                else (Inr guard, seg\<lparr>rg_mutex := mutex\<rparr>)))"

text \<open>An operation on the payload inside the lock, which is released at its end.\<close>

definition with_registry_lock ::
  "registry_seg \<Rightarrow> (RegistryPayload \<Rightarrow> VoidResult \<times> RegistryPayload) \<Rightarrow> (VoidResult \<times> registry_seg) option" where
  "with_registry_lock seg body =
     (case lock_registry_control seg of
        None \<Rightarrow> None
      | Some (Inl e, seg1) \<Rightarrow> Some (e, seg1)
      | Some (Inr guard, seg1) \<Rightarrow>
          (case body (rg_payload seg1) of
             (result, p) \<Rightarrow>
               Some (result, \<lparr>rg_mutex = snd (guard_reset guard (rg_mutex seg1)), rg_payload = p\<rparr>)))"

section \<open>Operations\<close>

text \<open>
  The search of a registration: the slot with the name (left), or the first free slot, which is
  \<^const>\<open>MAX_REGISTRY_ENTRIES\<close> if there is none. Names given to the operations end before the 64th byte.
\<close>

fun find_slot :: "RegistryPayload \<Rightarrow> string \<Rightarrow> nat list \<Rightarrow> nat \<Rightarrow> nat + nat" where
  "find_slot p name [] free_slot = Inr free_slot"
| "find_slot p name (i # is) free_slot =
     (if \<not> bit_is_set p i
      then find_slot p name is (if free_slot = MAX_REGISTRY_ENTRIES then i else free_slot)
      else case snapshot_slot (\<lambda>_. slots p ! i) of
             Some snap \<Rightarrow> if entry_name_equals snap name then Inl i else find_slot p name is free_slot
           | None \<Rightarrow> find_slot p name is free_slot)"

definition add_count :: "u32 \<Rightarrow> RegistryPayload \<Rightarrow> RegistryPayload" where
  "add_count d p = p\<lparr>count_storage := count_storage p + d\<rparr>"

text \<open>The writes of an operation inside the lock, in order.\<close>

definition slot_writes :: "nat \<Rightarrow> RegistryPayload \<Rightarrow> RegistryEntry \<Rightarrow> (RegistryPayload \<Rightarrow> RegistryPayload) list" where
  "slot_writes i p source =
     map (\<lambda>w q. put_slot i (w (slots q ! i)) q) (publish_writes (re_seq_storage (slots p ! i)) source)"

definition register_writes ::
  "RegistryEntry \<Rightarrow> RegistryPayload \<Rightarrow> VoidResult \<times> (RegistryPayload \<Rightarrow> RegistryPayload) list" where
  "register_writes entry p =
     (case find_slot p (fixed_name_view (re_name entry)) [0..<MAX_REGISTRY_ENTRIES] MAX_REGISTRY_ENTRIES of
        Inl i \<Rightarrow> (Ok, slot_writes i p entry)
      | Inr free_slot \<Rightarrow>
          if free_slot = MAX_REGISTRY_ENTRIES then (QuotaExceeded, [])
          else (Ok, set_slot_bit free_slot # add_count 1 # slot_writes free_slot p entry))"

fun unregister_writes ::
  "RegistryPayload \<Rightarrow> string \<Rightarrow> nat list \<Rightarrow> VoidResult \<times> (RegistryPayload \<Rightarrow> RegistryPayload) list" where
  "unregister_writes p name [] = (NotFound, [])"
| "unregister_writes p name (i # is) =
     (if \<not> bit_is_set p i then unregister_writes p name is
      else case snapshot_slot (\<lambda>_. slots p ! i) of
             Some snap \<Rightarrow>
               if entry_name_equals snap name
               then (Ok, slot_writes i p empty_entry @ [clear_slot_bit i, add_count (- 1)])
               else unregister_writes p name is
           | None \<Rightarrow> unregister_writes p name is)"

definition run_writes ::
  "VoidResult \<times> (RegistryPayload \<Rightarrow> RegistryPayload) list \<Rightarrow> RegistryPayload \<Rightarrow> VoidResult \<times> RegistryPayload" where
  "run_writes r p = (fst r, fold (\<lambda>w. w) (snd r) p)"

text \<open>The two operations inside the lock.\<close>

definition register_payload :: "RegistryEntry \<Rightarrow> RegistryPayload \<Rightarrow> VoidResult \<times> RegistryPayload" where
  "register_payload entry p = run_writes (register_writes entry p) p"

definition unregister_payload :: "string \<Rightarrow> RegistryPayload \<Rightarrow> VoidResult \<times> RegistryPayload" where
  "unregister_payload name p = run_writes (unregister_writes p name [0..<MAX_REGISTRY_ENTRIES]) p"

text \<open>\<open>None\<close> for the segment is a registry that could not be opened.\<close>

definition register_segment ::
  "RegistryEntry \<Rightarrow> registry_seg option \<Rightarrow> (VoidResult \<times> registry_seg option) option" where
  "register_segment entry handle =
     (case handle of
        None \<Rightarrow> Some (NotFound, None)
      | Some seg \<Rightarrow>
          map_option (map_prod id Some)
            (with_registry_lock seg (register_payload entry)))"

definition unregister ::
  "string \<Rightarrow> registry_seg option \<Rightarrow> (VoidResult \<times> registry_seg option) option" where
  "unregister name handle =
     (case handle of
        None \<Rightarrow> Some (NotFound, None)
      | Some seg \<Rightarrow>
          map_option (map_prod id Some)
            (with_registry_lock seg (unregister_payload name)))"

definition list_matches :: "string \<Rightarrow> RegistryEntry \<Rightarrow> bool" where
  "list_matches prefix snap \<longleftrightarrow>
     prefix = [] \<or> sv_substr 0 (length prefix) (fixed_name_view (re_name snap)) = prefix"

text \<open>
  The loop of the listing: a slot of which no snapshot can be taken is read inside the lock, after the
  recovery if its holder died; if the lock fails, the slot is left out.
\<close>

fun list_loop ::
  "string \<Rightarrow> nat list \<Rightarrow> registry_seg \<Rightarrow> (RegistryEntry list \<times> registry_seg) option" where
  "list_loop prefix [] seg = Some ([], seg)"
| "list_loop prefix (i # is) seg =
     (let keep = (\<lambda>snap seg'. map_option
        (map_prod (\<lambda>out. if list_matches prefix snap then snap # out else out) id) (list_loop prefix is seg'))
      in if \<not> bit_is_set (rg_payload seg) i then list_loop prefix is seg
         else case snapshot_slot (\<lambda>_. slots (rg_payload seg) ! i) of
                Some snap \<Rightarrow> keep snap seg
              | None \<Rightarrow>
                  (case lock_registry_control seg of
                     None \<Rightarrow> None
                   | Some (Inl e, seg1) \<Rightarrow> list_loop prefix is seg1
                   | Some (Inr guard, seg1) \<Rightarrow>
                       keep (slots (rg_payload seg1) ! i)
                         (seg1\<lparr>rg_mutex := snd (guard_reset guard (rg_mutex seg1))\<rparr>)))"

definition list_entries ::
  "string \<Rightarrow> registry_seg option \<Rightarrow> (RegistryEntry list \<times> registry_seg option) option" where
  "list_entries prefix handle =
     (case handle of
        None \<Rightarrow> Some ([], None)
      | Some seg \<Rightarrow> map_option (map_prod id Some) (list_loop prefix [0..<MAX_REGISTRY_ENTRIES] seg))"

section \<open>Views of the payload\<close>

definition payload_shape :: "RegistryPayload \<Rightarrow> bool" where
  "payload_shape p \<longleftrightarrow>
     length (bitmap p) = REGISTRY_BITMAP_BYTES \<and> length (slots p) = MAX_REGISTRY_ENTRIES \<and>
     (\<forall>i < MAX_REGISTRY_ENTRIES. length (re_name (slots p ! i)) = SHMFX_NAME_BYTES)"

lemma bit_is_set_bit: "bit_is_set p i \<longleftrightarrow> bit (bitmap p ! (i div 8)) (i mod 8)"
  by (simp add: bit_is_set_def bit_iff_and_push_bit_not_eq_0)

lemma slot_byte: "i < MAX_REGISTRY_ENTRIES \<Longrightarrow> i div 8 < REGISTRY_BITMAP_BYTES"
  by (simp add: shm_consts)

lemma occ_bits [shm_laws]:
  assumes "length (bitmap p) = REGISTRY_BITMAP_BYTES" "i < MAX_REGISTRY_ENTRIES" "j < MAX_REGISTRY_ENTRIES"
  shows "bit_is_set (set_slot_bit i p) j \<longleftrightarrow> j = i \<or> bit_is_set p j"
    and "bit_is_set (clear_slot_bit i p) j \<longleftrightarrow> j \<noteq> i \<and> bit_is_set p j"
proof -
  have b: "i div 8 < length (bitmap p)"
    using assms(1,2) slot_byte by simp
  have eq: "a = b \<longleftrightarrow> a div 8 = b div 8 \<and> a mod 8 = b mod 8" for a b :: nat
    by (metis div_mult_mod_eq)
  have m: "j mod 8 < 8"
    by simp
  show "bit_is_set (set_slot_bit i p) j \<longleftrightarrow> j = i \<or> bit_is_set p j"
    using b m unfolding bit_is_set_bit set_slot_bit_def
    by (auto simp: eq [of j i] nth_list_update bit_simps)
  show "bit_is_set (clear_slot_bit i p) j \<longleftrightarrow> j \<noteq> i \<and> bit_is_set p j"
    using b m unfolding bit_is_set_bit clear_slot_bit_def
    by (auto simp: eq [of j i] nth_list_update bit_simps)
qed

lemma slot_frame [simp]:
  "slots (set_slot_bit i p) = slots p" "slots (clear_slot_bit i p) = slots p" "slots (add_count d p) = slots p"
  "bitmap (put_slot i e p) = bitmap p" "bitmap (add_count d p) = bitmap p"
  "count_storage (set_slot_bit i p) = count_storage p" "count_storage (clear_slot_bit i p) = count_storage p"
  "count_storage (put_slot i e p) = count_storage p" "count_storage (add_count d p) = count_storage p + d"
  "slots (put_slot i e p) = (slots p)[i := e]"
  "length (bitmap (set_slot_bit i p)) = length (bitmap p)"
  "length (bitmap (clear_slot_bit i p)) = length (bitmap p)"
  by (simp_all add: set_slot_bit_def clear_slot_bit_def add_count_def put_slot_def)

lemma occ_frame [simp]:
  "bit_is_set (put_slot i e p) j = bit_is_set p j" "bit_is_set (add_count d p) j = bit_is_set p j"
  "bit_is_set (p\<lparr>count_storage := c\<rparr>) j = bit_is_set p j"
  by (simp_all add: bit_is_set_def)

lemma seq_odd: "(s :: u32) AND 1 \<noteq> 0 \<longleftrightarrow> odd s"
  by (simp add: and_one_eq even_iff_mod_2_eq_zero)

lemma snapshot_quiet: "snapshot_slot (\<lambda>_. e) = (if even (re_seq_storage e) then Some e else None)"
proof -
  have "snapshot_loop n (\<lambda>_. e) t = (if n > 0 \<and> even (re_seq_storage e) then Some e else None)" for n t
    by (induction n arbitrary: t) (simp_all add: Let_def seq_odd)
  then show ?thesis
    by (simp add: snapshot_slot_def)
qed

lemma publish_slot_eq: "publish_slot slot source = source\<lparr>re_seq_storage := re_seq_storage slot + 2\<rparr>"
  by (cases slot; cases source) (simp add: publish_slot_def publish_writes_def copy_members_def)

lemma fold_slot_writes:
  assumes "i < length (slots q)"
  shows "fold (\<lambda>w. w) (map (\<lambda>w q. put_slot i (w (slots q ! i)) q) ws) q =
    put_slot i (fold (\<lambda>w. w) ws (slots q ! i)) q"
  using assms
proof (induction ws arbitrary: q)
  case (Cons w ws)
  have "put_slot i e (put_slot i e' q) = put_slot i e q" for e e'
    by (simp add: put_slot_def)
  with Cons show ?case
    by simp
qed (simp add: put_slot_def)

lemma fold_slot_writes_all:
  assumes "i < length (slots q)" "slots q ! i = slots p ! i"
  shows "fold (\<lambda>w. w) (slot_writes i p source) q = put_slot i (publish_slot (slots p ! i) source) q"
  unfolding slot_writes_def fold_slot_writes [OF assms(1)] by (simp add: assms(2) publish_slot_def)

section \<open>The registry as a table\<close>

abbreviation slot_name :: "RegistryPayload \<Rightarrow> nat \<Rightarrow> string" where
  "slot_name p i \<equiv> fixed_name_view (re_name (slots p ! i))"

definition occupied_slots :: "RegistryPayload \<Rightarrow> nat set" where
  "occupied_slots p = {i. i < MAX_REGISTRY_ENTRIES \<and> bit_is_set p i}"

definition registry_ok :: "RegistryPayload \<Rightarrow> bool" where
  "registry_ok p \<longleftrightarrow>
     payload_shape p \<and>
     (\<forall>i < MAX_REGISTRY_ENTRIES. even (re_seq_storage (slots p ! i)) \<and>
        (bit_is_set p i \<longleftrightarrow> slot_name p i \<noteq> [])) \<and>
     inj_on (slot_name p) (occupied_slots p) \<and>
     count_storage p = of_nat (card (occupied_slots p))"

text \<open>The content: names to entries, without the sequence numbers.\<close>

definition strip_seq :: "RegistryEntry \<Rightarrow> RegistryEntry" where
  "strip_seq e = e\<lparr>re_seq_storage := 0\<rparr>"

definition registry_map :: "RegistryPayload \<Rightarrow> string \<Rightarrow> RegistryEntry option" where
  "registry_map p name =
     map_option (\<lambda>i. strip_seq (slots p ! i))
       (find (\<lambda>i. bit_is_set p i \<and> slot_name p i = name) [0..<MAX_REGISTRY_ENTRIES])"

lemma find_upt: "find P [0..<n] = Some i \<longleftrightarrow> i < n \<and> P i \<and> (\<forall>j < i. \<not> P j)"
  by (auto simp: find_Some_iff)

lemma finite_occupied [simp]: "finite (occupied_slots p)"
  by (simp add: occupied_slots_def)

lemma registry_map_Some:
  assumes "inj_on (slot_name p) (occupied_slots p)"
  shows "registry_map p name = Some e \<longleftrightarrow>
    (\<exists>i \<in> occupied_slots p. slot_name p i = name \<and> e = strip_seq (slots p ! i))"
proof
  assume "registry_map p name = Some e"
  then show "\<exists>i \<in> occupied_slots p. slot_name p i = name \<and> e = strip_seq (slots p ! i)"
    by (auto simp: registry_map_def find_upt occupied_slots_def)
next
  assume "\<exists>i \<in> occupied_slots p. slot_name p i = name \<and> e = strip_seq (slots p ! i)"
  then obtain i where i: "i \<in> occupied_slots p" "slot_name p i = name" "e = strip_seq (slots p ! i)"
    by blast
  have "find (\<lambda>i. bit_is_set p i \<and> slot_name p i = name) [0..<MAX_REGISTRY_ENTRIES] = Some i"
    unfolding find_upt
  proof (intro conjI allI impI notI)
    fix j
    assume "j < i" "bit_is_set p j \<and> slot_name p j = name"
    with i have "j \<in> occupied_slots p"
      by (auto simp: occupied_slots_def)
    with i \<open>bit_is_set p j \<and> slot_name p j = name\<close> have "j = i"
      by (intro inj_onD [OF assms]) auto
    with \<open>j < i\<close> show False
      by simp
  qed (use i in \<open>auto simp: occupied_slots_def\<close>)
  with i show "registry_map p name = Some e"
    by (simp add: registry_map_def)
qed

lemma option_eqI: "(\<And>v. a = Some v \<longleftrightarrow> b = Some v) \<Longrightarrow> a = b"
  by (metis not_Some_eq)

lemma registry_map_dom:
  "inj_on (slot_name p) (occupied_slots p) \<Longrightarrow> dom (registry_map p) = slot_name p ` occupied_slots p"
  by (auto simp: dom_def registry_map_Some)

lemma registry_card:
  "inj_on (slot_name p) (occupied_slots p) \<Longrightarrow> card (dom (registry_map p)) = card (occupied_slots p)"
  by (simp add: registry_map_dom card_image)

text \<open>Two payloads that agree outside one slot, which alone has or had the name.\<close>

definition agree_except :: "nat \<Rightarrow> RegistryPayload \<Rightarrow> RegistryPayload \<Rightarrow> bool" where
  "agree_except i p q \<longleftrightarrow>
     i < MAX_REGISTRY_ENTRIES \<and>
     (\<forall>j < MAX_REGISTRY_ENTRIES. j \<noteq> i \<longrightarrow> bit_is_set q j = bit_is_set p j \<and> slots q ! j = slots p ! j)"

definition name_only_at :: "nat \<Rightarrow> string \<Rightarrow> RegistryPayload \<Rightarrow> bool" where
  "name_only_at i name p \<longleftrightarrow>
     (bit_is_set p i \<longrightarrow> slot_name p i = name) \<and>
     (\<forall>j \<in> occupied_slots p. j \<noteq> i \<longrightarrow> slot_name p j \<noteq> name)"

lemma agree_name_only:
  assumes "agree_except i p q" "name_only_at i name p" "bit_is_set q i \<Longrightarrow> slot_name q i = name"
  shows "name_only_at i name q"
  using assms unfolding agree_except_def name_only_at_def occupied_slots_def by auto

lemma agree_inj:
  assumes "inj_on (slot_name p) (occupied_slots p)" "agree_except i p q" "name_only_at i name q"
  shows "inj_on (slot_name q) (occupied_slots q)"
proof (rule inj_onI)
  fix j k
  assume jk: "j \<in> occupied_slots q" "k \<in> occupied_slots q" "slot_name q j = slot_name q k"
  show "j = k"
  proof (cases "j = i \<or> k = i")
    case True
    then show ?thesis
      using jk assms(3) by (auto simp: name_only_at_def occupied_slots_def)
  next
    case False
    then show ?thesis
      using jk assms(2) by (intro inj_onD [OF assms(1)]) (auto simp: agree_except_def occupied_slots_def)
  qed
qed

lemma map_name_only:
  assumes "inj_on (slot_name p) (occupied_slots p)" "name_only_at i name p" "i < MAX_REGISTRY_ENTRIES"
  shows "registry_map p name = (if bit_is_set p i then Some (strip_seq (slots p ! i)) else None)"
proof -
  have e: "registry_map p name = Some e \<longleftrightarrow> bit_is_set p i \<and> e = strip_seq (slots p ! i)" for e
    using assms(2,3) unfolding registry_map_Some [OF assms(1)]
    by (auto simp: name_only_at_def occupied_slots_def)
  show ?thesis
  proof (cases "bit_is_set p i")
    case True
    then have "registry_map p name = Some (strip_seq (slots p ! i))"
      unfolding e by simp
    then show ?thesis
      using True by simp
  next
    case False
    then have "registry_map p name \<noteq> Some e" for e
      unfolding e by simp
    then show ?thesis
      using False by (metis not_Some_eq)
  qed
qed

lemma agree_map_other:
  assumes "inj_on (slot_name p) (occupied_slots p)" "agree_except i p q"
    and "name_only_at i name p" "name_only_at i name q" "n \<noteq> name"
  shows "registry_map q n = registry_map p n"
proof -
  have q: "inj_on (slot_name q) (occupied_slots q)"
    by (rule agree_inj [OF assms(1,2,4)])
  have "registry_map q n = Some e \<longleftrightarrow> registry_map p n = Some e" for e
    unfolding registry_map_Some [OF assms(1)] registry_map_Some [OF q]
    using assms(2-5) by (auto simp: name_only_at_def agree_except_def occupied_slots_def) (metis+)
  then show ?thesis
    by (metis not_Some_eq)
qed

lemma agree_map:
  assumes "inj_on (slot_name p) (occupied_slots p)" "agree_except i p q"
    and "name_only_at i name p" "name_only_at i name q"
  shows "registry_map q = (registry_map p)(name := if bit_is_set q i then Some (strip_seq (slots q ! i)) else None)"
proof
  fix n
  show "registry_map q n =
      ((registry_map p)(name := if bit_is_set q i then Some (strip_seq (slots q ! i)) else None)) n"
    using agree_map_other [OF assms] map_name_only [OF agree_inj [OF assms(1,2,4)] assms(4)] assms(2)
    by (auto simp: agree_except_def)
qed

section \<open>Searching\<close>

lemma registry_ok_snapshot:
  "registry_ok p \<Longrightarrow> i < MAX_REGISTRY_ENTRIES \<Longrightarrow> snapshot_slot (\<lambda>_. slots p ! i) = Some (slots p ! i)"
  by (simp add: registry_ok_def snapshot_quiet)

lemma find_slot_spec:
  assumes "registry_ok p" "list_all (\<lambda>i. i < MAX_REGISTRY_ENTRIES) is"
  shows "find_slot p name is free =
    (case find (\<lambda>i. bit_is_set p i \<and> slot_name p i = name) is of
       Some i \<Rightarrow> Inl i
     | None \<Rightarrow> Inr (if free \<noteq> MAX_REGISTRY_ENTRIES then free
                    else case find (\<lambda>i. \<not> bit_is_set p i) is of Some i \<Rightarrow> i | None \<Rightarrow> MAX_REGISTRY_ENTRIES))"
  using assms(2)
proof (induction "is" arbitrary: free)
  case (Cons i "is")
  then show ?case
    by (auto simp: registry_ok_snapshot [OF assms(1)] entry_name_equals_def split: option.splits)
qed simp

lemma unregister_writes_spec:
  assumes "registry_ok p" "list_all (\<lambda>i. i < MAX_REGISTRY_ENTRIES) is"
  shows "unregister_writes p name is =
    (case find (\<lambda>i. bit_is_set p i \<and> slot_name p i = name) is of
       None \<Rightarrow> (NotFound, [])
     | Some i \<Rightarrow> (Ok, slot_writes i p empty_entry @ [clear_slot_bit i, add_count (- 1)]))"
  using assms(2)
proof (induction "is")
  case (Cons i "is")
  then show ?case
    by (auto simp: registry_ok_snapshot [OF assms(1)] entry_name_equals_def split: option.splits)
qed simp

text \<open>What the search finds: the slot of the name, or a free slot, or that all slots are taken.\<close>

lemma all_upt: "list_all (\<lambda>i. i < MAX_REGISTRY_ENTRIES) [0..<MAX_REGISTRY_ENTRIES]"
  by (simp add: list_all_iff)

lemma registry_find_cases:
  assumes "registry_ok p"
  obtains (found) i where "i \<in> occupied_slots p" "name_only_at i name p" "slot_name p i = name"
      "find (\<lambda>i. bit_is_set p i \<and> slot_name p i = name) [0..<MAX_REGISTRY_ENTRIES] = Some i"
      "name \<in> dom (registry_map p)"
    | (missing) "\<And>j. j \<in> occupied_slots p \<Longrightarrow> slot_name p j \<noteq> name"
      "find (\<lambda>i. bit_is_set p i \<and> slot_name p i = name) [0..<MAX_REGISTRY_ENTRIES] = None"
      "name \<notin> dom (registry_map p)"
proof (cases "find (\<lambda>i. bit_is_set p i \<and> slot_name p i = name) [0..<MAX_REGISTRY_ENTRIES]")
  case None
  have "registry_map p name = None"
    by (simp add: registry_map_def None)
  moreover have "slot_name p j \<noteq> name" if "j \<in> occupied_slots p" for j
    using that None by (auto simp: find_None_iff occupied_slots_def)
  ultimately show ?thesis
    using missing None by (auto simp: domIff)
next
  case (Some i)
  then have i: "i \<in> occupied_slots p" "slot_name p i = name"
    by (auto simp: find_upt occupied_slots_def)
  have "inj_on (slot_name p) (occupied_slots p)"
    using assms by (simp add: registry_ok_def)
  then have "name_only_at i name p"
    using i by (auto simp: name_only_at_def dest: inj_onD)
  moreover have "name \<in> dom (registry_map p)"
    by (simp add: registry_map_def Some domIff)
  ultimately show ?thesis
    using found i Some by blast
qed

lemma occupied_full:
  "find (\<lambda>i. \<not> bit_is_set p i) [0..<MAX_REGISTRY_ENTRIES] = None \<Longrightarrow>
   occupied_slots p = {0..<MAX_REGISTRY_ENTRIES}"
  unfolding find_None_iff occupied_slots_def by auto

lemma occupied_room:
  assumes "i < MAX_REGISTRY_ENTRIES" "\<not> bit_is_set p i"
  shows "card (occupied_slots p) < MAX_REGISTRY_ENTRIES"
proof -
  have "occupied_slots p \<subseteq> {0..<MAX_REGISTRY_ENTRIES}" "i \<in> {0..<MAX_REGISTRY_ENTRIES}" "i \<notin> occupied_slots p"
    using assms by (auto simp: occupied_slots_def)
  then have "occupied_slots p \<subset> {0..<MAX_REGISTRY_ENTRIES}"
    by (metis psubsetI)
  then have "card (occupied_slots p) < card {0..<MAX_REGISTRY_ENTRIES}"
    by (rule psubset_card_mono [OF finite_atLeastLessThan])
  then show ?thesis
    by simp
qed

lemma free_slot_cases:
  assumes "registry_ok p"
  obtains (free) i where "i < MAX_REGISTRY_ENTRIES" "\<not> bit_is_set p i"
      "find (\<lambda>i. \<not> bit_is_set p i) [0..<MAX_REGISTRY_ENTRIES] = Some i"
      "card (dom (registry_map p)) < MAX_REGISTRY_ENTRIES"
    | (full) "find (\<lambda>i. \<not> bit_is_set p i) [0..<MAX_REGISTRY_ENTRIES] = None"
      "card (dom (registry_map p)) = MAX_REGISTRY_ENTRIES"
proof -
  have c: "card (dom (registry_map p)) = card (occupied_slots p)"
    using assms unfolding registry_ok_def by (intro registry_card) blast
  show ?thesis
  proof (cases "find (\<lambda>i. \<not> bit_is_set p i) [0..<MAX_REGISTRY_ENTRIES]")
    case None
    show ?thesis
      by (rule full [OF None]) (simp add: c occupied_full [OF None])
  next
    case (Some i)
    then have i: "i < MAX_REGISTRY_ENTRIES" "\<not> bit_is_set p i"
      unfolding find_upt by auto
    show ?thesis
      using occupied_room [OF i] by (intro free [OF i Some]) (simp only: c)
  qed
qed

section \<open>Preservation\<close>

lemma fixed_name_first:
  "length buf = SHMFX_NAME_BYTES \<Longrightarrow> fixed_name_view buf = [] \<longleftrightarrow> buf ! 0 = NUL"
  by (cases buf) (auto simp: fixed_name_view_def shm_consts)

lemma even_next: "even (s + 2 :: u32) \<longleftrightarrow> even s"
  by simp

lemma even_cleared: "even ((s + 2 :: u32) AND NOT 1)"
  by (simp add: even_and_iff)

lemma empty_name: "fixed_name_view (re_name empty_entry) = []" "length (re_name empty_entry) = SHMFX_NAME_BYTES"
  by (simp_all add: empty_entry_def fixed_name_view_def shm_consts)

lemma shape_put:
  "payload_shape p \<Longrightarrow> length (re_name e) = SHMFX_NAME_BYTES \<Longrightarrow> payload_shape (put_slot i e p)"
  by (cases "i < length (slots p)") (auto simp: payload_shape_def nth_list_update list_update_beyond)

lemma shape_bits [simp]:
  "payload_shape (set_slot_bit i p) = payload_shape p" "payload_shape (clear_slot_bit i p) = payload_shape p"
  "payload_shape (add_count d p) = payload_shape p" "payload_shape (p\<lparr>count_storage := c\<rparr>) = payload_shape p"
  by (simp_all add: payload_shape_def)

lemma registry_ok_agree:
  assumes "registry_ok p" "agree_except i p q" "name_only_at i name p" "payload_shape q"
    and "even (re_seq_storage (slots q ! i))" "bit_is_set q i \<longleftrightarrow> slot_name q i \<noteq> []"
    and "bit_is_set q i \<Longrightarrow> slot_name q i = name"
    and "count_storage q = of_nat (card (occupied_slots q))"
  shows "registry_ok q"
    "registry_map q = (registry_map p)(name := if bit_is_set q i then Some (strip_seq (slots q ! i)) else None)"
proof -
  have inj: "inj_on (slot_name p) (occupied_slots p)"
    using assms(1) by (simp add: registry_ok_def)
  have q: "name_only_at i name q"
    by (rule agree_name_only [OF assms(2,3,7)])
  show "registry_map q = (registry_map p)(name := if bit_is_set q i then Some (strip_seq (slots q ! i)) else None)"
    by (rule agree_map [OF inj assms(2,3) q])
  have "even (re_seq_storage (slots q ! j)) \<and> (bit_is_set q j \<longleftrightarrow> slot_name q j \<noteq> [])"
    if "j < MAX_REGISTRY_ENTRIES" for j
    using that assms(1,2,5,6) by (cases "j = i") (auto simp: registry_ok_def agree_except_def)
  then show "registry_ok q"
    using assms(4,8) agree_inj [OF inj assms(2) q] by (simp add: registry_ok_def)
qed

definition good_entry :: "RegistryEntry \<Rightarrow> bool" where
  "good_entry e \<longleftrightarrow> length (re_name e) = SHMFX_NAME_BYTES \<and> fixed_name_view (re_name e) \<noteq> []"

lemma shape_slots: "payload_shape p \<Longrightarrow> length (slots p) = MAX_REGISTRY_ENTRIES"
  and shape_bitmap: "payload_shape p \<Longrightarrow> length (bitmap p) = REGISTRY_BITMAP_BYTES"
  by (simp_all add: payload_shape_def)

lemma registry_ok_parts:
  assumes "registry_ok p"
  shows "payload_shape p" "length (slots p) = MAX_REGISTRY_ENTRIES" "length (bitmap p) = REGISTRY_BITMAP_BYTES"
    "count_storage p = of_nat (card (occupied_slots p))"
    "i < MAX_REGISTRY_ENTRIES \<Longrightarrow> even (re_seq_storage (slots p ! i))"
  using assms by (simp_all add: registry_ok_def payload_shape_def)

lemma register_update:
  assumes "registry_ok p" "good_entry e" "i \<in> occupied_slots p" "name_only_at i (fixed_name_view (re_name e)) p"
  shows "registry_ok (put_slot i (publish_slot (slots p ! i) e) p)"
    "registry_map (put_slot i (publish_slot (slots p ! i) e) p) =
     (registry_map p)(fixed_name_view (re_name e) \<mapsto> strip_seq e)"
proof -
  let ?q = "put_slot i (publish_slot (slots p ! i) e) p"
  have i: "i < MAX_REGISTRY_ENTRIES" "bit_is_set p i"
    using assms(3) by (auto simp: occupied_slots_def)
  have l: "i < length (slots p)"
    using i assms(1) by (simp add: registry_ok_parts)
  have "occupied_slots ?q = occupied_slots p"
    by (simp add: occupied_slots_def)
  then have q: "agree_except i p ?q" "payload_shape ?q" "even (re_seq_storage (slots ?q ! i))"
      "bit_is_set ?q i \<longleftrightarrow> slot_name ?q i \<noteq> []" "bit_is_set ?q i \<Longrightarrow> slot_name ?q i = fixed_name_view (re_name e)"
      "count_storage ?q = of_nat (card (occupied_slots ?q))"
    using i l assms(2) registry_ok_parts [OF assms(1)]
    by (auto simp: agree_except_def publish_slot_eq good_entry_def intro!: shape_put)
  show "registry_ok ?q"
    using registry_ok_agree(1) [OF assms(1) q(1) assms(4) q(2-6)] .
  show "registry_map ?q = (registry_map p)(fixed_name_view (re_name e) \<mapsto> strip_seq e)"
    using registry_ok_agree(2) [OF assms(1) q(1) assms(4) q(2-6)] i l
    by (simp add: publish_slot_eq strip_seq_def)
qed

lemma register_new:
  assumes "registry_ok p" "good_entry e" "i < MAX_REGISTRY_ENTRIES" "\<not> bit_is_set p i"
    and "\<And>j. j \<in> occupied_slots p \<Longrightarrow> slot_name p j \<noteq> fixed_name_view (re_name e)"
    and q_def: "q = put_slot i (publish_slot (slots p ! i) e) (add_count 1 (set_slot_bit i p))"
  shows "registry_ok q" "registry_map q = (registry_map p)(fixed_name_view (re_name e) \<mapsto> strip_seq e)"
proof -
  have l: "i < length (slots p)"
    using assms(1,3) by (simp add: registry_ok_parts)
  have n: "name_only_at i (fixed_name_view (re_name e)) p"
    using assms(4,5) by (simp add: name_only_at_def)
  have "occupied_slots q = insert i (occupied_slots p)"
    using assms(1,3) by (auto simp: q_def occupied_slots_def occ_bits registry_ok_parts)
  moreover have "i \<notin> occupied_slots p"
    using assms(4) by (simp add: occupied_slots_def)
  ultimately have q: "agree_except i p q" "payload_shape q" "even (re_seq_storage (slots q ! i))"
      "bit_is_set q i \<longleftrightarrow> slot_name q i \<noteq> []" "bit_is_set q i \<Longrightarrow> slot_name q i = fixed_name_view (re_name e)"
      "count_storage q = of_nat (card (occupied_slots q))"
    using assms(2,3) l registry_ok_parts [OF assms(1)]
    by (auto simp: q_def agree_except_def publish_slot_eq good_entry_def occ_bits intro!: shape_put)
  show "registry_ok q"
    using registry_ok_agree(1) [OF assms(1) q(1) n q(2-6)] .
  show "registry_map q = (registry_map p)(fixed_name_view (re_name e) \<mapsto> strip_seq e)"
    using registry_ok_agree(2) [OF assms(1) q(1) n q(2-6)] assms(1,3) l
    by (simp add: q_def publish_slot_eq strip_seq_def occ_bits registry_ok_parts)
qed

lemma unregister_found:
  assumes "registry_ok p" "i \<in> occupied_slots p" "name_only_at i name p"
    and q_def: "q = add_count (- 1) (clear_slot_bit i (put_slot i (publish_slot (slots p ! i) empty_entry) p))"
  shows "registry_ok q" "registry_map q = (registry_map p)(name := None)"
proof -
  have i: "i < MAX_REGISTRY_ENTRIES" "bit_is_set p i"
    using assms(2) by (auto simp: occupied_slots_def)
  have l: "i < length (slots p)"
    using i assms(1) by (simp add: registry_ok_parts)
  have b: "length (bitmap (put_slot i e p)) = REGISTRY_BITMAP_BYTES" for e
    using assms(1) by (simp add: registry_ok_parts)
  have o: "occupied_slots q = occupied_slots p - {i}"
    using i by (auto simp: q_def occupied_slots_def occ_bits [OF b])
  have "card (occupied_slots p) = Suc (card (occupied_slots q))"
    unfolding o using assms(2) by (metis card.remove finite_occupied)
  then have q: "agree_except i p q" "payload_shape q" "even (re_seq_storage (slots q ! i))"
      "bit_is_set q i \<longleftrightarrow> slot_name q i \<noteq> []" "bit_is_set q i \<Longrightarrow> slot_name q i = name"
      "count_storage q = of_nat (card (occupied_slots q))"
    using i l registry_ok_parts [OF assms(1)] empty_name
    by (auto simp: q_def agree_except_def publish_slot_eq occ_bits [OF b] intro!: shape_put)
  show "registry_ok q"
    using registry_ok_agree(1) [OF assms(1) q(1) assms(3) q(2-6)] .
  have "\<not> bit_is_set q i"
    using i by (simp add: q_def occ_bits [OF b])
  then show "registry_map q = (registry_map p)(name := None)"
    using registry_ok_agree(2) [OF assms(1) q(1) assms(3) q(2-6)] by simp
qed

lemma register_payload_cases:
  assumes "registry_ok p" "good_entry e" "name = fixed_name_view (re_name e)"
  obtains (stored) p' where "register_payload e p = (Ok, p')" "registry_ok p'"
      "registry_map p' = (registry_map p)(name \<mapsto> strip_seq e)"
      "name \<in> dom (registry_map p) \<or> card (dom (registry_map p)) < MAX_REGISTRY_ENTRIES"
    | (full) "register_payload e p = (QuotaExceeded, p)" "name \<notin> dom (registry_map p)"
      "card (dom (registry_map p)) = MAX_REGISTRY_ENTRIES"
proof (rule registry_find_cases [OF assms(1), of name])
  fix i
  assume i: "i \<in> occupied_slots p" "name_only_at i name p" "name \<in> dom (registry_map p)"
    "find (\<lambda>i. bit_is_set p i \<and> slot_name p i = name) [0..<MAX_REGISTRY_ENTRIES] = Some i"
  then have l: "i < length (slots p)"
    using assms(1) by (simp add: registry_ok_parts occupied_slots_def)
  have "register_payload e p = (Ok, put_slot i (publish_slot (slots p ! i) e) p)"
    using fold_slot_writes_all [OF l refl]
    by (simp add: register_payload_def run_writes_def register_writes_def
        find_slot_spec [OF assms(1) all_upt] i(4) assms(3) [symmetric])
  then show thesis
    using stored register_update [OF assms(1,2) i(1)] i(2,3) assms(3) by blast
next
  assume m: "\<And>j. j \<in> occupied_slots p \<Longrightarrow> slot_name p j \<noteq> name" "name \<notin> dom (registry_map p)"
    "find (\<lambda>i. bit_is_set p i \<and> slot_name p i = name) [0..<MAX_REGISTRY_ENTRIES] = None"
  show thesis
  proof (rule free_slot_cases [OF assms(1)])
    fix i
    assume i: "i < MAX_REGISTRY_ENTRIES" "\<not> bit_is_set p i"
      "find (\<lambda>i. \<not> bit_is_set p i) [0..<MAX_REGISTRY_ENTRIES] = Some i"
      "card (dom (registry_map p)) < MAX_REGISTRY_ENTRIES"
    let ?q = "put_slot i (publish_slot (slots p ! i) e) (add_count 1 (set_slot_bit i p))"
    have "i < length (slots (add_count 1 (set_slot_bit i p)))"
      using assms(1) i by (simp add: registry_ok_parts)
    from fold_slot_writes_all [OF this, of p e]
    have "register_payload e p = (Ok, ?q)"
      using i(1) by (simp add: register_payload_def run_writes_def register_writes_def
          find_slot_spec [OF assms(1) all_upt] i(3) m(3) assms(3) [symmetric])
    then show thesis
      using stored register_new [OF assms(1,2) i(1,2) _ refl] m(1) i(4) assms(3) by blast
  next
    assume f: "find (\<lambda>i. \<not> bit_is_set p i) [0..<MAX_REGISTRY_ENTRIES] = None"
      "card (dom (registry_map p)) = MAX_REGISTRY_ENTRIES"
    have "register_payload e p = (QuotaExceeded, p)"
      by (simp add: register_payload_def run_writes_def register_writes_def
          find_slot_spec [OF assms(1) all_upt] f(1) m(3) assms(3) [symmetric])
    then show thesis
      using full m(2) f(2) by blast
  qed
qed

lemma unregister_payload_cases:
  assumes "registry_ok p"
  obtains (removed) p' where "unregister_payload name p = (Ok, p')" "registry_ok p'"
      "registry_map p' = (registry_map p)(name := None)" "name \<in> dom (registry_map p)"
    | (missing) "unregister_payload name p = (NotFound, p)" "name \<notin> dom (registry_map p)"
proof (rule registry_find_cases [OF assms, of name])
  fix i
  assume i: "i \<in> occupied_slots p" "name_only_at i name p" "name \<in> dom (registry_map p)"
    "find (\<lambda>i. bit_is_set p i \<and> slot_name p i = name) [0..<MAX_REGISTRY_ENTRIES] = Some i"
  then have l: "i < length (slots p)"
    using assms by (simp add: registry_ok_parts occupied_slots_def)
  let ?q = "add_count (- 1) (clear_slot_bit i (put_slot i (publish_slot (slots p ! i) empty_entry) p))"
  have "unregister_payload name p = (Ok, ?q)"
    using fold_slot_writes_all [OF l refl]
    by (simp add: unregister_payload_def run_writes_def unregister_writes_spec [OF assms all_upt] i(4))
  then show thesis
    using removed unregister_found [OF assms i(1,2) refl] i(3) by blast
next
  assume "name \<notin> dom (registry_map p)"
    "find (\<lambda>i. bit_is_set p i \<and> slot_name p i = name) [0..<MAX_REGISTRY_ENTRIES] = None"
  then show thesis
    by (intro missing)
      (simp_all add: unregister_payload_def run_writes_def unregister_writes_spec [OF assms all_upt])
qed

section \<open>Recovery\<close>

definition keeps_slot :: "RegistryPayload \<Rightarrow> nat \<Rightarrow> bool" where
  "keeps_slot q i \<longleftrightarrow> bit_is_set q i \<and> even (re_seq_storage (slots q ! i)) \<and> slot_name q i \<noteq> []"

definition damaged_slot :: "RegistryPayload \<Rightarrow> nat \<Rightarrow> bool" where
  "damaged_slot q i \<longleftrightarrow> odd (re_seq_storage (slots q ! i)) \<or> bit_is_set q i \<noteq> (slot_name q i \<noteq> [])"

definition recovered_slot :: "RegistryPayload \<Rightarrow> nat \<Rightarrow> RegistryEntry" where
  "recovered_slot q i =
     (if damaged_slot q i
      then empty_entry\<lparr>re_seq_storage := (re_seq_storage (slots q ! i) + 2) AND NOT 1\<rparr> else slots q ! i)"

lemma recover_slot_eq:
  assumes "payload_shape p" "i < MAX_REGISTRY_ENTRIES"
  shows "recover_slot i (p, c) =
    (if damaged_slot p i then (clear_slot_for_recovery i p, c)
     else (p, if keeps_slot p i then c + 1 else c))"
proof -
  have "length (re_name (slots p ! i)) = SHMFX_NAME_BYTES"
    using assms by (simp add: payload_shape_def)
  then have "re_name (slots p ! i) ! 0 \<noteq> NUL \<longleftrightarrow> slot_name p i \<noteq> []"
    by (simp add: fixed_name_first)
  then show ?thesis
    unfolding recover_slot_def prod.case Let_def seq_odd damaged_slot_def keeps_slot_def by auto
qed

lemma recover_fold:
  assumes "payload_shape q" "n \<le> MAX_REGISTRY_ENTRIES"
  shows "\<exists>q'. fold recover_slot [0..<n] (q, 0) = (q', of_nat (card {i. i < n \<and> keeps_slot q i})) \<and>
    payload_shape q' \<and>
    (\<forall>j < MAX_REGISTRY_ENTRIES.
       (bit_is_set q' j \<longleftrightarrow> (if j < n then keeps_slot q j else bit_is_set q j)) \<and>
       slots q' ! j = (if j < n then recovered_slot q j else slots q ! j))"
  using assms(2)
proof (induction n)
  case 0
  then show ?case
    using assms(1) by simp
next
  case (Suc n)
  then obtain q' where q': "fold recover_slot [0..<n] (q, 0) = (q', of_nat (card {i. i < n \<and> keeps_slot q i}))"
    "payload_shape q'"
    "\<forall>j < MAX_REGISTRY_ENTRIES.
       (bit_is_set q' j \<longleftrightarrow> (if j < n then keeps_slot q j else bit_is_set q j)) \<and>
       slots q' ! j = (if j < n then recovered_slot q j else slots q ! j)"
    by auto
  have n: "n < MAX_REGISTRY_ENTRIES" "n < length (slots q')"
    using Suc.prems shape_slots [OF q'(2)] by simp_all
  have at: "bit_is_set q' n = bit_is_set q n" "slots q' ! n = slots q ! n"
    using q'(3) n by auto
  have same: "damaged_slot q' n = damaged_slot q n" "keeps_slot q' n = keeps_slot q n"
    by (simp_all add: damaged_slot_def keeps_slot_def at)
  have cnt: "card {i. i < Suc n \<and> keeps_slot q i} =
      (if keeps_slot q n then Suc (card {i. i < n \<and> keeps_slot q i}) else card {i. i < n \<and> keeps_slot q i})"
  proof -
    have "{i. i < Suc n \<and> keeps_slot q i} =
        (if keeps_slot q n then insert n {i. i < n \<and> keeps_slot q i} else {i. i < n \<and> keeps_slot q i})"
      by (auto simp: less_Suc_eq)
    then show ?thesis
      by simp
  qed
  let ?c = "of_nat (card {i. i < n \<and> keeps_slot q i}) :: u32"
  have step: "fold recover_slot [0..<Suc n] (q, 0) = recover_slot n (q', ?c)"
    using q'(1) by simp
  show ?case
  proof (cases "damaged_slot q n")
    case True
    let ?r = "clear_slot_for_recovery n q'"
    have nk: "\<not> keeps_slot q n"
      using True by (auto simp: damaged_slot_def keeps_slot_def)
    have b: "length (bitmap (put_slot n e q')) = REGISTRY_BITMAP_BYTES" for e
      using shape_bitmap [OF q'(2)] by simp
    have "payload_shape ?r"
      unfolding clear_slot_for_recovery_def Let_def shape_bits
      by (rule shape_put [OF q'(2)]) (simp add: empty_name)
    moreover have "(bit_is_set ?r j \<longleftrightarrow> (if j < Suc n then keeps_slot q j else bit_is_set q j)) \<and>
        slots ?r ! j = (if j < Suc n then recovered_slot q j else slots q ! j)"
      if "j < MAX_REGISTRY_ENTRIES" for j
      using that q'(3) n True nk
      by (auto simp: clear_slot_for_recovery_def Let_def occ_bits [OF b] nth_list_update at recovered_slot_def
          less_Suc_eq)
    ultimately show ?thesis
      unfolding step recover_slot_eq [OF q'(2) n(1)] same using True nk cnt by simp
  next
    case False
    have "keeps_slot q n \<longleftrightarrow> bit_is_set q n"
      using False by (auto simp: damaged_slot_def keeps_slot_def)
    then show ?thesis
      unfolding step recover_slot_eq [OF q'(2) n(1)] same cnt using False q'(2,3)
      by (auto simp: less_Suc_eq at recovered_slot_def)
  qed
qed

lemma recover_view:
  assumes "payload_shape q"
  shows "payload_shape (recover_registry_invariant q)"
    "count_storage (recover_registry_invariant q) =
       of_nat (card {i. i < MAX_REGISTRY_ENTRIES \<and> keeps_slot q i})"
    "i < MAX_REGISTRY_ENTRIES \<Longrightarrow> bit_is_set (recover_registry_invariant q) i = keeps_slot q i"
    "i < MAX_REGISTRY_ENTRIES \<Longrightarrow> slots (recover_registry_invariant q) ! i = recovered_slot q i"
proof -
  obtain q' where q': "fold recover_slot [0..<MAX_REGISTRY_ENTRIES] (q, 0) =
      (q', of_nat (card {i. i < MAX_REGISTRY_ENTRIES \<and> keeps_slot q i}))" "payload_shape q'"
    "\<forall>j < MAX_REGISTRY_ENTRIES. bit_is_set q' j = keeps_slot q j \<and> slots q' ! j = recovered_slot q j"
    using recover_fold [OF assms order_refl] by auto
  have r: "recover_registry_invariant q =
      q'\<lparr>count_storage := of_nat (card {i. i < MAX_REGISTRY_ENTRIES \<and> keeps_slot q i})\<rparr>"
    by (simp add: recover_registry_invariant_def q'(1))
  show "payload_shape (recover_registry_invariant q)"
    "count_storage (recover_registry_invariant q) = of_nat (card {i. i < MAX_REGISTRY_ENTRIES \<and> keeps_slot q i})"
    "i < MAX_REGISTRY_ENTRIES \<Longrightarrow> bit_is_set (recover_registry_invariant q) i = keeps_slot q i"
    "i < MAX_REGISTRY_ENTRIES \<Longrightarrow> slots (recover_registry_invariant q) ! i = recovered_slot q i"
    unfolding r using q'(2,3) by simp_all
qed

lemma recovered_slot_view:
  "even (re_seq_storage (recovered_slot q i))"
  "fixed_name_view (re_name (recovered_slot q i)) \<noteq> [] \<longleftrightarrow> keeps_slot q i"
  "keeps_slot q i \<Longrightarrow> recovered_slot q i = slots q ! i"
  using even_cleared empty_name by (auto simp: recovered_slot_def damaged_slot_def keeps_slot_def)

lemma recover_ok:
  assumes "payload_shape q" "inj_on (slot_name q) {i. i < MAX_REGISTRY_ENTRIES \<and> keeps_slot q i}"
  shows "registry_ok (recover_registry_invariant q)"
proof -
  have o: "occupied_slots (recover_registry_invariant q) = {i. i < MAX_REGISTRY_ENTRIES \<and> keeps_slot q i}"
    by (auto simp: occupied_slots_def recover_view [OF assms(1)])
  have "inj_on (slot_name (recover_registry_invariant q)) {i. i < MAX_REGISTRY_ENTRIES \<and> keeps_slot q i}"
    using assms(2)
    by (rule inj_on_cong [THEN iffD2, rotated]) (simp add: recover_view [OF assms(1)] recovered_slot_view)
  then show ?thesis
    unfolding registry_ok_def o by (simp add: recover_view [OF assms(1)] recovered_slot_view)
qed

lemma recover_occupied:
  "payload_shape q \<Longrightarrow>
   occupied_slots (recover_registry_invariant q) = {i. i < MAX_REGISTRY_ENTRIES \<and> keeps_slot q i}"
  by (auto simp: occupied_slots_def recover_view)

text \<open>A crash in the middle of the writes to one slot of a well-formed registry.\<close>

lemma recover_crash:
  assumes "registry_ok p" "payload_shape q" "agree_except i p q" "name_only_at i name p"
    and "slot_name q i \<in> {[], name}"
  shows "registry_ok (recover_registry_invariant q)"
    "n \<noteq> name \<Longrightarrow> registry_map (recover_registry_invariant q) n = registry_map p n"
proof -
  let ?r = "recover_registry_invariant q"
  have p: "inj_on (slot_name p) (occupied_slots p)"
    using assms(1) by (simp add: registry_ok_def)
  have k: "keeps_slot q j = bit_is_set p j \<and> slots ?r ! j = slots p ! j"
    if "j < MAX_REGISTRY_ENTRIES" "j \<noteq> i" for j
    using that assms(1,3) recover_view(4) [OF assms(2) that(1)]
    by (auto simp: registry_ok_def agree_except_def keeps_slot_def recovered_slot_def damaged_slot_def)
  have a: "agree_except i p ?r"
    using assms(3) k recover_view(3) [OF assms(2)] by (auto simp: agree_except_def)
  have "bit_is_set ?r i \<Longrightarrow> slot_name ?r i = name"
    using assms(3,5) recover_view(3,4) [OF assms(2)] recovered_slot_view(3) [of q i]
    by (auto simp: agree_except_def keeps_slot_def)
  then have o: "name_only_at i name ?r"
    by (rule agree_name_only [OF a assms(4)])
  show "registry_map ?r n = registry_map p n" if "n \<noteq> name"
    by (rule agree_map_other [OF p a assms(4) o that])
  have "inj_on (slot_name ?r) (occupied_slots ?r)"
    by (rule agree_inj [OF p a o])
  moreover have "inj_on (slot_name q) {i. i < MAX_REGISTRY_ENTRIES \<and> keeps_slot q i} =
      inj_on (slot_name ?r) {i. i < MAX_REGISTRY_ENTRIES \<and> keeps_slot q i}"
    by (rule inj_on_cong) (simp add: recover_view [OF assms(2)] recovered_slot_view)
  ultimately show "registry_ok ?r"
    using recover_ok [OF assms(2)] recover_occupied [OF assms(2)] by simp
qed

end
