(* ===== verification/Registry_Table.thy ===== *)
theory Registry_Table
  imports Shm_Registry
begin

text \<open>
  The registry as a bounded table: the interpretation of the table interface, the calls with their lock,
  the listing, and crashes in the middle of an operation.
\<close>

section \<open>The table\<close>

abbreviation entry_key :: "RegistryEntry \<Rightarrow> string" where
  "entry_key e \<equiv> fixed_name_view (re_name e)"

interpretation registry_table:
  bounded_table registry_ok registry_map entry_key strip_seq good_entry MAX_REGISTRY_ENTRIES
    Ok QuotaExceeded NotFound register_payload unregister_payload
proof
  fix p e r p'
  assume a: "registry_ok p" "good_entry e" "register_payload e p = (r, p')"
  show "registry_ok p' \<and>
      map_insert entry_key strip_seq MAX_REGISTRY_ENTRIES Ok QuotaExceeded e (registry_map p) = (r, registry_map p')"
    by (rule register_payload_cases [OF a(1,2) refl]) (use a in \<open>auto simp: map_insert_def\<close>)
next
  fix p name r p'
  assume a: "registry_ok p" "unregister_payload name p = (r, p')"
  show "registry_ok p' \<and> map_delete Ok NotFound name (registry_map p) = (r, registry_map p')"
    by (rule unregister_payload_cases [OF a(1), of name]) (use a in \<open>auto simp: map_delete_def\<close>)
qed

section \<open>Locked operations\<close>

lemma lock_free:
  "lock_registry_control \<lparr>rg_mutex = MFree, rg_payload = p\<rparr> =
     Some (Inr \<lparr>g_mutex = True, g_locked = True, g_prior_owner_dead = False, g_error = Ok\<rparr>,
           \<lparr>rg_mutex = MHeld, rg_payload = p\<rparr>)"
  by (simp add: lock_registry_control_def guard_lock_def)

lemma lock_dead:
  "lock_registry_control \<lparr>rg_mutex = MOwnerDead, rg_payload = p\<rparr> =
     Some (Inr \<lparr>g_mutex = True, g_locked = True, g_prior_owner_dead = False, g_error = Ok\<rparr>,
           \<lparr>rg_mutex = MHeld, rg_payload = recover_registry_invariant p\<rparr>)"
  by (simp add: lock_registry_control_def guard_lock_def mark_consistent_def)

lemma locked_free:
  "with_registry_lock \<lparr>rg_mutex = MFree, rg_payload = p\<rparr> body =
     Some (fst (body p), \<lparr>rg_mutex = MFree, rg_payload = snd (body p)\<rparr>)"
  by (simp add: with_registry_lock_def lock_free guard_reset_def split: prod.splits)

lemma locked_dead:
  "with_registry_lock \<lparr>rg_mutex = MOwnerDead, rg_payload = p\<rparr> body =
     Some (fst (body (recover_registry_invariant p)),
           \<lparr>rg_mutex = MFree, rg_payload = snd (body (recover_registry_invariant p))\<rparr>)"
  by (simp add: with_registry_lock_def lock_dead guard_reset_def split: prod.splits)

definition free_registry :: "RegistryPayload \<Rightarrow> registry_seg option" where
  "free_registry p = Some \<lparr>rg_mutex = MFree, rg_payload = p\<rparr>"

lemma register_free:
  "register_segment e (free_registry p) =
     Some (fst (register_payload e p), free_registry (snd (register_payload e p)))"
  by (simp add: register_segment_def free_registry_def locked_free)

lemma unregister_free:
  "unregister name (free_registry p) =
     Some (fst (unregister_payload name p), free_registry (snd (unregister_payload name p)))"
  by (simp add: unregister_def free_registry_def locked_free)

text \<open>A sequence of calls; \<open>None\<close> if one of them waits.\<close>

fun registry_calls ::
  "(RegistryEntry, string) table_op list \<Rightarrow> registry_seg option \<Rightarrow> (VoidResult list \<times> registry_seg option) option" where
  "registry_calls [] h = Some ([], h)"
| "registry_calls (op # ops) h =
     (case (case op of TInsert e \<Rightarrow> register_segment e h | TDelete name \<Rightarrow> unregister name h) of
        None \<Rightarrow> None
      | Some (r, h1) \<Rightarrow> map_option (map_prod ((#) r) id) (registry_calls ops h1))"

lemma registry_calls_run:
  "registry_calls ops (free_registry p) =
     (case table_run register_payload unregister_payload ops p of (rs, p') \<Rightarrow> Some (rs, free_registry p'))"
proof (induction ops arbitrary: p)
  case (Cons op ops)
  then show ?case
    by (cases op) (auto simp: register_free unregister_free split: prod.splits)
qed simp

section \<open>Listing\<close>

lemma list_loop_ok:
  assumes "registry_ok (rg_payload seg)" "list_all (\<lambda>i. i < MAX_REGISTRY_ENTRIES) is"
  shows "list_loop prefix is seg =
    Some (filter (list_matches prefix)
            (map (\<lambda>i. slots (rg_payload seg) ! i) (filter (bit_is_set (rg_payload seg)) is)), seg)"
  using assms(2)
  by (induction "is") (auto simp: registry_ok_snapshot [OF assms(1)])

definition listed :: "string \<Rightarrow> RegistryPayload \<Rightarrow> RegistryEntry list" where
  "listed prefix p =
     filter (list_matches prefix) (map (\<lambda>i. slots p ! i) (filter (bit_is_set p) [0..<MAX_REGISTRY_ENTRIES]))"

lemma list_free:
  "registry_ok p \<Longrightarrow> list_entries prefix (free_registry p) = Some (listed prefix p, free_registry p)"
  by (simp add: list_entries_def free_registry_def list_loop_ok list_all_iff listed_def)

lemma list_matches_iff: "list_matches prefix e \<longleftrightarrow> (\<exists>rest. entry_key e = prefix @ rest)"
  by (auto simp: list_matches_def sv_substr_def) (metis append_take_drop_id)

lemma listed_names:
  assumes "registry_ok p"
  shows "distinct (map entry_key (listed prefix p))"
proof -
  have inj: "inj_on (slot_name p) (occupied_slots p)"
    using assms by (simp add: registry_ok_def)
  have "distinct (map (slot_name p) (filter (bit_is_set p) [0..<MAX_REGISTRY_ENTRIES]))"
    unfolding distinct_map using inj
    by (auto intro!: distinct_filter inj_on_subset [OF inj] simp: occupied_slots_def)
  then have "distinct (map entry_key (map (\<lambda>i. slots p ! i) (filter (bit_is_set p) [0..<MAX_REGISTRY_ENTRIES])))"
    by (simp add: comp_def)
  then show ?thesis
    unfolding listed_def by (rule distinct_map_filter)
qed

lemma listed_map:
  assumes "registry_ok p"
  shows "map_of (map (\<lambda>e. (entry_key e, strip_seq e)) (listed prefix p)) name =
    (if \<exists>rest. name = prefix @ rest then registry_map p name else None)"
proof -
  have inj: "inj_on (slot_name p) (occupied_slots p)"
    using assms by (simp add: registry_ok_def)
  have d: "distinct (map fst (map (\<lambda>e. (entry_key e, strip_seq e)) (listed prefix p)))"
    using listed_names [OF assms] by (simp add: comp_def)
  have "map_of (map (\<lambda>e. (entry_key e, strip_seq e)) (listed prefix p)) name = Some v \<longleftrightarrow>
      (\<exists>rest. name = prefix @ rest) \<and> registry_map p name = Some v" for v
    unfolding map_of_eq_Some_iff [OF d] registry_map_Some [OF inj]
    by (fastforce simp: listed_def occupied_slots_def list_matches_iff image_iff)
  then show ?thesis
    by (intro option_eqI) simp
qed

section \<open>Crashes\<close>










fun good_op :: "(RegistryEntry, string) table_op \<Rightarrow> bool" where
  "good_op (TInsert e) = good_entry e"
| "good_op (TDelete name) = True"




lemma empty_payload_ok: "registry_ok empty_payload" "registry_map empty_payload = Map.empty"
proof -
  have b: "\<not> bit_is_set empty_payload i" if "i < MAX_REGISTRY_ENTRIES" for i
    using slot_byte [OF that] by (simp add: bit_is_set_def empty_payload_def)
  have s: "slots empty_payload ! i = empty_entry" if "i < MAX_REGISTRY_ENTRIES" for i
    using that by (simp add: empty_payload_def)
  have o: "occupied_slots empty_payload = {}"
    using b by (auto simp: occupied_slots_def)
  have sh: "payload_shape empty_payload"
    using s empty_name(2) by (simp add: payload_shape_def) (simp add: empty_payload_def)
  show "registry_ok empty_payload"
    using b s sh empty_name
    by (simp add: registry_ok_def o) (simp add: empty_entry_def empty_payload_def)
  show "registry_map empty_payload = Map.empty"
    using registry_map_dom [of empty_payload] by (simp add: o)
qed

section \<open>Properties\<close>

text \<open>
  C6. The registry is a table of at most 1024 entries by name: in every sequence of registrations and
  removals no call waits, each returns what the table returns (success, quota exceeded for a new name
  in a full table, not found for an absent name), and the registry stays well-formed with the
  content of the table; the mutex is free at the end.
\<close>

theorem registry_refines_table:
  assumes "registry_ok p" "\<forall>op \<in> set ops. good_op op"
  shows "\<exists>rs p'. registry_calls ops (free_registry p) = Some (rs, free_registry p') \<and> registry_ok p' \<and>
    table_run (map_insert entry_key strip_seq MAX_REGISTRY_ENTRIES Ok QuotaExceeded) (map_delete Ok NotFound)
      ops (registry_map p) = (rs, registry_map p')"
proof -
  obtain rs p' where r: "table_run register_payload unregister_payload ops p = (rs, p')"
    by fastforce
  have "\<forall>e. TInsert e \<in> set ops \<longrightarrow> good_entry e"
    using assms(2) by force
  from registry_table.run_view [OF assms(1) this r] show ?thesis
    unfolding registry_calls_run r prod.case by blast
qed

definition demo_entry :: RegistryEntry where
  "demo_entry = empty_entry\<lparr>re_name := copy_name demo_name, re_total_size := 4096\<rparr>"

lemma demo_entry_good: "good_entry demo_entry" "entry_key demo_entry = demo_name"
proof -
  show "entry_key demo_entry = demo_name"
    unfolding demo_entry_def by (simp add: fixed_name_view_copy_name demo_name_def shm_consts)
  then show "good_entry demo_entry"
    by (simp add: good_entry_def) (simp add: demo_entry_def demo_name_def)
qed

theorem registry_refines_table_witness:
  "\<exists>p'. registry_calls [TInsert demo_entry, TDelete demo_name, TDelete demo_name] (free_registry empty_payload) =
     Some ([Ok, Ok, NotFound], free_registry p') \<and> registry_ok p'"
  using registry_refines_table [OF empty_payload_ok(1), of "[TInsert demo_entry, TDelete demo_name, TDelete demo_name]"]
    demo_entry_good
  by (auto simp: map_insert_def map_delete_def empty_payload_ok(2) shm_consts)

text \<open>
  Listing returns every entry of the table whose name starts with the prefix, once, and nothing
  else, and does not change the registry.
\<close>

theorem list_exact:
  assumes "registry_ok p"
  shows "\<exists>es. list_entries prefix (free_registry p) = Some (es, free_registry p) \<and>
    distinct (map entry_key es) \<and>
    (\<forall>name. map_of (map (\<lambda>e. (entry_key e, strip_seq e)) es) name =
       (if \<exists>rest. name = prefix @ rest then registry_map p name else None))"
  using list_free [OF assms] listed_names [OF assms] listed_map [OF assms] by blast

theorem list_exact_witness:
  "\<exists>es. list_entries [] (free_registry empty_payload) = Some (es, free_registry empty_payload)"
  using list_exact [OF empty_payload_ok(1), of "[]"] by blast



text \<open>
  C36. A reader can take a torn snapshot: during a publication of an entry with an even sequence number
  (every entry the code publishes has one), the copy of the struct overwrites the odd number that marks
  the slot as being written, and a snapshot taken right after the name was copied succeeds with the new
  name and the old values of all other fields.
\<close>

theorem publish_torn_snapshot:
  assumes "even (re_seq_storage source)"
  shows "\<exists>n. snapshot_slot (\<lambda>_. fold (\<lambda>w. w) (take n (publish_writes (re_seq_storage slot) source)) slot) =
    Some (slot\<lparr>re_seq_storage := re_seq_storage source, re_name := re_name source\<rparr>)"
proof -
  have "fold (\<lambda>w. w) (take 3 (publish_writes (re_seq_storage slot) source)) slot =
      slot\<lparr>re_seq_storage := re_seq_storage source, re_name := re_name source\<rparr>"
    by (simp add: publish_writes_def copy_members_def)
  then show ?thesis
    using assms by (intro exI [of _ 3]) (simp add: snapshot_quiet)
qed

theorem publish_torn_snapshot_witness:
  "\<exists>n snap. snapshot_slot (\<lambda>_. fold (\<lambda>w. w) (take n (publish_writes 0 demo_entry)) empty_entry) = Some snap \<and>
     entry_key snap = demo_name \<and> re_total_size snap \<noteq> re_total_size demo_entry"
proof -
  have "even (re_seq_storage demo_entry)" "re_seq_storage empty_entry = 0"
    by (simp_all add: demo_entry_def empty_entry_def)
  then obtain n where "snapshot_slot (\<lambda>_. fold (\<lambda>w. w) (take n (publish_writes 0 demo_entry)) empty_entry) =
      Some (empty_entry\<lparr>re_seq_storage := re_seq_storage demo_entry, re_name := re_name demo_entry\<rparr>)"
    using publish_torn_snapshot [of demo_entry empty_entry] by auto
  moreover have "re_total_size empty_entry \<noteq> re_total_size demo_entry"
    by (simp add: demo_entry_def empty_entry_def)
  ultimately show ?thesis
    using demo_entry_good(2)
    by (intro exI [of _ n]
        exI [of _ "empty_entry\<lparr>re_seq_storage := re_seq_storage demo_entry, re_name := re_name demo_entry\<rparr>"]) simp
qed

end
