(* ===== verification/Shm_Manager.thy ===== *)
theory Shm_Manager
  imports Registry_Table "HOL-Library.Monad_Syntax"
begin

text \<open>
  Segments in the system: \<^verbatim>\<open>src/shm_manager.cpp\<close> and the parts of \<^verbatim>\<open>src/shm_registry.cpp\<close> that make system
  calls (the registry singleton, the janitor). The state holds the names and objects of the system and
  what the process keeps; the answers of the system are inputs; \<open>None\<close> is a call that waits for a lock.
\<close>


section \<open>The operating system\<close>

datatype errno = EEXIST | ENOENT | EACCES | EPERM | ENOSPC | EFBIG | EOther

text \<open>The results of the calls that set up a mutex.\<close>

record mutex_calls =
  mc_attr_init :: int
  mc_setpshared :: int
  mc_setrobust :: int
  mc_init :: int

text \<open>
  What the system answers during one call of the library: which system calls fail, by name where a
  call handles several names, the value \<^verbatim>\<open>errno\<close> has from earlier calls, clock readings in order, and
  what the process sees of others.
\<close>

record os_env =
  os_open_fail :: "string \<Rightarrow> errno option"
  os_unlink_fail :: "string \<Rightarrow> errno option"
  os_fstat_fail :: "string \<Rightarrow> errno option"
  os_ftruncate_fail :: "errno option"
  os_mmap_fail :: "string \<Rightarrow> errno option"
  os_fchmod :: int
  os_mutex :: mutex_calls
  os_stale_errno :: errno
  os_pid :: u32
  os_realtime :: u64
  os_clock :: "nat \<Rightarrow> (u64 \<times> u64) option"
  os_proc :: proc_env
  os_maps :: "string \<Rightarrow> proc_maps"
  os_keys :: key_source

text \<open>
  A shared-memory object: its size, its header and, for the registry, the payload. Objects are known by
  numbers, which also serve as the addresses of their mappings; 0 is the null pointer.
\<close>

record shm_object =
  ob_size :: u64
  ob_header :: ShmHeader
  ob_registry :: RegistryPayload

text \<open>
  The state: the names, the objects, the next number, and of the process the registry singleton
  (not yet constructed, without a segment, or with one) and the heartbeats.
\<close>

record world =
  w_names :: "string \<Rightarrow> nat option"
  w_objects :: "nat \<Rightarrow> shm_object"
  w_next :: nat
  w_registry :: "nat option option"
  w_heartbeat :: heartbeat

definition zero_header :: ShmHeader where
  "zero_header =
     \<lparr>h_magic = 0, h_version_major = 0, h_version_minor = 0, h_segment_type = 0, h_flags = 0,
      h_total_size = 0, h_payload_size = 0, h_meta_offset = 0, h_meta_size = 0, h_payload_offset = 0,
      h_creator_pid = 0, h_created_at_ns = 0, h_creator_start_time = 0,
      h_name = replicate SHMFX_NAME_BYTES NUL, h_hmac = replicate SHMFX_HMAC_BYTES 0,
      h_owner_pid = 0, h_owner_start_time = 0, h_ref_count = 0, h_state = 0,
      h_heartbeat_counter = 0, h_heartbeat_last_ns = 0, h_control_mutex = MFree\<rparr>"

definition upd_object :: "nat \<Rightarrow> (shm_object \<Rightarrow> shm_object) \<Rightarrow> world \<Rightarrow> world" where
  "upd_object k f w = w\<lparr>w_objects := (w_objects w)(k := f (w_objects w k))\<rparr>"

definition header_at :: "world \<Rightarrow> nat \<Rightarrow> ShmHeader" where
  "header_at w k = ob_header (w_objects w k)"

definition upd_header :: "nat \<Rightarrow> (ShmHeader \<Rightarrow> ShmHeader) \<Rightarrow> world \<Rightarrow> world" where
  "upd_header k f = upd_object k (ob_header_update f)"

definition shm_open_excl :: "os_env \<Rightarrow> string \<Rightarrow> world \<Rightarrow> (errno + nat) \<times> world" where
  "shm_open_excl env name w =
     (case os_open_fail env name of
        Some e \<Rightarrow> (Inl e, w)
      | None \<Rightarrow>
          if name \<in> dom (w_names w) then (Inl EEXIST, w)
          else (Inr (w_next w),
                w\<lparr>w_names := (w_names w)(name \<mapsto> w_next w), w_next := Suc (w_next w),
                  w_objects := (w_objects w)(w_next w :=
                    \<lparr>ob_size = 0, ob_header = zero_header, ob_registry = empty_payload\<rparr>)\<rparr>))"

definition shm_open :: "os_env \<Rightarrow> string \<Rightarrow> world \<Rightarrow> errno + nat" where
  "shm_open env name w =
     (case os_open_fail env name of
        Some e \<Rightarrow> Inl e
      | None \<Rightarrow> (case w_names w name of None \<Rightarrow> Inl ENOENT | Some k \<Rightarrow> Inr k))"

definition shm_unlink :: "os_env \<Rightarrow> string \<Rightarrow> world \<Rightarrow> errno option \<times> world" where
  "shm_unlink env name w =
     (case os_unlink_fail env name of
        Some e \<Rightarrow> (Some e, w)
      | None \<Rightarrow>
          if name \<in> dom (w_names w) then (None, w\<lparr>w_names := (w_names w)(name := None)\<rparr>)
          else (Some ENOENT, w))"

section \<open>Error codes and headers\<close>

fun errno_to_error :: "errno \<Rightarrow> ErrorCode" where
  "errno_to_error EEXIST = AlreadyExists"
| "errno_to_error ENOENT = NotFound"
| "errno_to_error EACCES = PermissionDenied"
| "errno_to_error EPERM = PermissionDenied"
| "errno_to_error ENOSPC = QuotaExceeded"
| "errno_to_error EFBIG = QuotaExceeded"
| "errno_to_error EOther = CorruptedHeader"

fun registry_errno_to_error :: "errno \<Rightarrow> ErrorCode" where
  "registry_errno_to_error EEXIST = AlreadyExists"
| "registry_errno_to_error EACCES = PermissionDenied"
| "registry_errno_to_error EPERM = PermissionDenied"
| "registry_errno_to_error ENOSPC = QuotaExceeded"
| "registry_errno_to_error e = CorruptedHeader"

definition init_control_mutex :: "mutex_calls \<Rightarrow> ErrorCode" where
  "init_control_mutex mc =
     (if mc_attr_init mc \<noteq> 0 then CorruptedHeader
      else
        let init_rc = (if mc_setpshared mc = 0 \<and> mc_setrobust mc = 0 then mc_init mc else 22)
        in if init_rc = 0 then Ok else CorruptedHeader)"

definition validate_header :: "ShmHeader \<Rightarrow> u64 \<Rightarrow> ErrorCode" where
  "validate_header header mapped_size =
     (if h_magic header \<noteq> SHMFX_MAGIC then CorruptedHeader
      else if h_version_major header \<noteq> SHMFX_VERSION_MAJOR then VersionMismatch
      else if h_total_size header \<noteq> mapped_size \<or> h_total_size header < SHMFX_HEADER_SIZE then CorruptedHeader
      else if ucast (h_meta_offset header) < SHMFX_HEADER_SIZE \<or>
              h_total_size header < ucast (h_meta_offset header) then CorruptedHeader
      else
        let meta_end = ucast (h_meta_offset header) + ucast (h_meta_size header);
            payload_end = ucast (h_payload_offset header) + h_payload_size header
        in if h_total_size header < meta_end \<or> ucast (h_payload_offset header) < meta_end \<or>
              h_total_size header < payload_end
           then CorruptedHeader else Ok)"

definition janitor_header_valid :: "ShmHeader \<Rightarrow> u64 \<Rightarrow> bool" where
  "janitor_header_valid header mapped_size =
     (if h_magic header \<noteq> SHMFX_MAGIC \<or> h_version_major header \<noteq> SHMFX_VERSION_MAJOR then False
      else if h_total_size header \<noteq> mapped_size \<or> h_total_size header < SHMFX_HEADER_SIZE then False
      else
        let meta_end = ucast (h_meta_offset header) + ucast (h_meta_size header);
            payload_end = ucast (h_payload_offset header) + h_payload_size header
        in SHMFX_HEADER_SIZE \<le> ucast (h_meta_offset header) \<and> meta_end \<le> h_total_size header \<and>
           meta_end \<le> ucast (h_payload_offset header) \<and> payload_end \<le> h_total_size header)"

section \<open>Handles\<close>

record ShmHandle =
  hd_base :: nat
  hd_size :: u64
  hd_fd :: bool
  hd_mode :: AttachMode
  hd_owner :: bool

definition empty_handle :: ShmHandle where
  "empty_handle = \<lparr>hd_base = 0, hd_size = 0, hd_fd = False, hd_mode = ReadOnly, hd_owner = False\<rparr>"

definition handle_move :: "ShmHandle \<Rightarrow> ShmHandle \<times> ShmHandle" where
  "handle_move other = (other, empty_handle)"

definition handle_valid :: "ShmHandle \<Rightarrow> bool" where
  "handle_valid h \<longleftrightarrow> hd_base h \<noteq> 0"

text \<open>The spans of a handle: offset from the base and length.\<close>

definition handle_metadata :: "world \<Rightarrow> ShmHandle \<Rightarrow> nat \<times> nat" where
  "handle_metadata w h =
     (unat (h_meta_offset (header_at w (hd_base h))), unat (h_meta_size (header_at w (hd_base h))))"

definition handle_payload :: "world \<Rightarrow> ShmHandle \<Rightarrow> nat \<times> nat" where
  "handle_payload w h =
     (unat (h_payload_offset (header_at w (hd_base h))), unat (h_payload_size (header_at w (hd_base h))))"

definition handle_name :: "world \<Rightarrow> ShmHandle \<Rightarrow> string" where
  "handle_name w h = fixed_name_view (h_name (header_at w (hd_base h)))"

section \<open>The registry in the world\<close>

definition registry_seg_of :: "world \<Rightarrow> registry_seg option" where
  "registry_seg_of w =
     (case w_registry w of
        Some (Some r) \<Rightarrow>
          Some \<lparr>rg_mutex = h_control_mutex (header_at w r), rg_payload = ob_registry (w_objects w r)\<rparr>
      | _ \<Rightarrow> None)"

definition put_registry :: "registry_seg option \<Rightarrow> world \<Rightarrow> world" where
  "put_registry seg w =
     (case (w_registry w, seg) of
        (Some (Some r), Some s) \<Rightarrow>
          upd_object r (\<lambda>ob. ob\<lparr>ob_header := (ob_header ob)\<lparr>h_control_mutex := rg_mutex s\<rparr>,
                             ob_registry := rg_payload s\<rparr>) w
      | _ \<Rightarrow> w)"

definition on_registry ::
  "(registry_seg option \<Rightarrow> ('a \<times> registry_seg option) option) \<Rightarrow> world \<Rightarrow> ('a \<times> world) option" where
  "on_registry f w = do {
     (r, seg) \<leftarrow> f (registry_seg_of w);
     Some (r, put_registry seg w)
   }"

definition registry_unregister :: "string \<Rightarrow> world \<Rightarrow> world option" where
  "registry_unregister name w = map_option snd (on_registry (unregister name) w)"

definition update_registry_last_seen :: "RegistryEntry \<Rightarrow> u64 \<Rightarrow> world \<Rightarrow> world option" where
  "update_registry_last_seen entry now_mono_ns w =
     map_option snd (on_registry (register_segment (entry\<lparr>re_last_seen_ns := now_mono_ns\<rparr>)) w)"

section \<open>The janitor\<close>

definition set_state :: "nat \<Rightarrow> SegmentState \<Rightarrow> world \<Rightarrow> world" where
  "set_state k s = upd_header k (h_state_update (\<lambda>_. segment_state_code s))"

definition set_mutex :: "nat \<Rightarrow> pthread_mutex \<Rightarrow> world \<Rightarrow> world" where
  "set_mutex k m = upd_header k (h_control_mutex_update (\<lambda>_. m))"

text \<open>The branch for a dead owner without users: inside the segment's own lock.\<close>

definition gc_collect :: "os_env \<Rightarrow> u64 \<Rightarrow> string \<Rightarrow> nat \<Rightarrow> world \<Rightarrow> world option" where
  "gc_collect env now name k w = do {
     (guard, m) \<leftarrow> guard_lock (h_control_mutex (header_at w k));
     let w1 = set_mutex k m w;
     if g_locked guard then do {
       let (guard1, w2) =
         (if g_prior_owner_dead guard
          then case mark_consistent guard m of (_, g, m') \<Rightarrow> (g, set_mutex k m' w1)
          else (guard, w1));
       w3 \<leftarrow> (if h_ref_count (header_at w2 k) = 0 \<and> owner_is_dead (os_proc env) (header_at w2 k) now
              then registry_unregister name (snd (shm_unlink env name (set_state k Dead w2)))
              else Some w2);
       Some (set_mutex k (snd (guard_reset guard1 (h_control_mutex (header_at w3 k)))) w3)
     }
     else Some w1
   }"

definition gc_entry :: "os_env \<Rightarrow> u64 \<Rightarrow> RegistryEntry \<Rightarrow> world \<Rightarrow> world option" where
  "gc_entry env now entry w =
     (let name = entry_name entry
      in if name = [] \<or> name = REGISTRY_NAME then Some w
         else case shm_open env name w of
                Inl e \<Rightarrow> if e = ENOENT then registry_unregister name w else Some w
              | Inr k \<Rightarrow>
                  if os_fstat_fail env name \<noteq> None \<or> ob_size (w_objects w k) < SHMFX_HEADER_SIZE
                  then registry_unregister name w
                  else if os_mmap_fail env name \<noteq> None then Some w
                  else
                    let header = header_at w k
                    in if \<not> janitor_header_valid header (ob_size (w_objects w k))
                       then registry_unregister name w
                       else
                         let dead = owner_is_dead (os_proc env) header now;
                             rc = h_ref_count header;
                             state = h_state header
                         in if dead \<and> rc = 0 then gc_collect env now name k w
                            else if dead \<and> 0 < rc \<and> state = segment_state_code Active
                            then update_registry_last_seen entry now (set_state k Draining w)
                            else if state = segment_state_code Draining \<and> re_last_seen_ns entry \<noteq> 0 \<and>
                                    re_last_seen_ns entry < now \<and>
                                    SEGMENT_ZOMBIE_NS < now - re_last_seen_ns entry
                            then if \<not> any_process_maps_segment (os_maps env name) name
                                 then registry_unregister name (snd (shm_unlink env name w))
                                 else Some w
                            else Some w)"

fun gc_loop :: "os_env \<Rightarrow> u64 \<Rightarrow> RegistryEntry list \<Rightarrow> world \<Rightarrow> world option" where
  "gc_loop env now [] w = Some w"
| "gc_loop env now (entry # entries) w = do {
     w1 \<leftarrow> gc_entry env now entry w;
     gc_loop env now entries w1
   }"

definition gc :: "os_env \<Rightarrow> world \<Rightarrow> world option" where
  "gc env w = do {
     (entries, w1) \<leftarrow> on_registry (list_entries []) w;
     gc_loop env (monotonic_ns (os_clock env 0)) entries w1
   }"

section \<open>Attaching\<close>

definition attach_checks :: "os_env \<Rightarrow> string \<Rightarrow> bool \<Rightarrow> nat \<Rightarrow> world \<Rightarrow> ErrorCode" where
  "attach_checks env name expects_hmac k w =
     (let header = header_at w k; valid = validate_header header (ob_size (w_objects w k))
      in if valid \<noteq> Ok then valid
         else if fixed_name_view (h_name header) \<noteq> name then CorruptedHeader
         else if expects_hmac \<and> h_flags header AND HmacEnabled = 0 then CorruptedHeader
         else if verify_header_hmac (os_keys env) header \<noteq> Ok then verify_header_hmac (os_keys env) header
         else if h_state header = segment_state_code Dead then SegmentDead
         else Ok)"

text \<open>The call after the janitor; the last argument is the question to the registry.\<close>

definition attach_open ::
  "(world \<Rightarrow> (bool \<times> world) option) \<Rightarrow> os_env \<Rightarrow> string \<Rightarrow> AttachMode \<Rightarrow> world \<Rightarrow> (ShmHandle Result \<times> world) option" where
  "attach_open expects env name mode w =
     (case shm_open env name w of
        Inl e \<Rightarrow> Some (Inl (errno_to_error e), w)
      | Inr k \<Rightarrow>
          if os_fstat_fail env name \<noteq> None
          then Some (Inl (errno_to_error (the (os_fstat_fail env name))), w)
          else if ob_size (w_objects w k) < SHMFX_HEADER_SIZE
          then Some (Inl (errno_to_error (os_stale_errno env)), w)
          else if os_mmap_fail env name \<noteq> None
          then Some (Inl (errno_to_error (the (os_mmap_fail env name))), w)
          else if validate_header (header_at w k) (ob_size (w_objects w k)) \<noteq> Ok \<or>
                  fixed_name_view (h_name (header_at w k)) \<noteq> name
          then Some (Inl (attach_checks env name False k w), w)
          else do {
            (expected, w1) \<leftarrow> expects w;
            let e = attach_checks env name expected k w1;
            if e \<noteq> Ok then Some (Inl e, w1)
            else
              let handle = \<lparr>hd_base = k, hd_size = ob_size (w_objects w1 k), hd_fd = True,
                            hd_mode = mode, hd_owner = False\<rparr>
              in if mode = ReadWrite
                 then
                   let w2 = upd_header k (\<lambda>h. h\<lparr>h_ref_count := h_ref_count h + 1\<rparr>) w1
                   in if h_state (header_at w2 k) = segment_state_code Dead
                      then Some (Inl SegmentDead,
                                 upd_header k (\<lambda>h. h\<lparr>h_ref_count := h_ref_count h - 1\<rparr>) w2)
                      else Some (Inr handle, w2)
                 else Some (Inr handle, w1)
          })"

definition attach_with ::
  "(world \<Rightarrow> world option) \<Rightarrow> (world \<Rightarrow> (bool \<times> world) option) \<Rightarrow> os_env \<Rightarrow> string \<Rightarrow> AttachMode \<Rightarrow>
   world \<Rightarrow> (ShmHandle Result \<times> world) option" where
  "attach_with janitor expects env name mode w =
     (case parse_and_validate_name name of
        Inl e \<Rightarrow> Some (Inl e, w)
      | Inr parsed \<Rightarrow> do {
          w1 \<leftarrow> (if name \<noteq> REGISTRY_NAME then janitor w else Some w);
          attach_open expects env name mode w1
        })"

section \<open>The registry singleton\<close>

definition kRegistryTotalSize :: u64 where
  [shm_consts]: "kRegistryTotalSize = SHMFX_HEADER_SIZE + of_nat (struct_size RegistryPayload_layout)"

definition registry_header :: "os_env \<Rightarrow> ShmHeader" where
  "registry_header env = zero_header\<lparr>
     h_magic := SHMFX_MAGIC, h_version_major := SHMFX_VERSION_MAJOR, h_version_minor := SHMFX_VERSION_MINOR,
     h_segment_type := segment_type_code Registry, h_flags := RobustMutex,
     h_total_size := kRegistryTotalSize, h_payload_size := of_nat (struct_size RegistryPayload_layout),
     h_meta_offset := ucast SHMFX_HEADER_SIZE, h_meta_size := 0, h_payload_offset := ucast SHMFX_HEADER_SIZE,
     h_creator_pid := os_pid env, h_name := copy_name REGISTRY_NAME, h_owner_pid := os_pid env,
     h_state := segment_state_code Active, h_ref_count := 1\<rparr>"

definition create_registry_raw :: "os_env \<Rightarrow> world \<Rightarrow> nat Result \<times> world" where
  "create_registry_raw env w =
     (case shm_open_excl env REGISTRY_NAME w of
        (Inl e, w1) \<Rightarrow> (Inl (registry_errno_to_error e), w1)
      | (Inr k, w1) \<Rightarrow>
          (case os_ftruncate_fail env of
             Some e \<Rightarrow> (Inl (registry_errno_to_error e), snd (shm_unlink env REGISTRY_NAME w1))
           | None \<Rightarrow>
               let w2 = upd_object k (ob_size_update (\<lambda>_. kRegistryTotalSize)) w1
               in case os_mmap_fail env REGISTRY_NAME of
                    Some e \<Rightarrow> (Inl (registry_errno_to_error e), snd (shm_unlink env REGISTRY_NAME w2))
                  | None \<Rightarrow>
                      let w3 = upd_object k (\<lambda>ob. ob\<lparr>ob_header := registry_header env, ob_registry := empty_payload\<rparr>) w2;
                          err = init_control_mutex (os_mutex env)
                      in if err \<noteq> Ok then (Inl err, snd (shm_unlink env REGISTRY_NAME w3))
                         else (Inr k, set_mutex k MFree w3)))"

definition registry_instance :: "os_env \<Rightarrow> world \<Rightarrow> world option" where
  "registry_instance env w =
     (case w_registry w of
        Some handle \<Rightarrow> Some w
      | None \<Rightarrow>
          (case create_registry_raw env w of
             (Inr k, w1) \<Rightarrow> Some (w1\<lparr>w_registry := Some (Some k)\<rparr>)
           | (Inl e, w1) \<Rightarrow>
               if e = AlreadyExists then do {
                 (opened, w2) \<leftarrow> attach_with Some (\<lambda>w. Some (False, w)) env REGISTRY_NAME ReadWrite w1;
                 Some (w2\<lparr>w_registry := Some (case opened of Inr h \<Rightarrow> Some (hd_base h) | Inl _ \<Rightarrow> None)\<rparr>)
               }
               else Some (w1\<lparr>w_registry := Some None\<rparr>)))"

definition registry_list :: "os_env \<Rightarrow> string \<Rightarrow> world \<Rightarrow> (RegistryEntry list \<times> world) option" where
  "registry_list env prefix w = do { w1 \<leftarrow> registry_instance env w; on_registry (list_entries prefix) w1 }"

definition registry_expects_hmac :: "os_env \<Rightarrow> string \<Rightarrow> world \<Rightarrow> (bool \<times> world) option" where
  "registry_expects_hmac env name w =
     (if name = REGISTRY_NAME then Some (False, w)
      else do {
        (entries, w1) \<leftarrow> registry_list env name w;
        Some (case find (\<lambda>entry. fixed_name_view (re_name entry) = name) entries of
                Some entry \<Rightarrow> re_flags entry AND HmacEnabled \<noteq> 0
              | None \<Rightarrow> False, w1)
      })"

definition attach :: "os_env \<Rightarrow> string \<Rightarrow> AttachMode \<Rightarrow> world \<Rightarrow> (ShmHandle Result \<times> world) option" where
  "attach env name =
     attach_with (\<lambda>w. do { w1 \<leftarrow> registry_instance env w; gc env w1 }) (registry_expects_hmac env name) env name"

section \<open>Releasing, creating, destroying\<close>

definition remove_heartbeat :: "nat \<Rightarrow> world \<Rightarrow> world" where
  "remove_heartbeat k w = w\<lparr>w_heartbeat := unregister_heartbeat_owner k (w_heartbeat w)\<rparr>"

definition add_heartbeat :: "nat \<Rightarrow> u64 \<Rightarrow> world \<Rightarrow> world" where
  "add_heartbeat k now w =
     (case register_heartbeat_owner k now (w_heartbeat w, header_at w) of
        (hb, headers) \<Rightarrow> (upd_header k (\<lambda>_. headers k) w)\<lparr>w_heartbeat := hb\<rparr>)"

definition handle_reset :: "os_env \<Rightarrow> ShmHandle \<Rightarrow> world \<Rightarrow> (ShmHandle \<times> world) option" where
  "handle_reset env h w =
     (if \<not> handle_valid h then Some (empty_handle, w)
      else
        let k = hd_base h;
            segment_name = handle_name w h;
            is_registry = (segment_name = REGISTRY_NAME);
            w1 = (if hd_owner h then remove_heartbeat k w else w)
        in if hd_mode h = ReadWrite
           then
             let previous = h_ref_count (header_at w1 k);
                 w2 = upd_header k (\<lambda>x. x\<lparr>h_ref_count := h_ref_count x - 1\<rparr>) w1;
                 state = h_state (header_at w2 k)
             in if hd_owner h \<and> \<not> is_registry \<and> previous = 1 \<and> state = segment_state_code Draining
                then do {
                  w3 \<leftarrow> registry_instance env (snd (shm_unlink env segment_name (set_state k Dead w2)));
                  w4 \<leftarrow> registry_unregister segment_name w3;
                  Some (empty_handle, w4)
                }
                else Some (empty_handle, w2)
           else Some (empty_handle, w1))"

text \<open>Move assignment between different handles: the assigned handle, what is left of the other one.\<close>

definition handle_assign ::
  "os_env \<Rightarrow> ShmHandle \<Rightarrow> ShmHandle \<Rightarrow> world \<Rightarrow> ((ShmHandle \<times> ShmHandle) \<times> world) option" where
  "handle_assign env self other w = do {
     (_, w1) \<leftarrow> handle_reset env self w;
     Some ((other, empty_handle), w1)
   }"

definition kDefaultCreateFlags :: u32 where [shm_consts]: "kDefaultCreateFlags = RobustMutex"

text \<open>The start time stays 0 if it cannot be read.\<close>

definition created_header :: "os_env \<Rightarrow> CreateOptions \<Rightarrow> u64 \<Rightarrow> ShmHeader" where
  "created_header env options payload_offset =
     (let pid = os_pid env;
          start = (case read_proc_start_time (os_proc env) pid of Some t \<Rightarrow> t | None \<Rightarrow> 0)
      in zero_header\<lparr>
        h_magic := SHMFX_MAGIC, h_version_major := SHMFX_VERSION_MAJOR, h_version_minor := SHMFX_VERSION_MINOR,
        h_segment_type := segment_type_code (co_type options), h_flags := co_flags options OR kDefaultCreateFlags,
        h_total_size := co_total_size options, h_meta_offset := ucast SHMFX_HEADER_SIZE,
        h_meta_size := ucast (co_meta_size options), h_payload_offset := ucast payload_offset,
        h_payload_size := co_total_size options - payload_offset, h_creator_pid := pid,
        h_created_at_ns := os_realtime env, h_creator_start_time := start, h_name := copy_name (co_name options),
        h_owner_pid := pid, h_owner_start_time := start, h_ref_count := 1,
        h_state := segment_state_code Active, h_heartbeat_last_ns := monotonic_ns (os_clock env 0)\<rparr>)"

definition created_entry :: "os_env \<Rightarrow> CreateOptions \<Rightarrow> ShmHeader \<Rightarrow> RegistryEntry" where
  "created_entry env options header = empty_entry\<lparr>
     re_name := copy_name (co_name options), re_total_size := co_total_size options,
     re_segment_type := segment_type_code (co_type options), re_owner_pid := h_owner_pid header,
     re_owner_start_time := h_owner_start_time header, re_flags := h_flags header,
     re_created_at_ns := h_created_at_ns header, re_last_seen_ns := monotonic_ns (os_clock env 2)\<rparr>"

text \<open>From the mapping of the new object on.\<close>

definition create_mapped ::
  "os_env \<Rightarrow> CreateOptions \<Rightarrow> u64 \<Rightarrow> nat \<Rightarrow> world \<Rightarrow> (ShmHandle Result \<times> world) option" where
  "create_mapped env options payload_offset k w =
     (let name = co_name options
      in case sign_header_if_enabled (os_keys env) (created_header env options payload_offset) of
           (e, header) \<Rightarrow>
             let w1 = upd_header k (\<lambda>_. header) w; mutex_error = init_control_mutex (os_mutex env)
             in if e \<noteq> Ok then Some (Inl e, snd (shm_unlink env name w1))
                else if mutex_error \<noteq> Ok then Some (Inl mutex_error, snd (shm_unlink env name w1))
                else
                  let w2 = add_heartbeat k (monotonic_ns (os_clock env 1)) (set_mutex k MFree w1);
                      handle = \<lparr>hd_base = k, hd_size = co_total_size options, hd_fd = True,
                                hd_mode = ReadWrite, hd_owner = True\<rparr>
                  in if name \<noteq> REGISTRY_NAME then do {
                       w3 \<leftarrow> registry_instance env w2;
                       (registered, w4) \<leftarrow> on_registry (register_segment (created_entry env options (header_at w3 k))) w3;
                       if registered \<noteq> Ok then do {
                         (_, w5) \<leftarrow> handle_reset env handle (snd (shm_unlink env name w4));
                         Some (Inl registered, w5)
                       }
                       else Some (Inr handle, w4)
                     }
                     else Some (Inr handle, w2))"

definition create :: "os_env \<Rightarrow> CreateOptions \<Rightarrow> world \<Rightarrow> (ShmHandle Result \<times> world) option" where
  "create env options w =
     (let name = co_name options
      in case parse_and_validate_name name of
           Inl e \<Rightarrow> Some (Inl e, w)
         | Inr parsed \<Rightarrow> do {
             (entries, w1) \<leftarrow> registry_list env [] w;
             let security = validate_create_security options entries;
             let payload_offset = align_up (SHMFX_HEADER_SIZE + co_meta_size options) SHMFX_CACHE_LINE_BYTES;
             if security \<noteq> Ok then Some (Inl security, w1)
             else if co_total_size options < payload_offset then Some (Inl QuotaExceeded, w1)
             else case shm_open_excl env name w1 of
                    (Inl e, w2) \<Rightarrow> Some (Inl (errno_to_error e), w2)
                  | (Inr k, w2) \<Rightarrow>
                      let perms = apply_permissions (os_fchmod env)
                      in if perms \<noteq> Ok then Some (Inl perms, snd (shm_unlink env name w2))
                         else case os_ftruncate_fail env of
                                Some e \<Rightarrow> Some (Inl (errno_to_error e), snd (shm_unlink env name w2))
                              | None \<Rightarrow>
                                  let w3 = upd_object k (ob_size_update (\<lambda>_. co_total_size options)) w2
                                  in case os_mmap_fail env name of
                                       Some e \<Rightarrow> Some (Inl (errno_to_error e), snd (shm_unlink env name w3))
                                     | None \<Rightarrow> create_mapped env options payload_offset k w3
           })"

definition destroy :: "os_env \<Rightarrow> string \<Rightarrow> world \<Rightarrow> (VoidResult \<times> world) option" where
  "destroy env name w =
     (case parse_and_validate_name name of
        Inl e \<Rightarrow> Some (e, w)
      | Inr parsed \<Rightarrow>
          (case shm_unlink env name w of
             (Some e, w1) \<Rightarrow> Some (errno_to_error e, w1)
           | (None, w1) \<Rightarrow>
               if name \<noteq> REGISTRY_NAME then do {
                 w2 \<leftarrow> registry_instance env w1;
                 on_registry (unregister name) w2
               }
               else Some (Ok, w1)))"

end
