(* ===== verification/Manager_Janitor.thy ===== *)
theory Manager_Janitor
  imports Shm_Manager
begin

text \<open>
  What a pass of the janitor may change, for every state of the system.
\<close>


section \<open>Frames\<close>

lemma header_upd [simp]:
  "header_at (upd_header k f w) j = (if j = k then f (header_at w k) else header_at w j)"
  "w_names (upd_header k f w) = w_names w" "w_next (upd_header k f w) = w_next w"
  "w_registry (upd_header k f w) = w_registry w" "w_heartbeat (upd_header k f w) = w_heartbeat w"
  "ob_size (w_objects (upd_header k f w) j) = ob_size (w_objects w j)"
  "ob_registry (w_objects (upd_header k f w) j) = ob_registry (w_objects w j)"
  by (simp_all add: upd_header_def upd_object_def header_at_def)

lemma unlink_frame [simp]:
  "header_at (snd (shm_unlink env name w)) = header_at w" "w_objects (snd (shm_unlink env name w)) = w_objects w"
  "w_next (snd (shm_unlink env name w)) = w_next w" "w_registry (snd (shm_unlink env name w)) = w_registry w"
  "w_heartbeat (snd (shm_unlink env name w)) = w_heartbeat w"
  "w_names (snd (shm_unlink env name w)) =
     (if os_unlink_fail env name = None then (w_names w)(name := None) else w_names w)"
  by (auto simp: shm_unlink_def header_at_def[abs_def] domIff split: option.splits)

definition unlocked :: "ShmHeader \<Rightarrow> ShmHeader" where
  "unlocked h = h\<lparr>h_control_mutex := MFree\<rparr>"

text \<open>What operations on the registry leave alone.\<close>

definition registry_frame :: "world \<Rightarrow> world \<Rightarrow> bool" where
  "registry_frame w w' \<longleftrightarrow>
     w_names w' = w_names w \<and> w_next w' = w_next w \<and> w_registry w' = w_registry w \<and>
     w_heartbeat w' = w_heartbeat w \<and>
     (\<forall>k. ob_size (w_objects w' k) = ob_size (w_objects w k) \<and>
          unlocked (header_at w' k) = unlocked (header_at w k))"

lemma put_registry_frame: "registry_frame w (put_registry seg w)"
  by (auto simp: registry_frame_def put_registry_def upd_object_def header_at_def unlocked_def split: option.splits)

lemma on_registry_frame: "on_registry f w = Some (x, w') \<Longrightarrow> registry_frame w w'"
  using put_registry_frame by (auto simp: on_registry_def split: bind_splits)

lemma registry_unregister_frame: "registry_unregister name w = Some w' \<Longrightarrow> registry_frame w w'"
  by (auto simp: registry_unregister_def dest: on_registry_frame)

lemma registry_last_seen_frame: "update_registry_last_seen e now w = Some w' \<Longrightarrow> registry_frame w w'"
  by (auto simp: update_registry_last_seen_def dest: on_registry_frame)

section \<open>The janitor is safe\<close>

text \<open>The parts of a header the janitor never writes.\<close>

definition header_core :: "ShmHeader \<Rightarrow> ShmHeader" where
  "header_core h = h\<lparr>h_state := 0, h_control_mutex := MFree\<rparr>"

lemma header_core_unlocked:
  "unlocked h = unlocked h' \<Longrightarrow> header_core h = header_core h' \<and> h_state h = h_state h'"
  by (cases h; cases h') (simp add: unlocked_def header_core_def)

lemma owner_is_dead_core: "header_core h = header_core h' \<Longrightarrow> owner_is_dead env h now = owner_is_dead env h' now"
  by (cases h; cases h') (simp add: header_core_def owner_is_dead_def)

lemma ref_count_core: "header_core h = header_core h' \<Longrightarrow> h_ref_count h = h_ref_count h'"
  by (cases h; cases h') (simp add: header_core_def)

text \<open>When a segment may lose its name, and how its state may change.\<close>

definition removable :: "os_env \<Rightarrow> u64 \<Rightarrow> string \<Rightarrow> ShmHeader \<Rightarrow> bool" where
  "removable env now name h \<longleftrightarrow>
     (owner_is_dead (os_proc env) h now \<and> h_ref_count h = 0) \<or>
     (\<not> any_process_maps_segment (os_maps env name) name \<and>
      (h_state h = segment_state_code Draining \<or> owner_is_dead (os_proc env) h now))"

definition gc_state_change :: "os_env \<Rightarrow> u64 \<Rightarrow> ShmHeader \<Rightarrow> u32 \<Rightarrow> bool" where
  "gc_state_change env now h s \<longleftrightarrow>
     s = h_state h \<or>
     (owner_is_dead (os_proc env) h now \<and>
      (s = segment_state_code Dead \<and> h_ref_count h = 0 \<or> (h_state h = segment_state_code Active \<and> s = segment_state_code Draining)))"

definition gc_rel :: "os_env \<Rightarrow> u64 \<Rightarrow> world \<Rightarrow> world \<Rightarrow> bool" where
  "gc_rel env now w0 w \<longleftrightarrow>
     w_registry w = w_registry w0 \<and>
     (\<forall>k. header_core (header_at w k) = header_core (header_at w0 k) \<and>
          ob_size (w_objects w k) = ob_size (w_objects w0 k) \<and>
          gc_state_change env now (header_at w0 k) (h_state (header_at w k))) \<and>
     (\<forall>n. w_names w n = w_names w0 n \<or>
          w_names w n = None \<and> (\<exists>k. w_names w0 n = Some k \<and> removable env now n (header_at w0 k)))"

lemma gc_rel_refl: "gc_rel env now w w"
  by (simp add: gc_rel_def gc_state_change_def)

lemma gc_rel_frame: "gc_rel env now w0 w \<Longrightarrow> registry_frame w w' \<Longrightarrow> gc_rel env now w0 w'"
  using header_core_unlocked unfolding gc_rel_def registry_frame_def by metis

lemma gc_rel_mutex: "gc_rel env now w0 w \<Longrightarrow> gc_rel env now w0 (set_mutex k m w)"
  by (simp add: gc_rel_def set_mutex_def header_core_def)

lemma gc_rel_state:
  assumes "gc_rel env now w0 w" "gc_state_change env now (header_at w0 k) (segment_state_code s)"
  shows "gc_rel env now w0 (set_state k s w)"
  using assms by (simp add: gc_rel_def set_state_def header_core_def)

lemma gc_rel_unlink:
  assumes "gc_rel env now w0 w" "w_names w name = Some k" "removable env now name (header_at w0 k)"
  shows "gc_rel env now w0 (snd (shm_unlink env name w))"
proof -
  have "w_names w0 name = Some k"
    using assms(1,2) unfolding gc_rel_def by (metis option.distinct(1))
  then show ?thesis
    using assms(1,3) by (auto simp: gc_rel_def)
qed

lemma gc_rel_dead:
  "gc_rel env now w0 w \<Longrightarrow>
   owner_is_dead (os_proc env) (header_at w k) now = owner_is_dead (os_proc env) (header_at w0 k) now"
  unfolding gc_rel_def by (meson owner_is_dead_core)

lemma gc_rel_refs: "gc_rel env now w0 w \<Longrightarrow> h_ref_count (header_at w k) = h_ref_count (header_at w0 k)"
  unfolding gc_rel_def by (meson ref_count_core)

lemma gc_rel_current_state:
  "gc_rel env now w0 w \<Longrightarrow> gc_state_change env now (header_at w0 k) (h_state (header_at w k))"
  unfolding gc_rel_def by blast

lemma gc_collect_rel:
  assumes "gc_rel env now w0 w" "w_names w name = Some k" "gc_collect env now name k w = Some w'"
  shows "gc_rel env now w0 w'"
proof -
  obtain guard m where g: "guard_lock (h_control_mutex (header_at w k)) = Some (guard, m)"
    using assms(3) by (auto simp: gc_collect_def split: bind_splits)
  let ?w1 = "set_mutex k m w"
  obtain guard1 w2 where w2: "(if g_prior_owner_dead guard
      then case mark_consistent guard m of (_, g, m') \<Rightarrow> (g, set_mutex k m' ?w1) else (guard, ?w1)) = (guard1, w2)"
    by fastforce
  have r1: "gc_rel env now w0 ?w1"
    by (rule gc_rel_mutex [OF assms(1)])
  have r2: "gc_rel env now w0 w2" and n2: "w_names w2 = w_names w"
    using w2 r1 by (auto simp: set_mutex_def split: if_splits prod.splits intro!: gc_rel_mutex [unfolded set_mutex_def])
  show ?thesis
  proof (cases "g_locked guard")
    case False
    then show ?thesis
      using assms(3) r1 by (simp add: gc_collect_def g)
  next
    case True
    obtain w3 where w3: "(if h_ref_count (header_at w2 k) = 0 \<and> owner_is_dead (os_proc env) (header_at w2 k) now
          then registry_unregister name (snd (shm_unlink env name (set_state k Dead w2))) else Some w2) = Some w3"
        "w' = set_mutex k (snd (guard_reset guard1 (h_control_mutex (header_at w3 k)))) w3"
      using assms(3) True w2 by (auto simp: gc_collect_def g split: bind_splits)
    have "gc_rel env now w0 w3"
    proof (cases "h_ref_count (header_at w2 k) = 0 \<and> owner_is_dead (os_proc env) (header_at w2 k) now")
      case True
      then have d: "owner_is_dead (os_proc env) (header_at w0 k) now" "h_ref_count (header_at w0 k) = 0"
        using gc_rel_dead [OF r2] gc_rel_refs [OF r2] by simp_all
      have "gc_rel env now w0 (set_state k Dead w2)"
        using d by (intro gc_rel_state [OF r2]) (simp add: gc_state_change_def)
      then have "gc_rel env now w0 (snd (shm_unlink env name (set_state k Dead w2)))"
        using d n2 assms(2) by (intro gc_rel_unlink [where k = k]) (simp_all add: set_state_def removable_def)
      then show ?thesis
        using w3(1) True by (auto intro: gc_rel_frame dest: registry_unregister_frame)
    next
      case False
      then show ?thesis
        using w3(1) r2 by auto
    qed
    then show ?thesis
      unfolding w3(2) by (rule gc_rel_mutex)
  qed
qed

lemma gc_entry_rel:
  assumes "gc_rel env now w0 w" "gc_entry env now entry w = Some w'"
  shows "gc_rel env now w0 w'"
proof -
  let ?name = "entry_name entry"
  have un: "registry_unregister ?name w = Some w' \<Longrightarrow> ?thesis"
    using assms(1) gc_rel_frame registry_unregister_frame by blast
  show ?thesis
  proof (cases "shm_open env ?name w")
    case (Inl e)
    then show ?thesis
      using assms un by (auto simp: gc_entry_def Let_def split: if_splits)
  next
    case (Inr k)
    then have k: "w_names w ?name = Some k"
      by (auto simp: shm_open_def split: option.splits)
    let ?h = "header_at w k"
    let ?dead = "owner_is_dead (os_proc env) ?h now"
    have "w' = w \<or> registry_unregister ?name w = Some w' \<or> gc_collect env now ?name k w = Some w' \<or>
        ?dead \<and> h_state ?h = segment_state_code Active \<and>
          update_registry_last_seen entry now (set_state k Draining w) = Some w' \<or>
        h_state ?h = segment_state_code Draining \<and> \<not> any_process_maps_segment (os_maps env ?name) ?name \<and>
          registry_unregister ?name (snd (shm_unlink env ?name w)) = Some w'"
      using assms(2) unfolding gc_entry_def Let_def Inr sum.case
      by (elim if_branch) (simp_all only: option.inject simp_thms)
    then consider "w' = w" | "registry_unregister ?name w = Some w'"
      | "gc_collect env now ?name k w = Some w'"
      | "?dead" "h_state ?h = segment_state_code Active"
        "update_registry_last_seen entry now (set_state k Draining w) = Some w'"
      | "h_state ?h = segment_state_code Draining" "\<not> any_process_maps_segment (os_maps env ?name) ?name"
        "registry_unregister ?name (snd (shm_unlink env ?name w)) = Some w'"
      by blast
    then show ?thesis
    proof cases
      case 1
      then show ?thesis
        using assms(1) by simp
    next
      case 2
      then show ?thesis
        by (rule un)
    next
      case 3
      then show ?thesis
        by (rule gc_collect_rel [OF assms(1) k])
    next
      case 4
      have "gc_state_change env now (header_at w0 k) (segment_state_code Draining)"
        using gc_rel_current_state [OF assms(1), of k] 4(1,2) gc_rel_dead [OF assms(1), of k]
        by (auto simp: gc_state_change_def)
      then have "gc_rel env now w0 (set_state k Draining w)"
        by (rule gc_rel_state [OF assms(1)])
      then show ?thesis
        using 4(3) by (blast intro: gc_rel_frame registry_last_seen_frame)
    next
      case 5
      have "removable env now ?name (header_at w0 k)"
        using gc_rel_current_state [OF assms(1), of k] 5(1,2)
        by (auto simp: gc_state_change_def removable_def)
      then have "gc_rel env now w0 (snd (shm_unlink env ?name w))"
        by (rule gc_rel_unlink [OF assms(1) k])
      then show ?thesis
        using 5(3) by (blast intro: gc_rel_frame registry_unregister_frame)
    qed
  qed
qed

lemma gc_loop_rel:
  "gc_rel env now w0 w \<Longrightarrow> gc_loop env now entries w = Some w' \<Longrightarrow> gc_rel env now w0 w'"
proof (induction entries arbitrary: w)
  case (Cons e entries)
  then show ?case
    by (auto split: bind_splits dest: gc_entry_rel)
qed simp

lemma gc_gc_rel:
  assumes "gc env w = Some w'"
  shows "gc_rel env (monotonic_ns (os_clock env 0)) w w'"
proof -
  obtain entries w1 where l: "on_registry (list_entries []) w = Some (entries, w1)"
      "gc_loop env (monotonic_ns (os_clock env 0)) entries w1 = Some w'"
    using assms by (auto simp: gc_def split: bind_splits)
  show ?thesis
    by (rule gc_loop_rel [OF gc_rel_frame [OF gc_rel_refl on_registry_frame [OF l(1)]] l(2)])
qed

end
