(* ===== verification/Manager_World.thy ===== *)
theory Manager_World
  imports Manager_Janitor
begin

text \<open>
  Well-formed states: the registry operations as updates of its table, and what the janitor keeps of a
  segment whose owner lives.
\<close>


section \<open>Well-formed worlds\<close>

definition reg_id :: "world \<Rightarrow> nat" where
  "reg_id w = the (the (w_registry w))"

definition reg_payload :: "world \<Rightarrow> RegistryPayload" where
  "reg_payload w = ob_registry (w_objects w (reg_id w))"

definition set_payload :: "RegistryPayload \<Rightarrow> world \<Rightarrow> world" where
  "set_payload p w = upd_object (reg_id w) (ob_registry_update (\<lambda>_. p)) w"

abbreviation reg_map :: "world \<Rightarrow> string \<Rightarrow> RegistryEntry option" where
  "reg_map w \<equiv> registry_map (reg_payload w)"

text \<open>
  The process has the registry segment open, which no other name reaches; its lock is free and its
  payload well-formed. Names and heartbeats belong to objects that exist, different names to different
  ones.
\<close>

definition world_ok :: "world \<Rightarrow> bool" where
  "world_ok w \<longleftrightarrow>
     w_registry w = Some (Some (reg_id w)) \<and> reg_id w < w_next w \<and>
     h_control_mutex (header_at w (reg_id w)) = MFree \<and> registry_ok (reg_payload w) \<and>
     (\<forall>n k. w_names w n = Some k \<longrightarrow> 0 < k \<and> k < w_next w) \<and>
     (\<forall>n. w_names w n = Some (reg_id w) \<longrightarrow> n = REGISTRY_NAME) \<and>
     (\<forall>m n k. w_names w m = Some k \<and> w_names w n = Some k \<longrightarrow> m = n) \<and> 0 < w_next w \<and>
     (\<forall>a \<in> set (hb_headers (w_heartbeat w)). a < w_next w)"

lemma world_ok_registry: "world_ok w \<Longrightarrow> registry_ok (reg_payload w)"
  by (simp add: world_ok_def)

lemma set_payload_frame [simp]:
  "header_at (set_payload p w) = header_at w" "w_names (set_payload p w) = w_names w"
  "w_next (set_payload p w) = w_next w" "w_registry (set_payload p w) = w_registry w"
  "w_heartbeat (set_payload p w) = w_heartbeat w" "reg_id (set_payload p w) = reg_id w"
  "reg_payload (set_payload p w) = p" "ob_size (w_objects (set_payload p w) k) = ob_size (w_objects w k)"
  by (auto simp: set_payload_def upd_object_def header_at_def fun_eq_iff reg_id_def reg_payload_def)

lemma upd_header_reg [simp]:
  "reg_id (upd_header k f w) = reg_id w" "reg_payload (upd_header k f w) = reg_payload w"
  by (simp_all add: reg_id_def reg_payload_def)

lemma unlink_reg [simp]:
  "reg_id (snd (shm_unlink env name w)) = reg_id w" "reg_payload (snd (shm_unlink env name w)) = reg_payload w"
  by (simp_all add: reg_id_def reg_payload_def)

lemma world_ok_seg: "world_ok w \<Longrightarrow> registry_seg_of w = free_registry (reg_payload w)"
  by (simp add: world_ok_def registry_seg_of_def free_registry_def reg_payload_def)

lemma world_ok_put:
  assumes "world_ok w"
  shows "put_registry (free_registry p) w = set_payload p w"
proof -
  have r: "w_registry w = Some (Some (reg_id w))" and m: "h_control_mutex (ob_header (w_objects w (reg_id w))) = MFree"
    using assms by (simp_all add: world_ok_def header_at_def)
  have "(ob_header (w_objects w (reg_id w)))\<lparr>h_control_mutex := MFree\<rparr> = ob_header (w_objects w (reg_id w))"
    using m by (cases "ob_header (w_objects w (reg_id w))") simp
  then show ?thesis
    by (simp add: put_registry_def free_registry_def r set_payload_def upd_object_def)
qed

lemma on_registry_ok:
  assumes "world_ok w" "f (free_registry (reg_payload w)) = Some (x, free_registry p)"
  shows "on_registry f w = Some (x, set_payload p w)"
  using assms by (simp add: on_registry_def world_ok_seg world_ok_put)

lemma world_ok_set_payload: "world_ok w \<Longrightarrow> registry_ok p \<Longrightarrow> world_ok (set_payload p w)"
  by (simp add: world_ok_def)

lemma world_ok_upd_header:
  assumes "world_ok w" "k \<noteq> reg_id w \<or> h_control_mutex (f (header_at w k)) = MFree"
  shows "world_ok (upd_header k f w)"
  using assms by (auto simp: world_ok_def)

lemma world_ok_unlink: "world_ok w \<Longrightarrow> world_ok (snd (shm_unlink env name w))"
  by (auto simp: world_ok_def)

lemma world_list:
  assumes "world_ok w"
  shows "on_registry (list_entries prefix) w = Some (listed prefix (reg_payload w), w)"
proof -
  have "set_payload (reg_payload w) w = w"
    by (simp add: set_payload_def upd_object_def reg_payload_def)
  then show ?thesis
    using on_registry_ok [where f = "list_entries prefix", OF assms]
      list_free [OF world_ok_registry [OF assms], of prefix] by simp
qed

lemma world_register:
  assumes "world_ok w" "good_entry e"
  obtains (stored) p where "on_registry (register_segment e) w = Some (Ok, set_payload p w)" "registry_ok p"
      "registry_map p = (reg_map w)(entry_key e \<mapsto> strip_seq e)"
    | (full) "on_registry (register_segment e) w = Some (QuotaExceeded, w)"
      "entry_key e \<notin> dom (reg_map w)" "card (dom (reg_map w)) = MAX_REGISTRY_ENTRIES"
proof (rule register_payload_cases [OF world_ok_registry [OF assms(1)] assms(2) refl])
  fix p
  assume "register_payload e (reg_payload w) = (Ok, p)" "registry_ok p"
    "registry_map p = (reg_map w)(entry_key e \<mapsto> strip_seq e)"
  then show thesis
    using on_registry_ok [OF assms(1), of "register_segment e" Ok p] stored by (simp add: register_free)
next
  assume "register_payload e (reg_payload w) = (QuotaExceeded, reg_payload w)"
    "entry_key e \<notin> dom (reg_map w)" "card (dom (reg_map w)) = MAX_REGISTRY_ENTRIES"
  moreover have "set_payload (reg_payload w) w = w"
    by (simp add: set_payload_def upd_object_def reg_payload_def)
  ultimately show thesis
    using on_registry_ok [OF assms(1), of "register_segment e" QuotaExceeded "reg_payload w"] full
    by (simp add: register_free)
qed

lemma world_unregister:
  assumes "world_ok w"
  shows "\<exists>r p. on_registry (unregister name) w = Some (r, set_payload p w) \<and> registry_ok p \<and>
    registry_map p = (reg_map w)(name := None) \<and> (r = Ok \<longleftrightarrow> name \<in> dom (reg_map w))"
proof (rule unregister_payload_cases [OF world_ok_registry [OF assms], of name])
  fix p
  assume "unregister_payload name (reg_payload w) = (Ok, p)" "registry_ok p"
    "registry_map p = (reg_map w)(name := None)" "name \<in> dom (reg_map w)"
  then show ?thesis
    using on_registry_ok [OF assms, of "unregister name" Ok p] by (auto simp: unregister_free)
next
  assume m: "unregister_payload name (reg_payload w) = (NotFound, reg_payload w)" "name \<notin> dom (reg_map w)"
  have "(reg_map w)(name := None) = reg_map w"
    using m(2) by (simp add: fun_upd_idem_iff domIff)
  then show ?thesis
    using m on_registry_ok [OF assms, of "unregister name" NotFound "reg_payload w"] world_ok_registry [OF assms]
    by (auto simp: unregister_free intro!: exI [of _ NotFound] exI [of _ "reg_payload w"])
qed

lemma registry_unregister_ok:
  assumes "world_ok w"
  shows "\<exists>p. registry_unregister name w = Some (set_payload p w) \<and> registry_ok p \<and>
    registry_map p = (reg_map w)(name := None)"
  using world_unregister [OF assms, of name] by (auto simp: registry_unregister_def)

lemma last_seen_ok:
  assumes "world_ok w" "good_entry e"
  shows "\<exists>p. update_registry_last_seen e now w = Some (set_payload p w) \<and> registry_ok p \<and>
    (\<forall>n. n \<noteq> entry_key e \<longrightarrow> registry_map p n = reg_map w n)"
proof -
  let ?e = "e\<lparr>re_last_seen_ns := now\<rparr>"
  have g: "good_entry ?e"
    using assms(2) by (simp add: good_entry_def)
  have "set_payload (reg_payload w) w = w"
    by (simp add: set_payload_def upd_object_def reg_payload_def)
  then show ?thesis
    using world_ok_registry [OF assms(1)]
    by (cases rule: world_register [OF assms(1) g])
      (auto simp: update_registry_last_seen_def intro: exI [of _ "reg_payload w"])
qed

section \<open>The janitor keeps live segments\<close>

text \<open>A segment with a live owner, active, and with a header that fits its size.\<close>

definition live_segment :: "os_env \<Rightarrow> u64 \<Rightarrow> string \<Rightarrow> nat \<Rightarrow> world \<Rightarrow> bool" where
  "live_segment env now n k w \<longleftrightarrow>
     w_names w n = Some k \<and> \<not> owner_is_dead (os_proc env) (header_at w k) now \<and>
     h_state (header_at w k) = segment_state_code Active \<and>
     janitor_header_valid (header_at w k) (ob_size (w_objects w k)) \<and> SHMFX_HEADER_SIZE \<le> ob_size (w_objects w k) \<and>
     os_open_fail env n = None \<and> os_fstat_fail env n = None"

text \<open>What the janitor keeps of it.\<close>

definition keeps_live :: "string \<Rightarrow> nat \<Rightarrow> world \<Rightarrow> world \<Rightarrow> bool" where
  "keeps_live n k w w' \<longleftrightarrow>
     world_ok w' \<and> reg_id w' = reg_id w \<and> w_names w' n = w_names w n \<and> reg_map w' n = reg_map w n \<and>
     header_core (header_at w' k) = header_core (header_at w k) \<and>
     h_state (header_at w' k) = h_state (header_at w k) \<and>
     ob_size (w_objects w' k) = ob_size (w_objects w k)"

lemma keeps_live_refl: "world_ok w \<Longrightarrow> keeps_live n k w w"
  by (simp add: keeps_live_def)

lemma keeps_live_trans: "keeps_live n k w w' \<Longrightarrow> keeps_live n k w' w'' \<Longrightarrow> keeps_live n k w w''"
  by (simp add: keeps_live_def)

lemma janitor_valid_core:
  "header_core h = header_core h' \<Longrightarrow> janitor_header_valid h s = janitor_header_valid h' s"
  by (cases h; cases h') (simp add: header_core_def janitor_header_valid_def)

lemma keeps_live_live:
  assumes "keeps_live n k w w'" "live_segment env now n k w"
  shows "live_segment env now n k w'"
  using assms owner_is_dead_core [of "header_at w' k" "header_at w k" "os_proc env" now]
    janitor_valid_core [of "header_at w' k" "header_at w k" "ob_size (w_objects w k)"]
  by (simp add: keeps_live_def live_segment_def)

lemma keeps_live_payload:
  "world_ok w \<Longrightarrow> registry_ok p \<Longrightarrow> registry_map p n = reg_map w n \<Longrightarrow> keeps_live n k w (set_payload p w)"
  by (simp add: keeps_live_def world_ok_set_payload)

lemma keeps_live_header:
  assumes "world_ok w" "j \<noteq> k" "j \<noteq> reg_id w"
  shows "keeps_live n k w (upd_header j f w)"
  using assms by (simp add: keeps_live_def world_ok_upd_header)

lemma keeps_live_unlink: "world_ok w \<Longrightarrow> m \<noteq> n \<Longrightarrow> keeps_live n k w (snd (shm_unlink env m w))"
  by (simp add: keeps_live_def world_ok_unlink)

lemma keeps_live_unregister:
  assumes "world_ok w" "m \<noteq> n" "registry_unregister m w = Some w'"
  shows "keeps_live n k w w'"
  using registry_unregister_ok [OF assms(1), of m] assms by (auto intro!: keeps_live_payload)

lemma world_ok_other:
  "world_ok w \<Longrightarrow> w_names w n = Some k \<Longrightarrow> w_names w m = Some j \<Longrightarrow> m \<noteq> n \<Longrightarrow> m \<noteq> REGISTRY_NAME \<Longrightarrow>
   j \<noteq> k \<and> j \<noteq> reg_id w"
  unfolding world_ok_def by blast

lemma gc_collect_keeps:
  assumes w: "world_ok w" and j: "j \<noteq> k" "j \<noteq> reg_id w" and m: "m \<noteq> n"
    and gc: "gc_collect env now m j w = Some w'"
  shows "keeps_live n k w w'"
proof -
  have mut: "keeps_live n k v (set_mutex j x v) \<and> keeps_live n k v (set_state j s v)"
    if "keeps_live n k w v" for v x s
    using that j unfolding set_mutex_def set_state_def
    by (auto simp: keeps_live_def intro!: keeps_live_header [unfolded keeps_live_def, THEN conjunct1]
        world_ok_upd_header)
  have mut': "keeps_live n k w (set_mutex j x v)" "keeps_live n k w (set_state j s v)"
    if "keeps_live n k w v" for v x s
    using that mut keeps_live_trans by blast+
  obtain guard x where g: "guard_lock (h_control_mutex (header_at w j)) = Some (guard, x)"
    using gc by (auto simp: gc_collect_def split: bind_splits)
  have k1: "keeps_live n k w (set_mutex j x w)"
    by (rule mut' [OF keeps_live_refl [OF w]])
  obtain guard1 w2 where w2: "(if g_prior_owner_dead guard
      then case mark_consistent guard x of (_, g, m') \<Rightarrow> (g, set_mutex j m' (set_mutex j x w))
      else (guard, set_mutex j x w)) = (guard1, w2)"
    by fastforce
  have k2: "keeps_live n k w w2"
    using w2 k1 mut'(1) [OF k1] by (auto split: if_splits prod.splits)
  show ?thesis
  proof (cases "g_locked guard")
    case False
    then show ?thesis
      using gc k1 by (simp add: gc_collect_def g)
  next
    case True
    obtain w3 where w3: "(if h_ref_count (header_at w2 j) = 0 \<and> owner_is_dead (os_proc env) (header_at w2 j) now
          then registry_unregister m (snd (shm_unlink env m (set_state j Dead w2))) else Some w2) = Some w3"
        "w' = set_mutex j (snd (guard_reset guard1 (h_control_mutex (header_at w3 j)))) w3"
      using gc True w2 by (auto simp: gc_collect_def g split: bind_splits)
    let ?u = "snd (shm_unlink env m (set_state j Dead w2))"
    have ok: "world_ok (set_state j Dead w2)"
      using mut'(2) [OF k2] by (simp add: keeps_live_def)
    have u: "keeps_live n k w ?u"
      using mut'(2) [OF k2] keeps_live_unlink [OF ok m] keeps_live_trans by blast
    then have "registry_unregister m ?u = Some w3 \<Longrightarrow> keeps_live n k w w3"
      using keeps_live_unregister [OF _ m] keeps_live_trans by (auto simp: keeps_live_def)
    then have "keeps_live n k w w3"
      using w3(1) k2 by (auto split: if_splits)
    then show ?thesis
      unfolding w3(2) by (rule mut')
  qed
qed

lemma gc_entry_keeps:
  assumes w: "world_ok w" and live: "live_segment env now n k w" and e: "good_entry entry"
    and gc: "gc_entry env now entry w = Some w'"
  shows "keeps_live n k w w'"
proof (cases "entry_name entry = n")
  case True
  have "shm_open env n w = Inr k"
    using live by (simp add: live_segment_def shm_open_def)
  then have "w' = w"
    using gc live True
    by (auto simp: gc_entry_def live_segment_def Let_def not_less split: if_splits)
  then show ?thesis
    using w by (simp add: keeps_live_refl)
next
  case False
  let ?m = "entry_name entry"
  have un: "registry_unregister ?m v = Some v' \<Longrightarrow> keeps_live n k w v \<Longrightarrow> keeps_live n k w v'" for v v'
    using keeps_live_unregister [OF _ False] keeps_live_trans by (auto simp: keeps_live_def)
  show ?thesis
  proof (cases "?m = [] \<or> ?m = REGISTRY_NAME")
    case True
    then show ?thesis
      using gc w by (auto simp: gc_entry_def keeps_live_refl)
  next
    case proper: False
    show ?thesis
    proof (cases "shm_open env ?m w")
      case (Inl e)
      then show ?thesis
        using gc proper un [OF _ keeps_live_refl [OF w]] w
        by (auto simp: gc_entry_def Let_def keeps_live_refl split: if_splits)
    next
      case (Inr j)
      then have "w_names w ?m = Some j"
        by (auto simp: shm_open_def split: option.splits)
      then have j: "j \<noteq> k" "j \<noteq> reg_id w"
        using world_ok_other [OF w, of n k ?m j] live False proper by (auto simp: live_segment_def)
      have st: "keeps_live n k w (set_state j Draining w)"
        using keeps_live_header [OF w j] by (simp add: set_state_def)
      have "w' = w \<or> registry_unregister ?m w = Some w' \<or> gc_collect env now ?m j w = Some w' \<or>
          update_registry_last_seen entry now (set_state j Draining w) = Some w' \<or>
          registry_unregister ?m (snd (shm_unlink env ?m w)) = Some w'"
        using gc unfolding gc_entry_def Let_def Inr sum.case
        by (elim if_branch) (simp_all only: option.inject simp_thms)
      then consider "w' = w" | "registry_unregister ?m w = Some w'" | "gc_collect env now ?m j w = Some w'"
        | "update_registry_last_seen entry now (set_state j Draining w) = Some w'"
        | "registry_unregister ?m (snd (shm_unlink env ?m w)) = Some w'"
        by blast
      then show ?thesis
      proof cases
        case 1
        then show ?thesis
          using w by (simp add: keeps_live_refl)
      next
        case 2
        then show ?thesis
          using un keeps_live_refl [OF w] by blast
      next
        case 3
        then show ?thesis
          by (rule gc_collect_keeps [OF w j False])
      next
        case 4
        have ok: "world_ok (set_state j Draining w)"
          using st by (simp add: keeps_live_def)
        obtain p where p: "w' = set_payload p (set_state j Draining w)" "registry_ok p"
            "registry_map p n = reg_map (set_state j Draining w) n"
          using last_seen_ok [OF ok e, of now] 4 False by (auto simp: entry_name_def)
        show ?thesis
          using st keeps_live_payload [OF ok p(2,3)] keeps_live_trans unfolding p(1) by blast
      next
        case 5
        then show ?thesis
          using un keeps_live_unlink [OF w False] by blast
      qed
    qed
  qed
qed

lemma gc_loop_keeps:
  "world_ok w \<Longrightarrow> live_segment env now n k w \<Longrightarrow> list_all good_entry es \<Longrightarrow>
   gc_loop env now es w = Some w' \<Longrightarrow> keeps_live n k w w'"
proof (induction es arbitrary: w)
  case (Cons e es)
  then obtain w1 where w1: "gc_entry env now e w = Some w1" "gc_loop env now es w1 = Some w'"
    by (auto split: bind_splits)
  have k: "keeps_live n k w w1"
    using gc_entry_keeps [OF Cons.prems(1,2) _ w1(1)] Cons.prems(3) by simp
  then show ?case
    using Cons.IH [OF _ keeps_live_live [OF k Cons.prems(2)] _ w1(2)] Cons.prems(3) keeps_live_trans
    by (auto simp: keeps_live_def)
qed (simp add: keeps_live_refl)

lemma listed_good: "registry_ok p \<Longrightarrow> list_all good_entry (listed prefix p)"
  by (auto simp: list_all_iff listed_def good_entry_def registry_ok_def payload_shape_def)

lemma gc_keeps_live:
  assumes "world_ok w" "live_segment env (monotonic_ns (os_clock env 0)) n k w" "gc env w = Some w'"
  shows "keeps_live n k w w'"
  using gc_loop_keeps [OF assms(1,2) listed_good [OF world_ok_registry [OF assms(1)]]] assms(3)
  by (simp add: gc_def world_list [OF assms(1)])

end
