(* ===== verification/Manager_Create.thy ===== *)
theory Manager_Create
  imports Manager_World
begin

text \<open>
  Creation: the header of a new segment describes its options and fits its size, and a creation that
  meets no failure adds exactly one segment.
\<close>


section \<open>Headers of new segments\<close>

text \<open>The sizes of accepted options.\<close>

definition options_fit :: "CreateOptions \<Rightarrow> u64 \<Rightarrow> bool" where
  "options_fit opts po \<longleftrightarrow>
     unat (co_total_size opts) \<le> 1073741824 \<and> 256 + unat (co_meta_size opts) \<le> unat po \<and>
     unat po \<le> unat (co_total_size opts)"

lemma payload_offset_fits:
  assumes "validate_create_security opts es = Ok" "unat (co_meta_size opts) < 9223372036854775808"
    and parse: "parse_and_validate_name (co_name opts) = Inr p"
    and po: "po = align_up (SHMFX_HEADER_SIZE + co_meta_size opts) SHMFX_CACHE_LINE_BYTES"
    and le: "\<not> co_total_size opts < po"
  shows "options_fit opts po"
proof -
  have t: "\<not> co_total_size opts < SHMFX_HEADER_SIZE + co_meta_size opts" "\<not> MAX_SEGMENT_SIZE < co_total_size opts"
    using assms(1) by (auto simp: validate_create_security_def parse split: if_splits)
  have m: "unat (SHMFX_HEADER_SIZE + co_meta_size opts) = 256 + unat (co_meta_size opts)"
    using assms(2) unat_add_64 [of SHMFX_HEADER_SIZE "co_meta_size opts"] by (simp add: shm_consts)
  have total: "unat (co_total_size opts) \<le> 1073741824"
    using t(2) by (simp add: shm_consts word_less_nat_alt not_less push_bit_eq_mult)
  have "unat po = (256 + unat (co_meta_size opts) + 63) div 64 * 64"
    using unat_align_up [of 6 "SHMFX_HEADER_SIZE + co_meta_size opts"] assms(2)
    by (simp add: po m) (simp add: shm_consts)
  moreover have "256 + unat (co_meta_size opts) \<le> (256 + unat (co_meta_size opts) + 63) div 64 * 64"
    by linarith
  ultimately show ?thesis
    using total le by (simp add: options_fit_def word_less_nat_alt not_less)
qed

lemma unat_ucast_64_32: "unat (x :: u64) < 4294967296 \<Longrightarrow> unat (ucast x :: u32) = unat x"
  by (simp add: unsigned_ucast_eq take_bit_nat_eq_self)

text \<open>A header describes the segment created with some options.\<close>

definition describes :: "CreateOptions \<Rightarrow> u64 \<Rightarrow> ShmHeader \<Rightarrow> bool" where
  "describes opts po h \<longleftrightarrow>
     h_magic h = SHMFX_MAGIC \<and> h_version_major h = SHMFX_VERSION_MAJOR \<and>
     h_total_size h = co_total_size opts \<and> unat (h_meta_offset h) = 256 \<and>
     unat (h_meta_size h) = unat (co_meta_size opts) \<and> unat (h_payload_offset h) = unat po \<and>
     unat (h_payload_size h) = unat (co_total_size opts) - unat po \<and>
     h_segment_type h = segment_type_code (co_type opts) \<and> h_flags h = co_flags opts OR kDefaultCreateFlags \<and>
     h_name h = copy_name (co_name opts)"

lemma created_header_describes:
  assumes "options_fit opts po"
  shows "describes opts po (created_header env opts po)"
  using assms unat_ucast_64_32 [of po] unat_ucast_64_32 [of "co_meta_size opts"]
  by (simp add: describes_def options_fit_def created_header_def Let_def unat_sub word_le_nat_alt)
    (simp add: shm_consts)

lemma describes_valid:
  assumes "describes opts po h" "options_fit opts po"
  shows "validate_header h (co_total_size opts) = Ok" "janitor_header_valid h (co_total_size opts)"
proof -
  note d = assms(1) [unfolded describes_def] and f = assms(2) [unfolded options_fit_def]
  have me: "unat (ucast (h_meta_offset h) + ucast (h_meta_size h) :: u64) = 256 + unat (co_meta_size opts)"
    using d f by (simp add: unat_add_64)
  have pe: "unat (ucast (h_payload_offset h) + h_payload_size h :: u64) = unat (co_total_size opts)"
    using d f by (simp add: unat_add_64)
  have n: "h_magic h = SHMFX_MAGIC" "h_version_major h = SHMFX_VERSION_MAJOR" "h_total_size h = co_total_size opts"
      "unat (ucast (h_meta_offset h) :: u64) = 256" "unat (ucast (h_payload_offset h) :: u64) = unat po"
    using d by simp_all
  have hs: "unat SHMFX_HEADER_SIZE = 256"
    by (simp add: shm_consts)
  show "validate_header h (co_total_size opts) = Ok" "janitor_header_valid h (co_total_size opts)"
    unfolding validate_header_def janitor_header_valid_def Let_def word_less_nat_alt word_le_nat_alt me pe n hs
    using f by simp_all
qed

section \<open>Creating\<close>

definition calm :: "os_env \<Rightarrow> string \<Rightarrow> bool" where
  "calm env name \<longleftrightarrow>
     os_open_fail env name = None \<and> os_fstat_fail env name = None \<and> os_mmap_fail env name = None \<and>
     os_ftruncate_fail env = None \<and> os_fchmod env = 0 \<and> init_control_mutex (os_mutex env) = Ok"

lemma world_instance: "world_ok w \<Longrightarrow> registry_instance env w = Some w"
  by (simp add: world_ok_def registry_instance_def)

text \<open>The world with a new object under a name.\<close>

definition add_segment :: "string \<Rightarrow> u64 \<Rightarrow> ShmHeader \<Rightarrow> heartbeat \<Rightarrow> world \<Rightarrow> world" where
  "add_segment name sz header hb w =
     w\<lparr>w_names := (w_names w)(name \<mapsto> w_next w), w_next := Suc (w_next w),
       w_objects := (w_objects w)(w_next w := \<lparr>ob_size = sz, ob_header = header, ob_registry = empty_payload\<rparr>),
       w_heartbeat := hb\<rparr>"

lemma add_segment_view:
  assumes "world_ok w"
  shows "header_at (add_segment name sz header hb w) k = (if k = w_next w then header else header_at w k)"
    "ob_size (w_objects (add_segment name sz header hb w) (w_next w)) = sz"
    "w_names (add_segment name sz header hb w) = (w_names w)(name \<mapsto> w_next w)"
    "reg_id (add_segment name sz header hb w) = reg_id w"
    "reg_payload (add_segment name sz header hb w) = reg_payload w"
    "w_next (add_segment name sz header hb w) = Suc (w_next w)"
    "w_heartbeat (add_segment name sz header hb w) = hb"
    "w_registry (add_segment name sz header hb w) = w_registry w"
  using assms by (auto simp: add_segment_def header_at_def reg_id_def reg_payload_def world_ok_def)

lemma add_segment_ok:
  assumes "world_ok w" "name \<notin> dom (w_names w)" "\<forall>a \<in> set (hb_headers hb). a < Suc (w_next w)"
  shows "world_ok (add_segment name sz header hb w)"
  using assms(1) assms(2,3) unfolding world_ok_def add_segment_view [OF assms(1)]
  by (auto simp: domIff less_Suc_eq)

definition new_header :: "os_env \<Rightarrow> ShmHeader \<Rightarrow> ShmHeader" where
  "new_header env h = beat (monotonic_ns (os_clock env 1)) (h\<lparr>h_control_mutex := MFree\<rparr>)"

lemma create_mapped_eq:
  assumes w: "world_ok w" and new: "name \<notin> dom (w_names w)" and c: "init_control_mutex (os_mutex env) = Ok"
    and name: "name = co_name opts" "name \<noteq> REGISTRY_NAME"
    and sign: "sign_header_if_enabled (os_keys env) (created_header env opts po) = (Ok, h)"
    and hb: "hb = add_heartbeat_header (w_next w) (w_heartbeat w)"
    and w': "w' = add_segment name (co_total_size opts) (new_header env h) hb w"
    and handle: "handle = \<lparr>hd_base = w_next w, hd_size = co_total_size opts, hd_fd = True,
      hd_mode = ReadWrite, hd_owner = True\<rparr>"
  shows "create_mapped env opts po (w_next w)
      (w\<lparr>w_names := (w_names w)(name \<mapsto> w_next w), w_next := Suc (w_next w),
         w_objects := (w_objects w)(w_next w :=
           \<lparr>ob_size = co_total_size opts, ob_header = zero_header, ob_registry = empty_payload\<rparr>)\<rparr>) =
    do {
      (registered, w4) \<leftarrow> on_registry (register_segment (created_entry env opts (new_header env h))) w';
      if registered \<noteq> Ok then do {
        (_, w5) \<leftarrow> handle_reset env handle (snd (shm_unlink env name w4));
        Some (Inl registered, w5)
      }
      else Some (Inr handle, w4)
    }"
proof -
  have ok: "world_ok w'"
    unfolding w' hb using w new
    by (intro add_segment_ok) (auto simp: add_heartbeat_header_def Let_def world_ok_def less_Suc_eq)
  let ?w0 = "w\<lparr>w_names := (w_names w)(name \<mapsto> w_next w), w_next := Suc (w_next w),
         w_objects := (w_objects w)(w_next w :=
           \<lparr>ob_size = co_total_size opts, ob_header = zero_header, ob_registry = empty_payload\<rparr>)\<rparr>"
  have w2: "add_heartbeat (w_next w) (monotonic_ns (os_clock env 1))
      (set_mutex (w_next w) MFree (upd_header (w_next w) (\<lambda>_. h) ?w0)) = w'"
    by (simp add: add_heartbeat_def register_heartbeat_owner_def set_mutex_def upd_header_def upd_object_def
        header_at_def w' add_segment_def hb new_header_def)
  have at: "header_at w' (w_next w) = new_header env h"
    using w by (simp add: w' add_segment_view)
  show ?thesis
    using c name(2) unfolding create_mapped_def Let_def sign prod.case name(1) [symmetric] w2 handle
    by (simp add: world_instance [OF ok] at)
qed

lemma create_eq:
  assumes "world_ok w" "parse_and_validate_name (co_name opts) = Inr p"
    and "validate_create_security opts (listed [] (reg_payload w)) = Ok"
    and "po = align_up (SHMFX_HEADER_SIZE + co_meta_size opts) SHMFX_CACHE_LINE_BYTES" "\<not> co_total_size opts < po"
    and "calm env (co_name opts)" "co_name opts \<notin> dom (w_names w)"
  shows "create env opts w = create_mapped env opts po (w_next w)
      (w\<lparr>w_names := (w_names w)(co_name opts \<mapsto> w_next w), w_next := Suc (w_next w),
         w_objects := (w_objects w)(w_next w :=
           \<lparr>ob_size = co_total_size opts, ob_header = zero_header, ob_registry = empty_payload\<rparr>)\<rparr>)"
  using assms(2-7) world_list [OF assms(1), of "[]"]
  by (simp add: create_def Let_def registry_list_def world_instance [OF assms(1)] shm_open_excl_def
      calm_def apply_permissions_def upd_object_def)

lemma create_success:
  assumes w: "world_ok w" and parse: "parse_and_validate_name (co_name opts) = Inr p"
    and sec: "validate_create_security opts (listed [] (reg_payload w)) = Ok"
    and po: "po = align_up (SHMFX_HEADER_SIZE + co_meta_size opts) SHMFX_CACHE_LINE_BYTES" "\<not> co_total_size opts < po"
    and c: "calm env (co_name opts)" and new: "co_name opts \<notin> dom (w_names w)" "co_name opts \<noteq> REGISTRY_NAME"
    and sign: "sign_header_if_enabled (os_keys env) (created_header env opts po) = (Ok, h)"
    and room: "card (dom (reg_map w)) < MAX_REGISTRY_ENTRIES"
  shows "\<exists>w' e. create env opts w =
      Some (Inr \<lparr>hd_base = w_next w, hd_size = co_total_size opts, hd_fd = True, hd_mode = ReadWrite,
                 hd_owner = True\<rparr>, w') \<and>
    world_ok w' \<and> w_names w' = (w_names w)(co_name opts \<mapsto> w_next w) \<and>
    header_at w' (w_next w) = new_header env h \<and> ob_size (w_objects w' (w_next w)) = co_total_size opts \<and>
    (\<forall>k < w_next w. header_at w' k = header_at w k) \<and>
    reg_map w' = (reg_map w)(co_name opts \<mapsto> e) \<and> re_flags e = h_flags h \<and>
    re_segment_type e = segment_type_code (co_type opts) \<and>
    w_next w \<in> set (hb_headers (w_heartbeat w'))"
proof -
  let ?hb = "add_heartbeat_header (w_next w) (w_heartbeat w)"
  let ?w1 = "add_segment (co_name opts) (co_total_size opts) (new_header env h) ?hb w"
  let ?e = "created_entry env opts (new_header env h)"
  have ok: "world_ok ?w1"
    using w new by (intro add_segment_ok) (auto simp: add_heartbeat_header_def Let_def world_ok_def less_Suc_eq)
  have key: "entry_key ?e = co_name opts" "re_name ?e = copy_name (co_name opts)"
    using parse_name_fits [OF parse] by (simp_all add: created_entry_def fixed_name_view_copy_name)
  have good: "good_entry ?e"
    using key parse_name_fits [OF parse] by (simp add: good_entry_def)
  obtain q where q: "on_registry (register_segment ?e) ?w1 = Some (Ok, set_payload q ?w1)" "registry_ok q"
      "registry_map q = (reg_map ?w1)(entry_key ?e \<mapsto> strip_seq ?e)"
    using world_register [OF ok good] room by (metis add_segment_view(5) [OF w] less_irrefl)
  have cr: "create env opts w =
      Some (Inr \<lparr>hd_base = w_next w, hd_size = co_total_size opts, hd_fd = True, hd_mode = ReadWrite,
                 hd_owner = True\<rparr>, set_payload q ?w1)"
    unfolding create_eq [OF w parse sec po c new(1)]
      create_mapped_eq [OF w new(1) c [unfolded calm_def, THEN conjunct2, THEN conjunct2, THEN conjunct2,
          THEN conjunct2, THEN conjunct2] refl new(2) sign refl refl refl] q(1) by simp
  have "re_flags ?e = h_flags h" "re_segment_type ?e = segment_type_code (co_type opts)"
    by (simp_all add: created_entry_def new_header_def beat_def)
  then show ?thesis
    unfolding cr
    by (intro exI [of _ "set_payload q ?w1"] exI [of _ "strip_seq ?e"])
      (use q world_ok_set_payload [OF ok q(2)] key in
        \<open>auto simp: add_segment_view [OF w] strip_seq_def add_heartbeat_header_def Let_def\<close>)
qed

end
