(* ===== verification/Manager_Attach.thy ===== *)
theory Manager_Attach
  imports Manager_Create
begin

text \<open>
  Attaching: the checks, the regions of a handle, and that attaching to a live segment succeeds.
\<close>


section \<open>Attaching\<close>

lemma validate_core: "header_core h = header_core h' \<Longrightarrow> validate_header h s = validate_header h' s"
  by (cases h; cases h') (simp add: header_core_def validate_header_def)

lemma verify_core: "header_core h = header_core h' \<Longrightarrow> verify_header_hmac ks h = verify_header_hmac ks h'"
  by (rule verify_same_immutable) (cases h; cases h'; simp add: header_core_def same_immutable_def)+

lemma fields_core:
  assumes "header_core h = header_core h'"
  shows "h_name h = h_name h'" "h_flags h = h_flags h'" "h_ref_count h = h_ref_count h'"
    "h_meta_offset h = h_meta_offset h'" "h_meta_size h = h_meta_size h'"
    "h_payload_offset h = h_payload_offset h'" "h_payload_size h = h_payload_size h'"
  using assms by (cases h; cases h'; simp add: header_core_def)+

lemma find_listed:
  assumes "registry_ok p" "find (\<lambda>e. entry_key e = name) (listed prefix p) = Some e"
  shows "registry_map p name = Some (strip_seq e)"
proof -
  have e: "e \<in> set (listed prefix p)" "entry_key e = name"
    using assms(2) by (auto simp: find_Some_iff)
  have d: "distinct (map fst (map (\<lambda>e. (entry_key e, strip_seq e)) (listed prefix p)))"
    using listed_names [OF assms(1)] by (simp add: comp_def)
  have "map_of (map (\<lambda>e. (entry_key e, strip_seq e)) (listed prefix p)) name = Some (strip_seq e)"
    using e by (intro map_of_is_SomeI [OF d]) auto
  then show ?thesis
    by (simp add: listed_map [OF assms(1)] split: if_splits)
qed

lemma expects_hmac_ok:
  assumes "world_ok w" "name \<noteq> REGISTRY_NAME"
  shows "\<exists>b. registry_expects_hmac env name w = Some (b, w) \<and>
    (b \<longrightarrow> (\<exists>e. reg_map w name = Some e \<and> re_flags e AND HmacEnabled \<noteq> 0))"
proof -
  have "re_flags (strip_seq e) = re_flags e" for e
    by (simp add: strip_seq_def)
  then show ?thesis
    using assms(2) find_listed [OF world_ok_registry [OF assms(1)], of name name]
    by (auto simp: registry_expects_hmac_def registry_list_def world_instance [OF assms(1)]
        world_list [OF assms(1)] split: option.splits)
qed

text \<open>Attaching to a live segment whose header is valid and signed.\<close>

lemma attach_live:
  assumes w: "world_ok w" and parse: "parse_and_validate_name name = Inr p" and name: "name \<noteq> REGISTRY_NAME"
    and live: "live_segment env (monotonic_ns (os_clock env 0)) name k w" and map: "os_mmap_fail env name = None"
    and gc: "gc env w = Some wg"
    and valid: "validate_header (header_at w k) (ob_size (w_objects w k)) = Ok"
    and hn: "fixed_name_view (h_name (header_at w k)) = name"
    and sign: "verify_header_hmac (os_keys env) (header_at w k) = Ok"
    and flags: "\<And>e. reg_map w name = Some e \<Longrightarrow> re_flags e = h_flags (header_at w k)"
  shows "attach env name mode w =
    Some (Inr \<lparr>hd_base = k, hd_size = ob_size (w_objects w k), hd_fd = True, hd_mode = mode, hd_owner = False\<rparr>,
          if mode = ReadWrite then upd_header k (\<lambda>h. h\<lparr>h_ref_count := h_ref_count h + 1\<rparr>) wg else wg)"
    "keeps_live name k w wg"
proof -
  show kl: "keeps_live name k w wg"
    by (rule gc_keeps_live [OF w live gc])
  note k = kl [unfolded keeps_live_def]
  have core: "header_core (header_at wg k) = header_core (header_at w k)"
    and st: "h_state (header_at wg k) = h_state (header_at w k)"
    and sz: "ob_size (w_objects wg k) = ob_size (w_objects w k)" and okg: "world_ok wg"
    using k by simp_all
  have open': "shm_open env name wg = Inr k"
    using k live by (simp add: live_segment_def shm_open_def)
  have act: "h_state (header_at w k) = segment_state_code Active"
    and fs: "os_fstat_fail env name = None" and big: "\<not> ob_size (w_objects w k) < SHMFX_HEADER_SIZE"
    using live by (simp_all add: live_segment_def not_less)
  obtain b where b: "registry_expects_hmac env name wg = Some (b, wg)"
      "b \<longrightarrow> (\<exists>e. reg_map wg name = Some e \<and> re_flags e AND HmacEnabled \<noteq> 0)"
    using expects_hmac_ok [OF okg name] by blast
  have nf: "b \<Longrightarrow> h_flags (header_at w k) AND HmacEnabled \<noteq> 0"
    using b(2) flags k by auto
  have vg: "validate_header (header_at wg k) (ob_size (w_objects w k)) = Ok"
      "fixed_name_view (h_name (header_at wg k)) = name"
      "verify_header_hmac (os_keys env) (header_at wg k) = Ok"
      "h_flags (header_at wg k) = h_flags (header_at w k)"
    using valid hn sign validate_core [OF core] verify_core [OF core] fields_core [OF core] by simp_all
  have checks: "attach_checks env name b k wg = Ok"
    using vg nf act st sz by (auto simp: attach_checks_def Let_def)
  have ao: "attach_open (registry_expects_hmac env name) env name mode wg =
    Some (Inr \<lparr>hd_base = k, hd_size = ob_size (w_objects w k), hd_fd = True, hd_mode = mode, hd_owner = False\<rparr>,
          if mode = ReadWrite then upd_header k (\<lambda>h. h\<lparr>h_ref_count := h_ref_count h + 1\<rparr>) wg else wg)"
    using fs big map vg act st by (simp add: attach_open_def open' sz b(1) checks)
  show "attach env name mode w =
    Some (Inr \<lparr>hd_base = k, hd_size = ob_size (w_objects w k), hd_fd = True, hd_mode = mode, hd_owner = False\<rparr>,
          if mode = ReadWrite then upd_header k (\<lambda>h. h\<lparr>h_ref_count := h_ref_count h + 1\<rparr>) wg else wg)"
    using name by (simp add: attach_def attach_with_def parse world_instance [OF w] gc ao)
qed

lemma attach_checks_ok:
  assumes "attach_checks env name b k w = Ok"
  shows "validate_header (header_at w k) (ob_size (w_objects w k)) = Ok"
    "fixed_name_view (h_name (header_at w k)) = name" "verify_header_hmac (os_keys env) (header_at w k) = Ok"
    "h_state (header_at w k) \<noteq> segment_state_code Dead"
  using assms by (auto simp: attach_checks_def Let_def split: if_splits)

lemma attach_open_handle:
  assumes "attach_open expects env name mode w = Some (Inr h, w')"
  shows "\<exists>b w1 k. w_names w name = Some k \<and> expects w = Some (b, w1) \<and> attach_checks env name b k w1 = Ok \<and>
    h = \<lparr>hd_base = k, hd_size = ob_size (w_objects w1 k), hd_fd = True, hd_mode = mode, hd_owner = False\<rparr> \<and>
    w' = (if mode = ReadWrite then upd_header k (\<lambda>h. h\<lparr>h_ref_count := h_ref_count h + 1\<rparr>) w1 else w1)"
proof (cases "shm_open env name w")
  case (Inl e)
  then show ?thesis
    using assms by (simp add: attach_open_def)
next
  case (Inr k)
  then have "w_names w name = Some k"
    by (auto simp: shm_open_def split: option.splits)
  then show ?thesis
    using assms Inr attach_checks_ok(4) [of env name _ k]
    by (auto simp: attach_open_def Let_def split: if_splits bind_splits)
qed

lemma attach_handle:
  assumes "attach env name mode w = Some (Inr h, w')"
  shows "\<exists>p wi wg b w1 k. parse_and_validate_name name = Inr p \<and>
    (name \<noteq> REGISTRY_NAME \<longrightarrow> registry_instance env w = Some wi \<and> gc env wi = Some wg) \<and>
    (name = REGISTRY_NAME \<longrightarrow> wg = w) \<and> w_names wg name = Some k \<and>
    registry_expects_hmac env name wg = Some (b, w1) \<and> attach_checks env name b k w1 = Ok \<and>
    h = \<lparr>hd_base = k, hd_size = ob_size (w_objects w1 k), hd_fd = True, hd_mode = mode, hd_owner = False\<rparr> \<and>
    w' = (if mode = ReadWrite then upd_header k (\<lambda>h. h\<lparr>h_ref_count := h_ref_count h + 1\<rparr>) w1 else w1)"
  using assms
  by (auto simp: attach_def attach_with_def split: sum.splits bind_splits if_splits dest!: attach_open_handle)

lemma validate_header_spans:
  assumes "validate_header h s = Ok"
  shows "h_total_size h = s" "256 \<le> unat s" "256 \<le> unat (h_meta_offset h)"
    "unat (h_meta_offset h) + unat (h_meta_size h) \<le> unat (h_payload_offset h)"
    "(unat (h_payload_offset h) + unat (h_payload_size h)) mod 2 ^ 64 \<le> unat s"
    "h_magic h = SHMFX_MAGIC" "h_version_major h = SHMFX_VERSION_MAJOR"
proof -
  let ?me = "ucast (h_meta_offset h) + ucast (h_meta_size h) :: u64"
  let ?pe = "ucast (h_payload_offset h) + h_payload_size h :: u64"
  have hs: "unat SHMFX_HEADER_SIZE = 256"
    by (simp add: shm_consts)
  have me: "unat ?me = unat (h_meta_offset h) + unat (h_meta_size h)"
    using unat_lt_32 [of "h_meta_offset h"] unat_lt_32 [of "h_meta_size h"]
    by (subst unat_add_64) simp_all
  have pe: "unat ?pe = (unat (h_payload_offset h) + unat (h_payload_size h)) mod 2 ^ 64"
    by (simp add: unat_word_ariths)
  have c: "h_magic h = SHMFX_MAGIC" "h_version_major h = SHMFX_VERSION_MAJOR" "h_total_size h = s"
      "\<not> h_total_size h < SHMFX_HEADER_SIZE" "\<not> ucast (h_meta_offset h) < SHMFX_HEADER_SIZE"
      "\<not> ucast (h_payload_offset h) < ?me" "\<not> h_total_size h < ?pe"
    using assms by (auto simp: validate_header_def Let_def split: if_splits)
  show "h_magic h = SHMFX_MAGIC" "h_version_major h = SHMFX_VERSION_MAJOR" "h_total_size h = s"
    using c by simp_all
  show "256 \<le> unat s" "256 \<le> unat (h_meta_offset h)"
    using c(3,4,5) by (simp_all add: word_less_nat_alt hs)
  show "unat (h_meta_offset h) + unat (h_meta_size h) \<le> unat (h_payload_offset h)"
    using c(6) by (simp add: word_less_nat_alt me)
  show "(unat (h_payload_offset h) + unat (h_payload_size h)) mod 2 ^ 64 \<le> unat s"
    using c(7) unfolding c(3) word_less_nat_alt pe by linarith
qed

end
