(* ===== verification/Manager_Release.thy ===== *)
theory Manager_Release
  imports Manager_Attach
begin

text \<open>
  The registry singleton, failures of creation, and the release of the last user.
\<close>


section \<open>Bootstrapping the registry\<close>

definition names_ok :: "world \<Rightarrow> bool" where
  "names_ok w \<longleftrightarrow>
     0 < w_next w \<and> (\<forall>n k. w_names w n = Some k \<longrightarrow> 0 < k \<and> k < w_next w) \<and>
     (\<forall>m n k. w_names w m = Some k \<and> w_names w n = Some k \<longrightarrow> m = n) \<and>
     (\<forall>a \<in> set (hb_headers (w_heartbeat w)). a < w_next w)"

lemma parse_registry_name: "\<exists>p. parse_and_validate_name REGISTRY_NAME = Inr p"
  by (simp add: parse_and_validate_name_def)

lemma registry_header_valid:
  "validate_header (registry_header env) kRegistryTotalSize = Ok"
  "verify_header_hmac ks (registry_header env) = Ok" "fixed_name_view (h_name (registry_header env)) = REGISTRY_NAME"
  "h_state (registry_header env) = segment_state_code Active" "h_control_mutex (registry_header env) = MFree"
proof -
  show "validate_header (registry_header env) kRegistryTotalSize = Ok"
    by (simp add: validate_header_def registry_header_def zero_header_def Let_def RegistryPayload_size)
      (simp add: shm_consts RegistryPayload_size)
  show "verify_header_hmac ks (registry_header env) = Ok"
    by (simp add: verify_header_hmac_def registry_header_def zero_header_def has_hmac_bytes_def list_ex_iff)
      (simp add: shm_consts)
  show "fixed_name_view (h_name (registry_header env)) = REGISTRY_NAME"
    unfolding registry_header_def by (simp add: fixed_name_view_copy_name shm_consts)
  show "h_state (registry_header env) = segment_state_code Active" "h_control_mutex (registry_header env) = MFree"
    by (simp_all add: registry_header_def zero_header_def)
qed

definition add_registry :: "os_env \<Rightarrow> world \<Rightarrow> world" where
  "add_registry env w =
     w\<lparr>w_names := (w_names w)(REGISTRY_NAME \<mapsto> w_next w), w_next := Suc (w_next w),
       w_objects := (w_objects w)(w_next w := \<lparr>ob_size = kRegistryTotalSize, ob_header = registry_header env,
         ob_registry = empty_payload\<rparr>),
       w_registry := Some (Some (w_next w))\<rparr>"

lemma registry_instance_new:
  assumes "w_registry w = None" "REGISTRY_NAME \<notin> dom (w_names w)" "calm env REGISTRY_NAME"
  shows "registry_instance env w = Some (add_registry env w)"
proof -
  have m: "(registry_header env)\<lparr>h_control_mutex := MFree\<rparr> = registry_header env"
    by (simp add: registry_header_def zero_header_def)
  show ?thesis
    using assms
    by (simp add: registry_instance_def create_registry_raw_def shm_open_excl_def calm_def Let_def
        set_mutex_def upd_header_def upd_object_def add_registry_def m)
qed

lemma add_registry_ok:
  assumes "names_ok w" "REGISTRY_NAME \<notin> dom (w_names w)"
  shows "world_ok (add_registry env w)" "reg_map (add_registry env w) = Map.empty"
    "w_names (add_registry env w) = (w_names w)(REGISTRY_NAME \<mapsto> w_next w)"
proof -
  have r: "reg_id (add_registry env w) = w_next w" "reg_payload (add_registry env w) = empty_payload"
      "header_at (add_registry env w) (w_next w) = registry_header env"
    by (simp_all add: add_registry_def reg_id_def reg_payload_def header_at_def)
  show "world_ok (add_registry env w)"
    unfolding world_ok_def r using assms empty_payload_ok(1) registry_header_valid(5) [of env]
    by (auto simp: add_registry_def names_ok_def domIff less_Suc_eq)
  show "reg_map (add_registry env w) = Map.empty"
    by (simp add: r empty_payload_ok(2))
  show "w_names (add_registry env w) = (w_names w)(REGISTRY_NAME \<mapsto> w_next w)"
    by (simp add: add_registry_def)
qed

text \<open>Another process that opens the registry.\<close>

lemma registry_instance_open:
  assumes w: "world_ok w" and n: "w_names w REGISTRY_NAME = Some (reg_id w)"
    and h: "validate_header (header_at w (reg_id w)) (ob_size (w_objects w (reg_id w))) = Ok"
      "fixed_name_view (h_name (header_at w (reg_id w))) = REGISTRY_NAME"
      "verify_header_hmac (os_keys env) (header_at w (reg_id w)) = Ok"
      "h_state (header_at w (reg_id w)) = segment_state_code Active"
    and c: "calm env REGISTRY_NAME"
  shows "registry_instance env (w\<lparr>w_registry := None, w_heartbeat := no_heartbeat\<rparr>) =
    Some (upd_header (reg_id w) (\<lambda>x. x\<lparr>h_ref_count := h_ref_count x + 1\<rparr>) (w\<lparr>w_heartbeat := no_heartbeat\<rparr>))"
proof -
  let ?w = "w\<lparr>w_registry := None, w_heartbeat := no_heartbeat\<rparr>"
  have at: "header_at ?w = header_at w"
    by (simp add: header_at_def fun_eq_iff)
  obtain p where p: "parse_and_validate_name REGISTRY_NAME = Inr p"
    using parse_registry_name by blast
  have raw: "create_registry_raw env ?w = (Inl AlreadyExists, ?w)"
    using c n by (auto simp: create_registry_raw_def shm_open_excl_def calm_def)
  have op: "shm_open env REGISTRY_NAME ?w = Inr (reg_id w)"
    using c n by (simp add: shm_open_def calm_def)
  have big: "\<not> ob_size (w_objects w (reg_id w)) < SHMFX_HEADER_SIZE"
    using validate_header_spans(2) [OF h(1)] by (simp add: word_less_nat_alt shm_consts)
  have ck: "attach_checks env REGISTRY_NAME False (reg_id w) ?w = Ok"
    using h by (simp add: attach_checks_def Let_def at)
  have "attach_open (\<lambda>w. Some (False, w)) env REGISTRY_NAME ReadWrite ?w =
      Some (Inr \<lparr>hd_base = reg_id w, hd_size = ob_size (w_objects w (reg_id w)), hd_fd = True,
                 hd_mode = ReadWrite, hd_owner = False\<rparr>,
            upd_header (reg_id w) (\<lambda>x. x\<lparr>h_ref_count := h_ref_count x + 1\<rparr>) ?w)"
    using c h big by (simp add: attach_open_def op ck calm_def at Let_def)
  moreover have "(upd_header (reg_id w) f ?w)\<lparr>w_registry := Some (Some (reg_id w))\<rparr> =
      upd_header (reg_id w) f (w\<lparr>w_heartbeat := no_heartbeat\<rparr>)" for f
    using w by (cases w) (simp add: upd_header_def upd_object_def world_ok_def)
  ultimately show ?thesis
    by (simp add: registry_instance_def raw attach_with_def p)
qed

section \<open>Failures of creation\<close>

text \<open>What a failed creation leaves of the system: everything but an object without a name.\<close>

definition unchanged :: "world \<Rightarrow> world \<Rightarrow> bool" where
  "unchanged w w' \<longleftrightarrow>
     w_names w' = w_names w \<and> reg_map w' = reg_map w \<and>
     hb_headers (w_heartbeat w') = hb_headers (w_heartbeat w) \<and>
     (\<forall>k < w_next w. header_at w' k = header_at w k \<and> ob_size (w_objects w' k) = ob_size (w_objects w k))"

lemma unchanged_refl [simp]: "unchanged w w"
  by (simp add: unchanged_def)

text \<open>A new object that loses its name again.\<close>

definition new_object :: "string \<Rightarrow> shm_object \<Rightarrow> world \<Rightarrow> world" where
  "new_object name ob w =
     w\<lparr>w_names := (w_names w)(name \<mapsto> w_next w), w_next := Suc (w_next w),
       w_objects := (w_objects w)(w_next w := ob)\<rparr>"

lemma unchanged_new_object:
  assumes "world_ok w" "name \<notin> dom (w_names w)" "os_unlink_fail env name = None"
  shows "unchanged w (snd (shm_unlink env name (new_object name ob w)))"
proof -
  have "(w_names w)(name := None) = w_names w"
    using assms(2) by (simp add: fun_upd_idem_iff domIff)
  moreover have "reg_payload (new_object name ob w) = reg_payload w"
    using assms(1) by (simp add: new_object_def reg_payload_def reg_id_def world_ok_def)
  ultimately show ?thesis
    using assms(3) by (simp add: unchanged_def) (simp add: new_object_def header_at_def)
qed

lemma upd_new_object:
  "upd_object (w_next w) f (new_object name ob w) = new_object name (f ob) w"
  "upd_header (w_next w) g (new_object name ob w) = new_object name (ob_header_update g ob) w"
  by (simp_all add: upd_object_def upd_header_def new_object_def)

lemma heartbeat_add_remove:
  assumes "a \<notin> set (hb_headers hb)"
  shows "hb_headers (unregister_heartbeat_owner a (add_heartbeat_header a hb)) = hb_headers hb"
proof -
  have "filter (\<lambda>x. x \<noteq> a) (hb_headers hb) = hb_headers hb"
    using assms by (auto simp: filter_id_conv)
  then show ?thesis
    using assms by (simp add: unregister_heartbeat_owner_def remove_heartbeat_header_def add_heartbeat_header_def
        Let_def split: option.splits)
qed

lemma register_failure_unchanged:
  assumes w: "world_ok w" and new: "name \<notin> dom (w_names w)" and ul: "os_unlink_fail env name = None"
    and h: "h_state h \<noteq> segment_state_code Draining" and handle: "hd_base handle = w_next w"
      "hd_mode handle = ReadWrite" "hd_owner handle"
    and w1: "w1 = add_segment name sz h (add_heartbeat_header (w_next w) (w_heartbeat w)) w"
    and r: "handle_reset env handle (snd (shm_unlink env name w1)) = Some (x, w')"
  shows "unchanged w w'"
proof -
  let ?u = "snd (shm_unlink env name w1)"
  have pos: "w_next w \<noteq> 0" "w_next w \<notin> set (hb_headers (w_heartbeat w))"
    using w by (auto simp: world_ok_def)
  have nm: "(w_names w)(name := None) = w_names w"
    using new by (simp add: fun_upd_idem_iff domIff)
  have at: "header_at w1 (w_next w) = h"
    using w by (simp add: w1 add_segment_view)
  have rh: "header_at (remove_heartbeat (w_next w) v) = header_at v" "w_objects (remove_heartbeat (w_next w) v) = w_objects v"
      "w_names (remove_heartbeat (w_next w) v) = w_names v" "reg_payload (remove_heartbeat (w_next w) v) = reg_payload v" for v
    by (simp_all add: remove_heartbeat_def header_at_def fun_eq_iff reg_payload_def reg_id_def)
  have w': "w' = upd_header (w_next w) (\<lambda>x. x\<lparr>h_ref_count := h_ref_count x - 1\<rparr>) (remove_heartbeat (w_next w) ?u)"
    using r h handle pos by (simp add: handle_reset_def handle_valid_def Let_def rh at split: if_splits)
  have "hb_headers (w_heartbeat w') = hb_headers (w_heartbeat w)"
    using heartbeat_add_remove [OF pos(2)]
    by (simp add: w' remove_heartbeat_def w1 add_segment_view [OF w])
  moreover have "reg_map w' = reg_map w" "w_names w' = w_names w"
    using ul nm by (simp_all add: w' rh w1 add_segment_view [OF w])
  moreover have "header_at w' k = header_at w k \<and> ob_size (w_objects w' k) = ob_size (w_objects w k)"
    if "k < w_next w" for k
    using that by (simp add: w' rh w1 add_segment_view [OF w]) (simp add: add_segment_def)
  ultimately show ?thesis
    by (simp add: unchanged_def)
qed

lemma signed_state: "sign_header_if_enabled ks h = (Ok, h') \<Longrightarrow> h_state h' = h_state h \<and> h_ref_count h' = h_ref_count h"
  by (drule sign_header_cases(1)) (metis ShmHeader.ext_inject ShmHeader.surjective ShmHeader.update_convs(15))

lemma create_mapped_unchanged:
  assumes w: "world_ok w" and new: "co_name opts \<notin> dom (w_names w)"
    and ul: "os_unlink_fail env (co_name opts) = None" and parse: "parse_and_validate_name (co_name opts) = Inr p"
    and ob: "ob = \<lparr>ob_size = co_total_size opts, ob_header = zero_header, ob_registry = empty_payload\<rparr>"
    and cm: "create_mapped env opts po (w_next w) (new_object (co_name opts) ob w) = Some (Inl e, w')"
  shows "unchanged w w'"
proof -
  obtain e0 h where s: "sign_header_if_enabled (os_keys env) (created_header env opts po) = (e0, h)"
    by fastforce
  show ?thesis
  proof (cases "e0 = Ok \<and> init_control_mutex (os_mutex env) = Ok")
    case False
    then show ?thesis
      using cm unchanged_new_object [OF w new ul]
      by (auto simp: create_mapped_def Let_def s upd_new_object split: if_splits)
  next
    case True
    then have s': "sign_header_if_enabled (os_keys env) (created_header env opts po) = (Ok, h)"
      and mx: "init_control_mutex (os_mutex env) = Ok"
      using s by simp_all
    have reg: "co_name opts \<noteq> REGISTRY_NAME"
      using cm mx by (auto simp: create_mapped_def Let_def s')
    let ?hb = "add_heartbeat_header (w_next w) (w_heartbeat w)"
    let ?w1 = "add_segment (co_name opts) (co_total_size opts) (new_header env h) ?hb w"
    let ?handle = "\<lparr>hd_base = w_next w, hd_size = co_total_size opts, hd_fd = True, hd_mode = ReadWrite, hd_owner = True\<rparr>"
    let ?e = "created_entry env opts (new_header env h)"
    have ok: "world_ok ?w1"
      using w new by (intro add_segment_ok) (auto simp: add_heartbeat_header_def Let_def world_ok_def less_Suc_eq)
    have good: "good_entry ?e"
      using parse_name_fits [OF parse] by (simp add: good_entry_def created_entry_def fixed_name_view_copy_name)
    note eq = create_mapped_eq [OF w new mx refl reg s' refl refl refl]
    have st: "h_state (new_header env h) \<noteq> segment_state_code Draining"
      using signed_state [OF s'] by (simp add: new_header_def beat_def created_header_def Let_def)
    show ?thesis
    proof (rule world_register [OF ok good])
      fix q
      assume "on_registry (register_segment ?e) ?w1 = Some (Ok, set_payload q ?w1)"
      then show ?thesis
        using cm unfolding ob new_object_def eq by simp
    next
      assume "on_registry (register_segment ?e) ?w1 = Some (QuotaExceeded, ?w1)"
      then obtain x where "handle_reset env ?handle (snd (shm_unlink env (co_name opts) ?w1)) = Some (x, w')"
        using cm unfolding ob new_object_def eq by (auto split: bind_splits)
      then show ?thesis
        by (intro register_failure_unchanged [OF w new ul st _ _ _ refl, where handle = ?handle]) simp_all
    qed
  qed
qed

lemma create_unchanged:
  assumes w: "world_ok w" and ul: "os_unlink_fail env (co_name opts) = None"
    and cr: "create env opts w = Some (Inl e, w')"
  shows "unchanged w w'"
proof (cases "parse_and_validate_name (co_name opts)")
  case (Inl e)
  then show ?thesis
    using cr by (simp add: create_def)
next
  case (Inr p)
  let ?po = "align_up (SHMFX_HEADER_SIZE + co_meta_size opts) SHMFX_CACHE_LINE_BYTES"
  have li: "registry_list env [] w = Some (listed [] (reg_payload w), w)"
    by (simp add: registry_list_def world_instance [OF w] world_list [OF w])
  let ?ob = "\<lparr>ob_size = 0, ob_header = zero_header, ob_registry = empty_payload\<rparr>"
  let ?ob' = "\<lparr>ob_size = co_total_size opts, ob_header = zero_header, ob_registry = empty_payload\<rparr>"
  show ?thesis
  proof (cases "shm_open_excl env (co_name opts) w")
    case (Pair r w2)
    show ?thesis
    proof (cases r)
      case (Inl er)
      then have "w2 = w"
        using Pair by (auto simp: shm_open_excl_def split: option.splits if_splits)
      then show ?thesis
        using cr Inr Pair Inl by (auto simp: create_def Let_def li split: if_splits)
    next
      case (Inr k)
      then have k: "k = w_next w" "w2 = new_object (co_name opts) ?ob w" "co_name opts \<notin> dom (w_names w)"
        using Pair by (auto simp: shm_open_excl_def new_object_def split: option.splits if_splits)
      have o: "upd_object (w_next w) (ob_size_update (\<lambda>_. co_total_size opts)) (new_object (co_name opts) ?ob w) =
          new_object (co_name opts) ?ob' w"
        by (simp add: upd_new_object)
      note un = unchanged_new_object [OF w k(3) ul]
      have "unchanged w w'" if "create_mapped env opts ?po (w_next w) (new_object (co_name opts) ?ob' w) = Some (Inl e, w')"
        by (rule create_mapped_unchanged [OF w k(3) ul \<open>parse_and_validate_name (co_name opts) = Inr p\<close> refl that])
      then show ?thesis
        using cr Pair Inr k un
        by (auto simp: create_def Let_def li \<open>parse_and_validate_name (co_name opts) = Inr p\<close> o
            split: if_splits option.splits)
    qed
  qed
qed

section \<open>Releasing\<close>

lemma release_last_owner:
  assumes w: "world_ok w" and h: "handle_valid h" "hd_owner h" "hd_mode h = ReadWrite"
    and name: "handle_name w h = name" "name \<noteq> REGISTRY_NAME" and k: "hd_base h \<noteq> reg_id w"
    and st: "h_state (header_at w (hd_base h)) = segment_state_code Draining"
    and rc: "h_ref_count (header_at w (hd_base h)) = 1" and ul: "os_unlink_fail env name = None"
  shows "\<exists>w'. handle_reset env h w = Some (empty_handle, w') \<and> world_ok w' \<and>
    h_state (header_at w' (hd_base h)) = segment_state_code Dead \<and> h_ref_count (header_at w' (hd_base h)) = 0 \<and>
    w_names w' = (w_names w)(name := None) \<and> reg_map w' = (reg_map w)(name := None) \<and>
    hd_base h \<notin> set (hb_headers (w_heartbeat w'))"
proof -
  let ?k = "hd_base h"
  let ?w1 = "remove_heartbeat ?k w"
  let ?w2 = "upd_header ?k (\<lambda>x. x\<lparr>h_ref_count := h_ref_count x - 1\<rparr>) ?w1"
  let ?w3 = "snd (shm_unlink env name (set_state ?k Dead ?w2))"
  have rh: "header_at ?w1 = header_at w" "reg_id ?w1 = reg_id w" "reg_payload ?w1 = reg_payload w" "w_names ?w1 = w_names w"
    by (simp_all add: remove_heartbeat_def header_at_def fun_eq_iff reg_payload_def reg_id_def)
  have hb: "set (hb_headers (w_heartbeat ?w1)) \<subseteq> set (hb_headers (w_heartbeat w)) - {?k}"
    by (auto simp: remove_heartbeat_def unregister_heartbeat_owner_def remove_heartbeat_header_def Let_def
        split: option.splits if_splits)
  have "world_ok ?w1"
    using w hb unfolding world_ok_def rh by (auto simp: remove_heartbeat_def)
  then have ok: "world_ok ?w3"
    using k by (intro world_ok_unlink) (simp add: set_state_def world_ok_upd_header rh)
  obtain p where p: "registry_unregister name ?w3 = Some (set_payload p ?w3)" "registry_ok p"
      "registry_map p = (reg_map ?w3)(name := None)"
    using registry_unregister_ok [OF ok] by blast
  have "handle_reset env h w = Some (empty_handle, set_payload p ?w3)"
    using h name st rc by (simp add: handle_reset_def Let_def rh world_instance [OF ok] p(1))
  then show ?thesis
    using p ul st rc hb world_ok_set_payload [OF ok p(2)]
    by (auto simp: set_state_def rh)
qed

end
