(* ===== verification/Shm_Sync.thy ===== *)
theory Shm_Sync
  imports Shm_Header
begin

text \<open>
  \<^verbatim>\<open>shm_sync.h\<close> and \<^verbatim>\<open>shm_sync.cpp\<close>: the atomic accesses to 64-bit storage fields and the adaptive
  backoff. An atomic access is one step on the stored value; that a weak compare-exchange may fail
  although the values agree is an input of the operation.
\<close>

section \<open>Atomic accesses\<close>

definition CACHE_LINE_SIZE :: u64 where [shm_consts]: "CACHE_LINE_SIZE = SHMFX_CACHE_LINE_BYTES"

definition sizeof_RingCursor :: u64 where [shm_consts]: "sizeof_RingCursor = CACHE_LINE_SIZE"

definition sizeof_RingSlotHeader :: u64 where [shm_consts]: "sizeof_RingSlotHeader = 8"

definition atomic_load_u64 :: "nat \<Rightarrow> u8 list \<Rightarrow> u64" where
  "atomic_load_u64 off m = load_le off 8 m"

definition atomic_store_u64 :: "nat \<Rightarrow> u64 \<Rightarrow> u8 list \<Rightarrow> u8 list" where
  "atomic_store_u64 off v m = store_le off 8 v m"

text \<open>The value observed before the addition, and the new storage value.\<close>

definition atomic_fetch_add_u64 :: "u64 \<Rightarrow> u64 \<Rightarrow> u64 \<times> u64" where
  "atomic_fetch_add_u64 storage v = (storage, storage + v)"

text \<open>
  Success flag, expected value afterwards (the observed one on failure) and memory. \<open>spurious\<close>
  is the weak operation's licence to fail.
\<close>

definition atomic_compare_exchange_weak_u64 ::
  "bool \<Rightarrow> nat \<Rightarrow> u64 \<Rightarrow> u64 \<Rightarrow> u8 list \<Rightarrow> bool \<times> u64 \<times> u8 list" where
  "atomic_compare_exchange_weak_u64 spurious off expected desired m =
     (let old = atomic_load_u64 off m
      in if old = expected \<and> \<not> spurious then (True, expected, atomic_store_u64 off desired m)
         else (False, old, m))"

section \<open>Adaptive backoff\<close>

record AdaptiveBackoff =
  spin_count :: u32

datatype idle_action = CpuRelax | Yield | SleepMicros nat

definition backoff_reset :: "AdaptiveBackoff \<Rightarrow> AdaptiveBackoff" where
  "backoff_reset b = b\<lparr>spin_count := 0\<rparr>"

definition backoff_idle :: "AdaptiveBackoff \<Rightarrow> idle_action \<times> AdaptiveBackoff" where
  "backoff_idle b =
     (let c = spin_count b + 1; b' = b\<lparr>spin_count := c\<rparr>
      in if c < 64 then (CpuRelax, b')
         else if c < 512 then (Yield, b')
         else (SleepMicros 200, b'))"

definition backoff_count :: "AdaptiveBackoff \<Rightarrow> u32" where
  "backoff_count b = spin_count b"

lemma backoff_iterate:
  "backoff_count (((snd \<circ> backoff_idle) ^^ n) (backoff_reset b)) = of_nat n"
  by (induction n) (simp_all add: backoff_reset_def backoff_idle_def backoff_count_def Let_def)

text \<open>
  The phases of the backoff: of the consecutive idle calls after a reset, the first 63 relax the
  processor, the next 448 yield and all later ones sleep for 200 microseconds, until the 32-bit
  counter wraps and the phases start again.
\<close>

theorem backoff_phases:
  "fst (backoff_idle (((snd \<circ> backoff_idle) ^^ n) (backoff_reset b))) =
     (let k = Suc n mod 2 ^ 32
      in if k < 64 then CpuRelax else if k < 512 then Yield else SleepMicros 200)"
proof -
  have c: "spin_count (((snd \<circ> backoff_idle) ^^ n) (backoff_reset b)) + 1 = of_nat (Suc n)"
    using backoff_iterate [of n b] by (simp add: backoff_count_def)
  have u: "unat (of_nat (Suc n) :: u32) = Suc n mod 2 ^ 32"
    by (simp add: unat_of_nat del: of_nat_Suc)
  have "((of_nat (Suc n) :: u32) < 64) = (Suc n mod 2 ^ 32 < 64)"
    and "((of_nat (Suc n) :: u32) < 512) = (Suc n mod 2 ^ 32 < 512)"
    unfolding word_less_nat_alt u by simp_all
  then show ?thesis
    unfolding backoff_idle_def c Let_def by (simp del: of_nat_Suc)
qed

end
