(* ===== verification/Shm_Ring.thy ===== *)
theory Shm_Ring
  imports Shm_Sync
begin

text \<open>
  The bounded record ring of \<^verbatim>\<open>shm_ring.h\<close> and \<^verbatim>\<open>shm_ring.cpp\<close>, on the bytes of the payload region:
  two cursors, one sequence word per slot, then the record slots. The definitions follow the code
  access by access; the layout lemmas show that the regions are disjoint and inside the payload, and
  give the read-after-write laws of the cells.
\<close>

section \<open>Constants, record header and view\<close>

definition RING_PRODUCER_MPSC :: u32 where [shm_consts]: "RING_PRODUCER_MPSC = 2"
definition RING_CONSUMER_SINGLE :: u32 where [shm_consts]: "RING_CONSUMER_SINGLE = 1"
definition RECORD_FLAG_TRUNCATED :: u16 where [shm_consts]: "RECORD_FLAG_TRUNCATED = push_bit 0 1"

record RingRecordHeader =
  rr_len :: u32
  rr_type :: u16
  rr_flags :: u16
  rr_user :: u64

definition sizeof_RingRecordHeader :: u64 where [shm_consts]: "sizeof_RingRecordHeader = 16"
definition alignof_RingRecordHeader :: u64 where [shm_consts]: "alignof_RingRecordHeader = 8"

record PoppedRecord =
  pr_type :: u16
  pr_flags :: u16
  pr_user :: u64
  pr_payload_size :: u32
  pr_copied_size :: u32

text \<open>A span is its address and the bytes it refers to.\<close>

record byte_span =
  sp_data :: u64
  sp_bytes :: "u8 list"

text \<open>
  The view holds a pointer to the metadata (\<open>None\<close> is the null pointer) and the payload span; the
  storage both refer to is part of the model's value.
\<close>

record MpscRing =
  mr_meta :: "RecordRingMeta option"
  mr_payload :: byte_span

section \<open>Layout functions\<close>

definition kRecordAreaAlign :: u64 where
  [shm_consts]: "kRecordAreaAlign = alignof_RingRecordHeader"

definition payload_aligned :: "byte_span \<Rightarrow> bool" where
  "payload_aligned payload \<longleftrightarrow> sp_data payload mod CACHE_LINE_SIZE = 0"

definition slot_meta_offset :: u64 where
  [shm_layout]: "slot_meta_offset = sizeof_RingCursor * 2"

definition record_area_offset :: "u32 \<Rightarrow> u64" where
  "record_area_offset rmax =
     align_up (slot_meta_offset + sizeof_RingSlotHeader * ucast rmax) kRecordAreaAlign"

definition head_cursor :: nat where [shm_layout]: "head_cursor = 0"

definition tail_cursor :: nat where [shm_layout]: "tail_cursor = unat sizeof_RingCursor"

definition valid_meta :: "RecordRingMeta \<Rightarrow> bool" where
  "valid_meta meta \<longleftrightarrow>
     record_max meta \<noteq> 0 \<and> record_stride meta \<ge> ucast sizeof_RingRecordHeader \<and>
     producer_mode meta = RING_PRODUCER_MPSC \<and> consumer_mode meta = RING_CONSUMER_SINGLE"

definition record_stride_for :: "u32 \<Rightarrow> u32" where
  "record_stride_for max_payload =
     ucast (align_up (sizeof_RingRecordHeader + ucast max_payload) CACHE_LINE_SIZE)"

definition payload_size_for :: "u32 \<Rightarrow> u32 \<Rightarrow> u64" where
  "payload_size_for rmax stride =
     (if rmax = 0 \<or> stride < ucast sizeof_RingRecordHeader then 0
      else record_area_offset rmax + ucast rmax * ucast stride)"

text \<open>Addresses of a slot's sequence word and record, as offsets into the payload.\<close>

definition slot_header :: "u64 \<Rightarrow> nat" where
  "slot_header index = unat slot_meta_offset + unat sizeof_RingSlotHeader * unat index"

definition record_bytes :: "RecordRingMeta \<Rightarrow> u64 \<Rightarrow> nat" where
  "record_bytes meta index =
     unat (record_area_offset (record_max meta) + index * ucast (record_stride meta))"

section \<open>Creating a view\<close>

definition init_slots :: "u32 \<Rightarrow> u8 list \<Rightarrow> u8 list" where
  "init_slots rmax m =
     fold (\<lambda>i. atomic_store_u64 (slot_header (of_nat i)) (of_nat i)) [0..<unat rmax] m"

definition span_first :: "nat \<Rightarrow> byte_span \<Rightarrow> byte_span" where
  "span_first n sp = sp\<lparr>sp_bytes := take n (sp_bytes sp)\<rparr>"

definition ring_initialize :: "byte_span \<Rightarrow> u32 \<Rightarrow> u32 \<Rightarrow> MpscRing Result" where
  "ring_initialize payload rmax max_payload =
     (let stride = record_stride_for max_payload;
          required = payload_size_for rmax stride
      in if required = 0 \<or> length (sp_bytes payload) < unat required \<or> \<not> payload_aligned payload
         then Inl CorruptedHeader
         else
           let meta = \<lparr>record_max = rmax, record_stride = stride,
                       producer_mode = RING_PRODUCER_MPSC, consumer_mode = RING_CONSUMER_SINGLE,
                       lost_count = 0\<rparr>;
               m0 = store_bytes 0 (replicate (unat required) 0) (sp_bytes payload);
               m1 = atomic_store_u64 head_cursor 0 m0;
               m2 = atomic_store_u64 tail_cursor 0 m1;
               m3 = init_slots rmax m2
           in Inr \<lparr>mr_meta = Some meta,
                   mr_payload = span_first (unat required) (payload\<lparr>sp_bytes := m3\<rparr>)\<rparr>)"

definition ring_bind :: "RecordRingMeta \<Rightarrow> byte_span \<Rightarrow> MpscRing Result" where
  "ring_bind meta payload =
     (if \<not> valid_meta meta \<or> \<not> payload_aligned payload then Inl CorruptedHeader
      else
        let required = payload_size_for (record_max meta) (record_stride meta)
        in if required = 0 \<or> length (sp_bytes payload) < unat required then Inl CorruptedHeader
           else Inr \<lparr>mr_meta = Some meta, mr_payload = span_first (unat required) payload\<rparr>)"

definition ring_lost_count :: "MpscRing \<Rightarrow> u64" where
  "ring_lost_count r = (case mr_meta r of None \<Rightarrow> 0 | Some meta \<Rightarrow> lost_count meta)"

section \<open>Push\<close>

text \<open>The signed difference of two positions, read as two's complement 64-bit integers.\<close>

definition seq_diff :: "u64 \<Rightarrow> u64 \<Rightarrow> int" where
  "seq_diff s pos = sint s - sint pos"

text \<open>
  The claim loop with its remaining retry budget: the claimed position, or a failure. \<open>weak k\<close> says
  whether the compare-exchange spuriously fails when \<open>k\<close> retries remain after this one.
\<close>

fun claim_loop ::
  "(nat \<Rightarrow> bool) \<Rightarrow> RecordRingMeta \<Rightarrow> nat \<Rightarrow> u64 \<Rightarrow> u8 list \<Rightarrow> u64 option \<times> u8 list" where
  "claim_loop weak meta 0 pos m = (None, m)"
| "claim_loop weak meta (Suc k) pos m =
     (let s = atomic_load_u64 (slot_header (pos mod ucast (record_max meta))) m;
          diff = seq_diff s pos
      in if diff = 0 then
           (case atomic_compare_exchange_weak_u64 (weak k) tail_cursor pos (pos + 1) m of
              (True, _, m') \<Rightarrow> (Some pos, m')
            | (False, expected, m') \<Rightarrow> claim_loop weak meta k expected m')
         else if diff < 0 then (None, m)
         else claim_loop weak meta k (atomic_load_u64 tail_cursor m) m)"

definition bump_lost :: "MpscRing \<Rightarrow> MpscRing" where
  "bump_lost r =
     r\<lparr>mr_meta := map_option
         (\<lambda>meta. meta\<lparr>lost_count := snd (atomic_fetch_add_u64 (lost_count meta) 1)\<rparr>) (mr_meta r)\<rparr>"

definition max_payload_of :: "RecordRingMeta \<Rightarrow> u32" where
  "max_payload_of meta = record_stride meta - ucast sizeof_RingRecordHeader"

definition written_size :: "RecordRingMeta \<Rightarrow> u8 list \<Rightarrow> u32" where
  "written_size meta payload = of_nat (min (length payload) (unat (max_payload_of meta)))"

definition stored_flags :: "RecordRingMeta \<Rightarrow> u16 \<Rightarrow> u8 list \<Rightarrow> u16" where
  "stored_flags meta flags payload =
     (if length payload > unat (max_payload_of meta) then flags OR RECORD_FLAG_TRUNCATED
      else flags)"

definition write_record_header ::
  "RecordRingMeta \<Rightarrow> u64 \<Rightarrow> u16 \<Rightarrow> u16 \<Rightarrow> u64 \<Rightarrow> u8 list \<Rightarrow> u8 list \<Rightarrow> u8 list" where
  "write_record_header meta pos type flags user payload m =
     (let record = record_bytes meta (pos mod ucast (record_max meta));
          m1 = store_le record 4 (written_size meta payload) m;
          m2 = store_le (record + 4) 2 type m1;
          m3 = store_le (record + 6) 2 (stored_flags meta flags payload) m2
      in store_le (record + 8) 8 user m3)"

definition write_record_body ::
  "RecordRingMeta \<Rightarrow> u64 \<Rightarrow> u8 list \<Rightarrow> u8 list \<Rightarrow> u8 list" where
  "write_record_body meta pos payload m =
     store_bytes (record_bytes meta (pos mod ucast (record_max meta)) + 16)
       (take (unat (written_size meta payload)) payload) m"

definition write_record ::
  "RecordRingMeta \<Rightarrow> u64 \<Rightarrow> u16 \<Rightarrow> u16 \<Rightarrow> u64 \<Rightarrow> u8 list \<Rightarrow> u8 list \<Rightarrow> u8 list" where
  "write_record meta pos type flags user payload m =
     write_record_body meta pos payload (write_record_header meta pos type flags user payload m)"

definition set_bytes :: "u8 list \<Rightarrow> MpscRing \<Rightarrow> MpscRing" where
  "set_bytes m r = r\<lparr>mr_payload := (mr_payload r)\<lparr>sp_bytes := m\<rparr>\<rparr>"

definition ring_bytes :: "MpscRing \<Rightarrow> u8 list" where
  "ring_bytes r = sp_bytes (mr_payload r)"

definition try_push ::
  "(nat \<Rightarrow> bool) \<Rightarrow> u16 \<Rightarrow> u16 \<Rightarrow> u64 \<Rightarrow> u8 list \<Rightarrow> MpscRing \<Rightarrow> VoidResult \<times> MpscRing" where
  "try_push weak type flags user payload r =
     (case mr_meta r of
        None \<Rightarrow> (CorruptedHeader, r)
      | Some meta \<Rightarrow>
          if \<not> valid_meta meta then (CorruptedHeader, r)
          else
            let m = ring_bytes r;
                pos0 = atomic_load_u64 tail_cursor m
            in case claim_loop weak meta MPSC_CAS_RETRY_BUDGET pos0 m of
                 (None, m') \<Rightarrow> (RingFull, bump_lost (set_bytes m' r))
               | (Some pos, m') \<Rightarrow>
                   let m'' = write_record meta pos type flags user payload m'
                   in (Ok, set_bytes
                         (atomic_store_u64 (slot_header (pos mod ucast (record_max meta)))
                            (pos + 1) m'') r))"

section \<open>Pop\<close>

text \<open>What the copying part of \<^verbatim>\<open>try_pop\<close> reads from the slot of \<open>pos\<close>.\<close>

definition copy_record ::
  "RecordRingMeta \<Rightarrow> u64 \<Rightarrow> u8 list \<Rightarrow> u8 list \<Rightarrow> u8 list \<times> PoppedRecord" where
  "copy_record meta pos out_payload m =
     (let record = record_bytes meta (pos mod ucast (record_max meta));
          psize = min (load_le record 4 m) (max_payload_of meta) :: u32;
          copied = of_nat (min (length out_payload) (unat psize)) :: u32
      in (store_bytes 0 (load_bytes (record + 16) (unat copied) m) out_payload,
          \<lparr>pr_type = load_le (record + 4) 2 m, pr_flags = load_le (record + 6) 2 m,
           pr_user = load_le (record + 8) 8 m, pr_payload_size = psize, pr_copied_size = copied\<rparr>))"

text \<open>
  \<open>None\<close> is the result false, which changes nothing; otherwise the caller's buffer, the metadata of
  the record and the ring afterwards.
\<close>

definition try_pop :: "u8 list \<Rightarrow> MpscRing \<Rightarrow> (u8 list \<times> PoppedRecord \<times> MpscRing) option" where
  "try_pop out_payload r =
     (case mr_meta r of
        None \<Rightarrow> None
      | Some meta \<Rightarrow>
          if \<not> valid_meta meta then None
          else
            let m = ring_bytes r;
                pos = atomic_load_u64 head_cursor m;
                index = pos mod ucast (record_max meta);
                s = atomic_load_u64 (slot_header index) m
            in if s \<noteq> pos + 1 then None
               else
                 case copy_record meta pos out_payload m of
                   (out', popped) \<Rightarrow>
                     let m1 = atomic_store_u64 (slot_header index) (pos + ucast (record_max meta)) m;
                         m2 = atomic_store_u64 head_cursor (pos + 1) m1
                     in Some (out', popped, set_bytes m2 r))"

section \<open>Draining\<close>

text \<open>
  The callback has a state of its own and says whether to go on. The result is the number of records
  popped, the scratch buffer, the callback's state and the ring.
\<close>

fun drain_batch ::
  "('s \<Rightarrow> PoppedRecord \<Rightarrow> u8 list \<Rightarrow> bool \<times> 's) \<Rightarrow> nat \<Rightarrow> u8 list \<Rightarrow> 's \<Rightarrow> MpscRing \<Rightarrow>
     nat \<times> u8 list \<times> 's \<times> MpscRing" where
  "drain_batch callback 0 scratch s r = (0, scratch, s, r)"
| "drain_batch callback (Suc n) scratch s r =
     (case try_pop scratch r of
        None \<Rightarrow> (0, scratch, s, r)
      | Some (scratch', record, r') \<Rightarrow>
          (case callback s record (take (unat (pr_copied_size record)) scratch') of
             (False, s') \<Rightarrow> (1, scratch', s', r')
           | (True, s') \<Rightarrow>
               (case drain_batch callback n scratch' s' r' of
                  (drained, rest) \<Rightarrow> (Suc drained, rest))))"

end
