(* ===== verification/Ring_Layout.thy ===== *)
theory Ring_Layout
  imports Shm_Ring
begin

text \<open>
  Where the cells of a ring are. The word arithmetic of the layout functions is exact whenever the
  layout size fits 64 bits, which every stride computed by the library guarantees; the two cursors,
  the sequence words and the record slots are then disjoint ranges inside the payload, and each cell
  reads back what was last stored in it.
\<close>

section \<open>Layout\<close>

abbreviation slot_count :: "RecordRingMeta \<Rightarrow> nat" where
  "slot_count meta \<equiv> unat (record_max meta)"

abbreviation slot_bytes :: "RecordRingMeta \<Rightarrow> nat" where
  "slot_bytes meta \<equiv> unat (record_stride meta)"

definition layout_size :: "nat \<Rightarrow> nat \<Rightarrow> nat" where
  "layout_size n s = 128 + 8 * n + n * s"

lemma unat_slot_meta_offset: "unat slot_meta_offset = 128"
  by (simp add: shm_consts shm_layout)

lemma unat_record_area_offset: "unat (record_area_offset rmax) = 128 + 8 * unat rmax"
proof -
  let ?v = "slot_meta_offset + sizeof_RingSlotHeader * ucast rmax :: u64"
  note b = unat_lt_32 [of rmax]
  have p: "unat (sizeof_RingSlotHeader * ucast rmax) = 8 * unat rmax"
    using b by (subst unat_mult_64) (simp_all add: shm_consts)
  have v: "unat ?v = 128 + 8 * unat rmax"
    using b by (subst unat_add_64) (simp_all add: p unat_slot_meta_offset)
  have "unat (align_up ?v (2 ^ 3)) = ((unat ?v + 2 ^ 3 - 1) div 2 ^ 3) * 2 ^ 3"
    using b by (intro unat_align_up) (simp_all add: v)
  moreover have "(kRecordAreaAlign :: u64) = 2 ^ 3"
    by (simp add: shm_consts)
  ultimately show ?thesis
    unfolding record_area_offset_def v by simp
qed

lemma unat_payload_size_for:
  assumes "rmax \<noteq> 0" "16 \<le> stride" "layout_size (unat rmax) (unat stride) < 2 ^ 64"
  shows "unat (payload_size_for rmax stride) = layout_size (unat rmax) (unat stride)"
proof -
  have "unat (ucast rmax * ucast stride :: u64) = unat rmax * unat stride"
    using assms(3) by (subst unat_mult_64) (simp_all add: layout_size_def)
  moreover have "\<not> stride < ucast sizeof_RingRecordHeader"
    using assms(2) by (simp add: shm_consts)
  ultimately show ?thesis
    using assms(1,3)
    by (simp add: payload_size_for_def layout_size_def)
       (subst unat_add_64; simp add: unat_record_area_offset)
qed

text \<open>
  A stride computed by the library leaves room: with it the size never overflows.
\<close>

lemma layout_size_no_overflow:
  assumes "unat (stride :: u32) \<le> 4294967232"
  shows "layout_size (unat (rmax :: u32)) (unat stride) < 2 ^ 64"
proof -
  have "unat rmax * (8 + unat stride) \<le> 4294967295 * 4294967240"
    using unat_lt_32 [of rmax] assms by (intro mult_le_mono) simp_all
  then show ?thesis
    by (simp add: layout_size_def algebra_simps)
qed

lemma unat_record_stride_for:
  assumes "unat mp + 16 \<le> 4294967232"
  shows "unat (record_stride_for mp) = ((unat mp + 79) div 64) * 64"
proof -
  let ?v = "sizeof_RingRecordHeader + ucast mp :: u64"
  have v: "unat ?v = unat mp + 16"
    using assms by (subst unat_add_64) (simp_all add: shm_consts)
  have "unat (align_up ?v (2 ^ 6)) = ((unat ?v + 2 ^ 6 - 1) div 2 ^ 6) * 2 ^ 6"
    using assms by (intro unat_align_up) (simp_all add: v)
  moreover have "(CACHE_LINE_SIZE :: u64) = 2 ^ 6"
    by (simp add: shm_consts)
  ultimately have a: "unat (align_up ?v CACHE_LINE_SIZE) = ((unat mp + 79) div 64) * 64"
    by (simp add: v)
  have "((unat mp + 79) div 64) * 64 \<le> unat mp + 79"
    by (rule div_times_less_eq_dividend)
  then have "((unat mp + 79) div 64) * 64 < 2 ^ 32"
    using assms by simp
  then show ?thesis
    unfolding record_stride_for_def unsigned_ucast_eq a by (simp add: take_bit_nat_eq_self)
qed

lemma record_stride_for_bounds:
  assumes "unat mp + 16 \<le> 4294967232"
  shows "unat mp + 16 \<le> unat (record_stride_for mp)"
    and "unat (record_stride_for mp) \<le> 4294967232"
    and "unat (record_stride_for mp) < unat mp + 80"
    and "64 dvd unat (record_stride_for mp)"
proof -
  let ?q = "(unat mp + 79) div 64"
  have lo: "?q * 64 \<le> unat mp + 79" and hi: "unat mp + 79 < ?q * 64 + 64"
    using div_mult_mod_eq [of "unat mp + 79" 64] mod_less_divisor [of 64 "unat mp + 79"] by linarith+
  have "?q < 67108864"
    using lo assms by linarith
  then show "unat (record_stride_for mp) \<le> 4294967232"
    unfolding unat_record_stride_for [OF assms] by linarith
  show "unat mp + 16 \<le> unat (record_stride_for mp)"
    and "unat (record_stride_for mp) < unat mp + 80"
    and "64 dvd unat (record_stride_for mp)"
    unfolding unat_record_stride_for [OF assms] using lo hi by simp_all
qed

section \<open>Cells\<close>

definition ring_fits :: "RecordRingMeta \<Rightarrow> u8 list \<Rightarrow> bool" where
  "ring_fits meta m \<longleftrightarrow>
     valid_meta meta \<and> length m = layout_size (slot_count meta) (slot_bytes meta) \<and>
     layout_size (slot_count meta) (slot_bytes meta) < 2 ^ 64"

abbreviation slot_of :: "RecordRingMeta \<Rightarrow> u64 \<Rightarrow> u64" where
  "slot_of meta pos \<equiv> pos mod ucast (record_max meta)"

abbreviation get_head :: "u8 list \<Rightarrow> u64" where
  "get_head m \<equiv> atomic_load_u64 head_cursor m"

abbreviation put_head :: "u64 \<Rightarrow> u8 list \<Rightarrow> u8 list" where
  "put_head v m \<equiv> atomic_store_u64 head_cursor v m"

abbreviation get_tail :: "u8 list \<Rightarrow> u64" where
  "get_tail m \<equiv> atomic_load_u64 tail_cursor m"

abbreviation put_tail :: "u64 \<Rightarrow> u8 list \<Rightarrow> u8 list" where
  "put_tail v m \<equiv> atomic_store_u64 tail_cursor v m"

abbreviation get_seq :: "u64 \<Rightarrow> u8 list \<Rightarrow> u64" where
  "get_seq i m \<equiv> atomic_load_u64 (slot_header i) m"

abbreviation put_seq :: "u64 \<Rightarrow> u64 \<Rightarrow> u8 list \<Rightarrow> u8 list" where
  "put_seq i v m \<equiv> atomic_store_u64 (slot_header i) v m"

text \<open>What a slot holds for its reader, and what a push stores.\<close>

record slot_record =
  sr_type :: u16
  sr_flags :: u16
  sr_user :: u64
  sr_data :: "u8 list"

definition get_record :: "RecordRingMeta \<Rightarrow> u64 \<Rightarrow> u8 list \<Rightarrow> slot_record" where
  "get_record meta i m =
     (let record = record_bytes meta i
      in \<lparr>sr_type = load_le (record + 4) 2 m, sr_flags = load_le (record + 6) 2 m,
          sr_user = load_le (record + 8) 8 m,
          sr_data = load_bytes (record + 16) (unat (min (load_le record 4 m) (max_payload_of meta))) m\<rparr>)"

definition stored_record :: "RecordRingMeta \<Rightarrow> u16 \<Rightarrow> u16 \<Rightarrow> u64 \<Rightarrow> u8 list \<Rightarrow> slot_record" where
  "stored_record meta type flags user payload =
     \<lparr>sr_type = type, sr_flags = stored_flags meta flags payload, sr_user = user,
      sr_data = take (unat (max_payload_of meta)) payload\<rparr>"

lemma valid_metaD:
  assumes "valid_meta meta"
  shows "0 < slot_count meta" "16 \<le> slot_bytes meta"
    "unat (max_payload_of meta) = slot_bytes meta - 16"
proof -
  show "0 < slot_count meta"
    using assms by (simp add: valid_meta_def unat_gt_0)
  have "(16 :: u32) \<le> record_stride meta"
    using assms by (simp add: valid_meta_def shm_consts)
  then show "16 \<le> slot_bytes meta" "unat (max_payload_of meta) = slot_bytes meta - 16"
    by (simp_all add: word_le_nat_alt max_payload_of_def shm_consts unat_sub)
qed

lemma unat_slot_of:
  "valid_meta meta \<Longrightarrow> unat (slot_of meta pos) = unat pos mod slot_count meta"
  by (simp add: unat_mod)

lemma slot_of_less: "valid_meta meta \<Longrightarrow> unat (slot_of meta pos) < slot_count meta"
  by (simp add: unat_mod valid_metaD)

lemma slot_header_eq: "slot_header i = 128 + 8 * unat i"
  by (simp add: slot_header_def unat_slot_meta_offset shm_consts)

lemma record_bytes_eq:
  assumes "valid_meta meta" "layout_size (slot_count meta) (slot_bytes meta) < 2 ^ 64"
    "unat i < slot_count meta"
  shows "record_bytes meta i = 128 + 8 * slot_count meta + unat i * slot_bytes meta"
proof -
  have le: "unat i * slot_bytes meta \<le> slot_count meta * slot_bytes meta"
    using assms(3) by (intro mult_le_mono1) simp
  have lt: "128 + 8 * slot_count meta + unat i * slot_bytes meta < 18446744073709551616"
  proof -
    have "layout_size (slot_count meta) (slot_bytes meta) < 18446744073709551616"
      using assms(2) by simp
    then show ?thesis
      using le unfolding layout_size_def by linarith
  qed
  have "unat (i * ucast (record_stride meta)) = unat i * slot_bytes meta"
    using lt by (subst unat_mult_64) simp_all
  then show ?thesis
    using lt unfolding record_bytes_def
    by (subst unat_add_64) (simp_all add: unat_record_area_offset)
qed

lemma slot_step: "(i :: nat) < j \<Longrightarrow> i * s + s \<le> j * s"
  by (metis Suc_leI add.commute mult_Suc mult_le_mono1)

lemma head_cursor_eq: "head_cursor = 0" and tail_cursor_eq: "tail_cursor = 64"
  by (simp_all add: shm_layout shm_consts)

text \<open>Every cell lies inside the payload.\<close>

lemma cells_inside:
  assumes "ring_fits meta m"
  shows "head_cursor + 8 \<le> length m" "tail_cursor + 8 \<le> length m"
    "unat i < slot_count meta \<Longrightarrow> slot_header i + 8 \<le> length m"
    "unat i < slot_count meta \<Longrightarrow> record_bytes meta i + slot_bytes meta \<le> length m"
proof -
  have v: "valid_meta meta" and len: "length m = layout_size (slot_count meta) (slot_bytes meta)"
    and b: "layout_size (slot_count meta) (slot_bytes meta) < 2 ^ 64"
    using assms by (simp_all add: ring_fits_def)
  show "head_cursor + 8 \<le> length m" "tail_cursor + 8 \<le> length m"
    by (simp_all add: len layout_size_def head_cursor_eq tail_cursor_eq)
  show "unat i < slot_count meta \<Longrightarrow> slot_header i + 8 \<le> length m"
    by (simp add: len layout_size_def slot_header_eq)
  show "unat i < slot_count meta \<Longrightarrow> record_bytes meta i + slot_bytes meta \<le> length m"
    using slot_step [of "unat i" "slot_count meta" "slot_bytes meta"]
    by (simp add: len layout_size_def record_bytes_eq [OF v b])
qed

text \<open>Distinct cells do not overlap.\<close>

lemma cells_disjoint:
  assumes "ring_fits meta m" "unat i < slot_count meta" "unat j < slot_count meta"
  shows "head_cursor + 8 \<le> tail_cursor" "tail_cursor + 8 \<le> slot_header i"
    "head_cursor + 8 \<le> slot_header i"
    "slot_header i + 8 \<le> record_bytes meta j" "tail_cursor + 8 \<le> record_bytes meta j"
    "head_cursor + 8 \<le> record_bytes meta j"
    "i \<noteq> j \<Longrightarrow> slot_header i + 8 \<le> slot_header j \<or> slot_header j + 8 \<le> slot_header i"
    "i \<noteq> j \<Longrightarrow> record_bytes meta i + slot_bytes meta \<le> record_bytes meta j \<or>
              record_bytes meta j + slot_bytes meta \<le> record_bytes meta i"
proof -
  have v: "valid_meta meta" and b: "layout_size (slot_count meta) (slot_bytes meta) < 2 ^ 64"
    using assms(1) by (simp_all add: ring_fits_def)
  note eqs = head_cursor_eq tail_cursor_eq slot_header_eq
    record_bytes_eq [OF v b assms(2)] record_bytes_eq [OF v b assms(3)]
  show "head_cursor + 8 \<le> tail_cursor" "tail_cursor + 8 \<le> slot_header i"
    "head_cursor + 8 \<le> slot_header i" "slot_header i + 8 \<le> record_bytes meta j"
    "tail_cursor + 8 \<le> record_bytes meta j" "head_cursor + 8 \<le> record_bytes meta j"
    using assms(2) by (simp_all add: eqs)
  assume "i \<noteq> j"
  then have "unat i < unat j \<or> unat j < unat i"
    by (metis linorder_neqE_nat word_unat_eq_iff)
  then show "slot_header i + 8 \<le> slot_header j \<or> slot_header j + 8 \<le> slot_header i"
    and "record_bytes meta i + slot_bytes meta \<le> record_bytes meta j \<or>
         record_bytes meta j + slot_bytes meta \<le> record_bytes meta i"
    using slot_step [of "unat i" "unat j" "slot_bytes meta"]
      slot_step [of "unat j" "unat i" "slot_bytes meta"]
    by (auto simp: eqs)
qed

lemmas cell_atomic = atomic_load_u64_def atomic_store_u64_def

lemma fits_store:
  "ring_fits meta m \<Longrightarrow> off + 8 \<le> length m \<Longrightarrow> ring_fits meta (atomic_store_u64 off v m)"
  by (simp add: ring_fits_def cell_atomic length_store_le)

lemma atomic_load_store:
  "off + 8 \<le> length m \<Longrightarrow> atomic_load_u64 off (atomic_store_u64 off v m) = v"
  "off + 8 \<le> length m \<Longrightarrow> off' + 8 \<le> off \<or> off + 8 \<le> off' \<Longrightarrow>
     atomic_load_u64 off' (atomic_store_u64 off v m) = atomic_load_u64 off' m"
  by (simp_all add: cell_atomic load_store_le_same load_store_le_disjoint)

lemma put_head_laws [shm_laws]:
  assumes "ring_fits meta m"
  shows "ring_fits meta (put_head v m)" "get_head (put_head v m) = v"
    "get_tail (put_head v m) = get_tail m"
    "unat i < slot_count meta \<Longrightarrow> get_seq i (put_head v m) = get_seq i m"
  using cells_inside [OF assms] cells_disjoint [OF assms, of i i]
  by (simp_all add: assms fits_store atomic_load_store tail_cursor_eq head_cursor_eq)

lemma put_tail_laws [shm_laws]:
  assumes "ring_fits meta m"
  shows "ring_fits meta (put_tail v m)" "get_tail (put_tail v m) = v"
    "get_head (put_tail v m) = get_head m"
    "unat i < slot_count meta \<Longrightarrow> get_seq i (put_tail v m) = get_seq i m"
  using cells_inside [OF assms] cells_disjoint [OF assms, of i i]
  by (simp_all add: assms fits_store atomic_load_store tail_cursor_eq head_cursor_eq)

lemma put_seq_laws [shm_laws]:
  assumes "ring_fits meta m" "unat i < slot_count meta"
  shows "ring_fits meta (put_seq i v m)" "get_head (put_seq i v m) = get_head m"
    "get_tail (put_seq i v m) = get_tail m"
    "unat j < slot_count meta \<Longrightarrow> get_seq j (put_seq i v m) = (if j = i then v else get_seq j m)"
  using cells_inside [OF assms(1)] cells_disjoint [OF assms(1,2,2)]
    cells_disjoint(7) [OF assms(1,2), of j] assms(2)
  by (auto simp: assms fits_store atomic_load_store)

text \<open>A store outside a record slot does not change what the slot holds.\<close>

lemma get_record_cong:
  assumes "ring_fits meta m" "unat i < slot_count meta"
    and "\<And>off n. record_bytes meta i \<le> off \<Longrightarrow> off + n \<le> record_bytes meta i + slot_bytes meta \<Longrightarrow>
           load_bytes off n m' = load_bytes off n m"
  shows "get_record meta i m' = get_record meta i m"
proof -
  have v: "valid_meta meta"
    using assms(1) by (simp add: ring_fits_def)
  have u: "unat (min x (max_payload_of meta)) \<le> slot_bytes meta - 16" for x
    using valid_metaD(3) [OF v] by (simp add: min_def word_le_nat_alt)
  note sb = valid_metaD(2) [OF v]
  have d: "load_bytes (record_bytes meta i + 16) (unat (min x (max_payload_of meta))) m' =
      load_bytes (record_bytes meta i + 16) (unat (min x (max_payload_of meta))) m" for x
    using u [of x] sb by (intro assms(3)) linarith+
  show ?thesis
    using sb by (simp add: get_record_def Let_def load_le_def assms(3) d)
qed

lemma get_record_store [shm_laws]:
  assumes "ring_fits meta m" "unat i < slot_count meta"
  shows "get_record meta i (put_head v m) = get_record meta i m"
    "get_record meta i (put_tail v m) = get_record meta i m"
    "unat j < slot_count meta \<Longrightarrow> get_record meta i (put_seq j v m) = get_record meta i m"
proof -
  note inside = cells_inside [OF assms(1)]
  note disj = cells_disjoint [OF assms(1) _ assms(2)]
  show "get_record meta i (put_head v m) = get_record meta i m"
    using inside disj(6) [OF assms(2)]
    by (intro get_record_cong assms) (simp add: cell_atomic load_bytes_store_le_disjoint)
  show "get_record meta i (put_tail v m) = get_record meta i m"
    using inside disj(5) [OF assms(2)]
    by (intro get_record_cong assms) (simp add: cell_atomic load_bytes_store_le_disjoint)
  assume j: "unat j < slot_count meta"
  then show "get_record meta i (put_seq j v m) = get_record meta i m"
    using inside(3) [OF j] disj(4) [OF j]
    by (intro get_record_cong assms) (simp add: cell_atomic load_bytes_store_le_disjoint)
qed

section \<open>Writing a record\<close>

lemma unat_written_size:
  "unat (written_size meta payload) = min (length payload) (unat (max_payload_of meta))"
proof -
  have "min (length payload) (unat (max_payload_of meta)) < 4294967296"
    using unat_lt_32 [of "max_payload_of meta"] by linarith
  then show ?thesis
    by (simp add: written_size_def unat_of_nat_32)
qed

text \<open>A write at \<open>pos\<close> only touches the slot of \<open>pos\<close>.\<close>

lemma write_header_frame:
  assumes "ring_fits meta m"
  shows "length (write_record_header meta pos ty fl us pl m) = length m"
    and "off + n \<le> record_bytes meta (slot_of meta pos) \<or>
         record_bytes meta (slot_of meta pos) + 16 \<le> off \<Longrightarrow>
         load_bytes off n (write_record_header meta pos ty fl us pl m) = load_bytes off n m"
proof -
  have v: "valid_meta meta"
    using assms by (simp add: ring_fits_def)
  have fit: "record_bytes meta (slot_of meta pos) + 16 \<le> length m"
    using cells_inside(4) [OF assms slot_of_less [OF v, of pos]] valid_metaD(2) [OF v] by linarith
  then show "length (write_record_header meta pos ty fl us pl m) = length m"
    by (simp add: write_record_header_def Let_def length_store_le)
  show "off + n \<le> record_bytes meta (slot_of meta pos) \<or>
         record_bytes meta (slot_of meta pos) + 16 \<le> off \<Longrightarrow>
         load_bytes off n (write_record_header meta pos ty fl us pl m) = load_bytes off n m"
    using fit by (auto simp: write_record_header_def Let_def length_store_le load_bytes_store_le_disjoint)
qed

lemma write_body_frame:
  assumes "ring_fits meta m"
  shows "length (write_record_body meta pos pl m) = length m"
    and "off + n \<le> record_bytes meta (slot_of meta pos) + 16 \<or>
         record_bytes meta (slot_of meta pos) + slot_bytes meta \<le> off \<Longrightarrow>
         load_bytes off n (write_record_body meta pos pl m) = load_bytes off n m"
proof -
  have v: "valid_meta meta"
    using assms by (simp add: ring_fits_def)
  let ?r = "record_bytes meta (slot_of meta pos)"
  have len: "length (take (unat (written_size meta pl)) pl) + 16 \<le> slot_bytes meta"
    using valid_metaD(2,3) [OF v] by (simp add: unat_written_size)
  then have fit: "?r + 16 + length (take (unat (written_size meta pl)) pl) \<le> length m"
    using cells_inside(4) [OF assms slot_of_less [OF v, of pos]] by linarith
  then show "length (write_record_body meta pos pl m) = length m"
    unfolding write_record_body_def by (rule length_store_bytes)
  assume "off + n \<le> ?r + 16 \<or> ?r + slot_bytes meta \<le> off"
  then have "off + n \<le> ?r + 16 \<or> ?r + 16 + length (take (unat (written_size meta pl)) pl) \<le> off"
    using len by linarith
  then show "load_bytes off n (write_record_body meta pos pl m) = load_bytes off n m"
    unfolding write_record_body_def using fit by (intro load_store_bytes_disjoint)
qed

lemma write_header_laws [shm_laws]:
  assumes "ring_fits meta m"
  shows "ring_fits meta (write_record_header meta pos ty fl us pl m)"
    "get_head (write_record_header meta pos ty fl us pl m) = get_head m"
    "get_tail (write_record_header meta pos ty fl us pl m) = get_tail m"
    "unat i < slot_count meta \<Longrightarrow>
       get_seq i (write_record_header meta pos ty fl us pl m) = get_seq i m"
    "unat i < slot_count meta \<Longrightarrow> i \<noteq> slot_of meta pos \<Longrightarrow>
       get_record meta i (write_record_header meta pos ty fl us pl m) = get_record meta i m"
proof -
  have v: "valid_meta meta"
    using assms by (simp add: ring_fits_def)
  note frame = write_header_frame [OF assms]
  note disj = cells_disjoint [OF assms _ slot_of_less [OF v, of pos]]
  show "ring_fits meta (write_record_header meta pos ty fl us pl m)"
    using assms by (simp add: ring_fits_def frame)
  show "get_head (write_record_header meta pos ty fl us pl m) = get_head m"
    "get_tail (write_record_header meta pos ty fl us pl m) = get_tail m"
    using disj(5,6) [OF slot_of_less [OF v, of pos]]
    by (simp_all add: cell_atomic load_le_def frame)
  show "unat i < slot_count meta \<Longrightarrow>
       get_seq i (write_record_header meta pos ty fl us pl m) = get_seq i m"
    using disj(4) by (simp add: cell_atomic load_le_def frame)
  assume i: "unat i < slot_count meta" "i \<noteq> slot_of meta pos"
  show "get_record meta i (write_record_header meta pos ty fl us pl m) = get_record meta i m"
    using disj(8) [OF i] valid_metaD(2) [OF v]
    by (intro get_record_cong assms i) (auto intro!: frame(2))
qed

lemma write_body_laws [shm_laws]:
  assumes "ring_fits meta m"
  shows "ring_fits meta (write_record_body meta pos pl m)"
    "get_head (write_record_body meta pos pl m) = get_head m"
    "get_tail (write_record_body meta pos pl m) = get_tail m"
    "unat i < slot_count meta \<Longrightarrow> get_seq i (write_record_body meta pos pl m) = get_seq i m"
    "unat i < slot_count meta \<Longrightarrow> i \<noteq> slot_of meta pos \<Longrightarrow>
       get_record meta i (write_record_body meta pos pl m) = get_record meta i m"
proof -
  have v: "valid_meta meta"
    using assms by (simp add: ring_fits_def)
  note frame = write_body_frame [OF assms]
  note disj = cells_disjoint [OF assms _ slot_of_less [OF v, of pos]]
  show "ring_fits meta (write_record_body meta pos pl m)"
    using assms by (simp add: ring_fits_def frame)
  show "get_head (write_record_body meta pos pl m) = get_head m"
    "get_tail (write_record_body meta pos pl m) = get_tail m"
    using disj(5,6) [OF slot_of_less [OF v, of pos]]
    by (simp_all add: cell_atomic load_le_def frame)
  show "unat i < slot_count meta \<Longrightarrow> get_seq i (write_record_body meta pos pl m) = get_seq i m"
    using disj(4) by (simp add: cell_atomic load_le_def frame trans_le_add1)
  assume i: "unat i < slot_count meta" "i \<noteq> slot_of meta pos"
  show "get_record meta i (write_record_body meta pos pl m) = get_record meta i m"
    using disj(8) [OF i] by (intro get_record_cong assms i) (auto intro!: frame(2))
qed

text \<open>The header fields a write leaves behind, and the record both halves make.\<close>

lemma write_header_fields:
  fixes pos :: u64
  assumes "ring_fits meta m"
  defines "r \<equiv> record_bytes meta (slot_of meta pos)"
  shows "load_le r 4 (write_record_header meta pos ty fl us pl m) = written_size meta pl"
    "load_le (r + 4) 2 (write_record_header meta pos ty fl us pl m) = ty"
    "load_le (r + 6) 2 (write_record_header meta pos ty fl us pl m) = stored_flags meta fl pl"
    "load_le (r + 8) 8 (write_record_header meta pos ty fl us pl m) = us"
proof -
  have v: "valid_meta meta"
    using assms(1) by (simp add: ring_fits_def)
  have "r + 16 \<le> length m"
    using cells_inside(4) [OF assms(1) slot_of_less [OF v, of pos]] valid_metaD(2) [OF v]
    unfolding r_def by linarith
  then show "load_le r 4 (write_record_header meta pos ty fl us pl m) = written_size meta pl"
    "load_le (r + 4) 2 (write_record_header meta pos ty fl us pl m) = ty"
    "load_le (r + 6) 2 (write_record_header meta pos ty fl us pl m) = stored_flags meta fl pl"
    "load_le (r + 8) 8 (write_record_header meta pos ty fl us pl m) = us"
    unfolding r_def
    by (simp_all add: write_record_header_def Let_def length_store_le load_store_le_same
        load_store_le_disjoint)
qed

definition header_written ::
  "RecordRingMeta \<Rightarrow> u64 \<Rightarrow> u16 \<Rightarrow> u16 \<Rightarrow> u64 \<Rightarrow> u8 list \<Rightarrow> u8 list \<Rightarrow> bool" where
  "header_written meta pos ty fl us pl m \<longleftrightarrow>
     (let r = record_bytes meta (slot_of meta pos)
      in load_le r 4 m = written_size meta pl \<and> load_le (r + 4) 2 m = ty \<and>
         load_le (r + 6) 2 m = stored_flags meta fl pl \<and> load_le (r + 8) 8 m = us)"

lemma header_written_write:
  "ring_fits meta m \<Longrightarrow>
     header_written meta pos ty fl us pl (write_record_header meta pos ty fl us pl m)"
  by (simp add: header_written_def Let_def write_header_fields)

lemma get_record_written [shm_laws]:
  assumes "ring_fits meta m" "header_written meta pos ty fl us pl m"
  shows "get_record meta (slot_of meta pos) (write_record_body meta pos pl m) =
    stored_record meta ty fl us pl"
proof -
  have v: "valid_meta meta"
    using assms(1) by (simp add: ring_fits_def)
  let ?r = "record_bytes meta (slot_of meta pos)" and ?m = "write_record_body meta pos pl m"
  note frame = write_body_frame(2) [OF assms(1)]
  have w: "min (written_size meta pl) (max_payload_of meta) = written_size meta pl"
    by (simp add: min_def word_le_nat_alt unat_written_size)
  have fit: "?r + 16 + length (take (unat (written_size meta pl)) pl) \<le> length m"
    using cells_inside(4) [OF assms(1) slot_of_less [OF v, of pos]] valid_metaD(2,3) [OF v]
    by (simp add: unat_written_size)
  have h: "load_le ?r 4 ?m = written_size meta pl" "load_le (?r + 4) 2 ?m = ty"
    "load_le (?r + 6) 2 ?m = stored_flags meta fl pl" "load_le (?r + 8) 8 ?m = us"
    using assms(2) by (simp_all add: header_written_def Let_def load_le_def frame)
  have "load_bytes (?r + 16) (unat (written_size meta pl)) ?m = take (unat (written_size meta pl)) pl"
    unfolding write_record_body_def
    by (rule load_store_bytes_same [OF fit]) (simp add: unat_written_size)
  moreover have "take (unat (written_size meta pl)) pl = take (unat (max_payload_of meta)) pl"
    by (simp add: unat_written_size min_def)
  ultimately show ?thesis
    unfolding get_record_def stored_record_def Let_def h w by simp
qed

end
