(* ===== verification/Ring_Queue.thy ===== *)
theory Ring_Queue
  imports Ring_Layout Shm_Interfaces
begin

text \<open>
  The ring with no operation in progress is a bounded first-in first-out queue of records: the
  refinement of \<^verbatim>\<open>try_push\<close>, \<^verbatim>\<open>try_pop\<close>, and of \<^verbatim>\<open>initialize\<close> to lists, through the queue
  interface, and the state a fresh ring starts in.
\<close>

section \<open>Positions\<close>

text \<open>Positions are natural numbers below \<open>2 ^ 63\<close>, the range in which the signed difference is exact.\<close>

abbreviation slot_at :: "RecordRingMeta \<Rightarrow> nat \<Rightarrow> u64" where
  "slot_at meta p \<equiv> slot_of meta (of_nat p)"

lemma unat_slot_at:
  "valid_meta meta \<Longrightarrow> p < 2 ^ 64 \<Longrightarrow> unat (slot_at meta p) = p mod slot_count meta"
  by (simp add: unat_mod unat_of_nat_64)

lemma slot_at_eq_iff:
  assumes "valid_meta meta" "p < 2 ^ 64" "q < 2 ^ 64"
  shows "slot_at meta p = slot_at meta q \<longleftrightarrow> p mod slot_count meta = q mod slot_count meta"
  using assms by (metis unat_slot_at word_unat_eq_iff)

lemma mod_window_inj:
  fixes p q h n :: nat
  assumes "h \<le> p" "p < h + n" "h \<le> q" "q < h + n" "p mod n = q mod n"
  shows "p = q"
proof (rule ccontr)
  assume "p \<noteq> q"
  then have "p < q \<or> q < p" by auto
  then show False
  proof
    assume "p < q"
    then have "n dvd q - p"
      using assms(5) by (metis mod_eq_dvd_iff_nat nat_less_le)
    then show False
      using \<open>p < q\<close> assms by (auto dest: dvd_imp_le)
  next
    assume "q < p"
    then have "n dvd p - q"
      using assms(5) by (metis mod_eq_dvd_iff_nat nat_less_le)
    then show False
      using \<open>q < p\<close> assms by (auto dest: dvd_imp_le)
  qed
qed

lemma slot_at_window:
  assumes "valid_meta meta" "h \<le> p" "p < h + slot_count meta" "h \<le> q" "q < h + slot_count meta"
    "h + slot_count meta \<le> 2 ^ 64"
  shows "slot_at meta p = slot_at meta q \<longleftrightarrow> p = q"
  using assms slot_at_eq_iff [of meta p q] mod_window_inj [of h p "slot_count meta" q] by auto

lemma slot_at_shift:
  assumes "valid_meta meta" "p + slot_count meta < 2 ^ 64"
  shows "slot_at meta (p + slot_count meta) = slot_at meta p"
  using assms by (intro slot_at_eq_iff [THEN iffD2]) simp_all

lemma sint_of_nat_64: "n < 2 ^ 63 \<Longrightarrow> sint (of_nat n :: u64) = int n"
  by (simp add: signed_of_nat signed_take_bit_int_eq_self)

lemma seq_diff_of_nat:
  "a < 2 ^ 63 \<Longrightarrow> b < 2 ^ 63 \<Longrightarrow> seq_diff (of_nat a) (of_nat b) = int a - int b"
  by (simp add: seq_diff_def sint_of_nat_64)

section \<open>Quiescent rings\<close>

text \<open>
  With no operation in progress, the positions between head and tail are published, and the next
  ones up to a full turn after head are free. \<open>window\<close> states this for positions \<open>h\<close> and \<open>t\<close>.
\<close>

definition window :: "RecordRingMeta \<Rightarrow> nat \<Rightarrow> nat \<Rightarrow> u8 list \<Rightarrow> bool" where
  "window meta h t m \<longleftrightarrow>
     h \<le> t \<and> t \<le> h + slot_count meta \<and> t + slot_count meta < 2 ^ 63 \<and>
     get_head m = of_nat h \<and> get_tail m = of_nat t \<and>
     (\<forall>p. h \<le> p \<and> p < t \<longrightarrow> get_seq (slot_at meta p) m = of_nat (Suc p)) \<and>
     (\<forall>p. t \<le> p \<and> p < h + slot_count meta \<longrightarrow> get_seq (slot_at meta p) m = of_nat p)"

definition ring_inv :: "MpscRing \<Rightarrow> bool" where
  "ring_inv r \<longleftrightarrow>
     (\<exists>meta h t. mr_meta r = Some meta \<and> ring_fits meta (ring_bytes r) \<and> 2 \<le> slot_count meta \<and>
        window meta h t (ring_bytes r))"

definition ring_meta :: "MpscRing \<Rightarrow> RecordRingMeta" where
  "ring_meta r = the (mr_meta r)"

definition head_pos :: "MpscRing \<Rightarrow> nat" where
  "head_pos r = unat (get_head (ring_bytes r))"

definition tail_pos :: "MpscRing \<Rightarrow> nat" where
  "tail_pos r = unat (get_tail (ring_bytes r))"

text \<open>The records in the ring, oldest first.\<close>

definition ring_items :: "MpscRing \<Rightarrow> slot_record list" where
  "ring_items r =
     map (\<lambda>p. get_record (ring_meta r) (slot_at (ring_meta r) p) (ring_bytes r))
       [head_pos r..<tail_pos r]"

definition ring_room :: "MpscRing \<Rightarrow> nat" where
  "ring_room r = slot_count (ring_meta r) - length (ring_items r)"

definition ring_life :: "MpscRing \<Rightarrow> nat" where
  "ring_life r = 2 ^ 63 - 1 - slot_count (ring_meta r) - tail_pos r"

lemma windowD:
  assumes "window meta h t m" "valid_meta meta"
  shows "h \<le> t" "t \<le> h + slot_count meta" "t + slot_count meta < 2 ^ 63"
    "get_head m = of_nat h" "get_tail m = of_nat t" "unat (get_head m) = h" "unat (get_tail m) = t"
    "h \<le> p \<Longrightarrow> p < t \<Longrightarrow> get_seq (slot_at meta p) m = of_nat (Suc p)"
    "t \<le> p \<Longrightarrow> p < h + slot_count meta \<Longrightarrow> get_seq (slot_at meta p) m = of_nat p"
  using assms by (auto simp: window_def unat_of_nat_64)

lemma ring_invE:
  assumes "ring_inv r"
  obtains meta m where "mr_meta r = Some meta" "ring_meta r = meta" "ring_bytes r = m"
    "ring_fits meta m" "valid_meta meta" "2 \<le> slot_count meta"
    "window meta (head_pos r) (tail_pos r) m"
proof -
  from assms obtain meta h t where r: "mr_meta r = Some meta" "ring_fits meta (ring_bytes r)"
      "2 \<le> slot_count meta" "window meta h t (ring_bytes r)"
    by (auto simp: ring_inv_def)
  have v: "valid_meta meta"
    using r(2) by (simp add: ring_fits_def)
  have "head_pos r = h" "tail_pos r = t"
    using windowD(6,7) [OF r(4) v] by (simp_all add: head_pos_def tail_pos_def)
  with r v that show thesis
    by (simp add: ring_meta_def)
qed

lemma length_ring_items:
  "ring_inv r \<Longrightarrow> length (ring_items r) = tail_pos r - head_pos r"
  by (simp add: ring_items_def)

section \<open>Push\<close>

lemma claim_loop_free:
  assumes "get_tail m = pos" "get_seq (slot_of meta pos) m = pos"
  shows "claim_loop weak meta n pos m =
    (if \<exists>k<n. \<not> weak k then (Some pos, put_tail (pos + 1) m) else (None, m))"
proof (induction n)
  case 0
  then show ?case by simp
next
  case (Suc n)
  then show ?case
    using assms
    by (auto simp: seq_diff_def atomic_compare_exchange_weak_u64_def Let_def less_Suc_eq)
qed

lemma claim_loop_full:
  "seq_diff (get_seq (slot_of meta pos) m) pos < 0 \<Longrightarrow> claim_loop weak meta (Suc n) pos m = (None, m)"
  by (simp add: Let_def)

lemma ring_bytes_set [simp]:
  "ring_bytes (set_bytes m r) = m" "mr_meta (set_bytes m r) = mr_meta r"
  "ring_meta (set_bytes m r) = ring_meta r"
  by (simp_all add: ring_bytes_def set_bytes_def ring_meta_def)

lemma ring_bytes_bump [simp]: "ring_bytes (bump_lost r) = ring_bytes r"
  by (simp add: ring_bytes_def bump_lost_def)

text \<open>Claiming, writing and publishing position \<open>t\<close> extends the window by it.\<close>

definition push_bytes ::
  "RecordRingMeta \<Rightarrow> u64 \<Rightarrow> u16 \<Rightarrow> u16 \<Rightarrow> u64 \<Rightarrow> u8 list \<Rightarrow> u8 list \<Rightarrow> u8 list" where
  "push_bytes meta pos ty fl us pl m =
     put_seq (slot_of meta pos) (pos + 1) (write_record meta pos ty fl us pl (put_tail (pos + 1) m))"

lemma push_bytes_laws:
  assumes "ring_fits meta m"
  shows "ring_fits meta (push_bytes meta pos ty fl us pl m)"
    "get_head (push_bytes meta pos ty fl us pl m) = get_head m"
    "get_tail (push_bytes meta pos ty fl us pl m) = pos + 1"
    "unat i < slot_count meta \<Longrightarrow> get_seq i (push_bytes meta pos ty fl us pl m) =
       (if i = slot_of meta pos then pos + 1 else get_seq i m)"
    "unat i < slot_count meta \<Longrightarrow> get_record meta i (push_bytes meta pos ty fl us pl m) =
       (if i = slot_of meta pos then stored_record meta ty fl us pl else get_record meta i m)"
proof -
  have v: "valid_meta meta"
    using assms by (simp add: ring_fits_def)
  note s = slot_of_less [OF v, of pos]
  note f1 = put_tail_laws(1) [OF assms, of "pos + 1"]
  note f2 = write_header_laws(1) [OF f1, of pos ty fl us pl]
  note f3 = write_body_laws(1) [OF f2, of pos pl]
  note hw = header_written_write [OF f1, of pos ty fl us pl]
  show "ring_fits meta (push_bytes meta pos ty fl us pl m)"
    "get_head (push_bytes meta pos ty fl us pl m) = get_head m"
    "get_tail (push_bytes meta pos ty fl us pl m) = pos + 1"
    unfolding push_bytes_def write_record_def
    by (simp_all add: put_seq_laws [OF f3 s] write_body_laws [OF f2] write_header_laws [OF f1]
        put_tail_laws [OF assms])
  show "unat i < slot_count meta \<Longrightarrow> get_seq i (push_bytes meta pos ty fl us pl m) =
       (if i = slot_of meta pos then pos + 1 else get_seq i m)"
    unfolding push_bytes_def write_record_def
    by (simp add: put_seq_laws [OF f3 s] write_body_laws [OF f2] write_header_laws [OF f1]
        put_tail_laws [OF assms])
  show "unat i < slot_count meta \<Longrightarrow> get_record meta i (push_bytes meta pos ty fl us pl m) =
       (if i = slot_of meta pos then stored_record meta ty fl us pl else get_record meta i m)"
    unfolding push_bytes_def write_record_def
    by (simp add: get_record_store(3) [OF f3 _ s] write_body_laws(5) [OF f2]
        get_record_written [OF f2 hw] write_header_laws(5) [OF f1] get_record_store(2) [OF assms])
qed

lemma window_push:
  assumes "ring_fits meta m" "window meta h t m" "t < h + slot_count meta"
    "Suc t + slot_count meta < 2 ^ 63"
  shows "window meta h (Suc t) (push_bytes meta (of_nat t) ty fl us pl m)"
proof -
  have v: "valid_meta meta"
    using assms(1) by (simp add: ring_fits_def)
  note w = windowD [OF assms(2) v]
  have "get_seq (slot_at meta p) (push_bytes meta (of_nat t) ty fl us pl m) =
      (if p = t then of_nat (Suc t) else get_seq (slot_at meta p) m)"
    if "h \<le> p" "p < h + slot_count meta" for p
  proof -
    have "slot_at meta p = slot_at meta t \<longleftrightarrow> p = t"
      using w(1,3) assms(3) that by (intro slot_at_window [OF v, of h]) simp_all
    then show ?thesis
      by (simp add: push_bytes_laws(4) [OF assms(1)] slot_of_less [OF v] add.commute)
  qed
  then show ?thesis
    using w assms(3,4) unfolding window_def
    by (auto simp: push_bytes_laws [OF assms(1)] add.commute less_Suc_eq)
qed

lemma try_push_room:
  assumes inv: "ring_inv r" and live: "\<exists>k<MPSC_CAS_RETRY_BUDGET. \<not> weak k"
    and life: "0 < ring_life r" and room: "0 < ring_room r"
  shows "try_push weak ty fl us pl r =
      (Ok, set_bytes (push_bytes (ring_meta r) (of_nat (tail_pos r)) ty fl us pl (ring_bytes r)) r)"
proof -
  from inv obtain meta m where r: "mr_meta r = Some meta" "ring_meta r = meta" "ring_bytes r = m"
      and fit: "ring_fits meta m" and v: "valid_meta meta"
      and n: "2 \<le> slot_count meta" and w: "window meta (head_pos r) (tail_pos r) m"
    by (rule ring_invE)
  note wd = windowD [OF w v]
  have t: "tail_pos r < head_pos r + slot_count meta"
    using room wd(1) by (simp add: ring_room_def length_ring_items [OF inv] r)
  have "claim_loop weak meta MPSC_CAS_RETRY_BUDGET (of_nat (tail_pos r)) m =
      (Some (of_nat (tail_pos r)), put_tail (of_nat (tail_pos r) + 1) m)"
    using live wd(5) wd(9) [OF order_refl t] by (simp add: claim_loop_free)
  then show ?thesis
    by (simp add: try_push_def r v wd(5) Let_def push_bytes_def)
qed

lemma try_push_full:
  assumes inv: "ring_inv r" and room: "ring_room r = 0"
  shows "try_push weak ty fl us pl r = (RingFull, bump_lost r)"
proof -
  from inv obtain meta m where r: "mr_meta r = Some meta" "ring_meta r = meta" "ring_bytes r = m"
      and fit: "ring_fits meta m" and v: "valid_meta meta"
      and n: "2 \<le> slot_count meta" and w: "window meta (head_pos r) (tail_pos r) m"
    by (rule ring_invE)
  note wd = windowD [OF w v]
  have t: "tail_pos r = head_pos r + slot_count meta"
    using room wd(1,2) by (simp add: ring_room_def length_ring_items [OF inv] r)
  have s: "get_seq (slot_at meta (tail_pos r)) m = of_nat (Suc (head_pos r))"
    using wd(3) slot_at_shift [OF v, of "head_pos r"] wd(8) [of "head_pos r"] n
    unfolding t by simp
  have "seq_diff (of_nat (Suc (head_pos r))) (of_nat (tail_pos r)) =
      int (Suc (head_pos r)) - int (tail_pos r)"
    using wd(3) t n by (intro seq_diff_of_nat) simp_all
  moreover have "Suc (head_pos r) < tail_pos r"
    using n t by simp
  ultimately have "seq_diff (of_nat (Suc (head_pos r))) (of_nat (tail_pos r)) < 0"
    by linarith
  then have "claim_loop weak meta MPSC_CAS_RETRY_BUDGET (of_nat (tail_pos r)) m = (None, m)"
    using claim_loop_full [where pos = "of_nat (tail_pos r)" and meta = meta and m = m
        and weak = weak and n = 63] by (simp add: s MPSC_CAS_RETRY_BUDGET_def)
  moreover have "set_bytes m r = r"
    using r(3) by (simp add: set_bytes_def ring_bytes_def)
  ultimately show ?thesis
    by (simp add: try_push_def r v wd(5) Let_def)
qed

lemma ring_room_life:
  assumes "ring_inv r"
  shows "ring_room r = head_pos r + slot_count (ring_meta r) - tail_pos r"
    "head_pos r \<le> tail_pos r" "tail_pos r \<le> head_pos r + slot_count (ring_meta r)"
proof -
  from assms obtain meta m where r: "ring_meta r = meta" and v: "valid_meta meta"
      and w: "window meta (head_pos r) (tail_pos r) m"
    by (rule ring_invE)
  note wd = windowD [OF w v]
  show "head_pos r \<le> tail_pos r" "tail_pos r \<le> head_pos r + slot_count (ring_meta r)"
    using wd r by simp_all
  then show "ring_room r = head_pos r + slot_count (ring_meta r) - tail_pos r"
    using wd by (simp add: ring_room_def length_ring_items [OF assms] r)
qed

lemma push_preserves:
  fixes ty fl :: u16 and us :: u64 and pl :: "u8 list"
  assumes inv: "ring_inv r" and life: "0 < ring_life r" and room: "0 < ring_room r"
  defines "r' \<equiv> set_bytes (push_bytes (ring_meta r) (of_nat (tail_pos r)) ty fl us pl (ring_bytes r)) r"
  shows "ring_inv r'" "ring_items r' = ring_items r @ [stored_record (ring_meta r) ty fl us pl]"
    "Suc (ring_room r') = ring_room r" "Suc (ring_life r') = ring_life r"
    "mr_meta r' = mr_meta r"
proof -
  from inv obtain meta m where r: "mr_meta r = Some meta" "ring_meta r = meta" "ring_bytes r = m"
      and fit: "ring_fits meta m" and v: "valid_meta meta"
      and n: "2 \<le> slot_count meta" and w: "window meta (head_pos r) (tail_pos r) m"
    by (rule ring_invE)
  note wd = windowD [OF w v]
  note rl = ring_room_life [OF inv]
  have t: "tail_pos r < head_pos r + slot_count meta"
    using room rl r by simp
  have life': "Suc (tail_pos r) + slot_count meta < 2 ^ 63"
    using life by (simp add: ring_life_def r)
  let ?m = "push_bytes meta (of_nat (tail_pos r)) ty fl us pl m"
  have w': "window meta (head_pos r) (Suc (tail_pos r)) ?m"
    using fit w t life' by (rule window_push)
  note wd' = windowD [OF w' v]
  have r': "mr_meta r' = Some meta" "ring_meta r' = meta" "ring_bytes r' = ?m"
    by (simp_all add: r'_def r)
  show "mr_meta r' = mr_meta r"
    by (simp add: r r')
  show inv': "ring_inv r'"
    using r' n w' push_bytes_laws(1) [OF fit] by (auto simp: ring_inv_def)
  have pos: "head_pos r' = head_pos r" "tail_pos r' = Suc (tail_pos r)"
    using wd'(6,7) by (simp_all add: head_pos_def tail_pos_def r' r)
  have "get_record meta (slot_at meta p) ?m = get_record meta (slot_at meta p) m"
    if "head_pos r \<le> p" "p < tail_pos r" for p
  proof -
    have "slot_at meta p \<noteq> slot_at meta (tail_pos r)"
      using that t wd(3) wd(1) slot_at_window [OF v, of "head_pos r" p "tail_pos r"] by simp
    then show ?thesis
      by (simp add: push_bytes_laws(5) [OF fit] slot_of_less [OF v])
  qed
  then show "ring_items r' = ring_items r @ [stored_record (ring_meta r) ty fl us pl]"
    using wd(1) by (simp add: ring_items_def pos r' r push_bytes_laws(5) [OF fit] slot_of_less [OF v])
  show "Suc (ring_room r') = ring_room r"
    using t by (simp add: ring_room_life(1) [OF inv'] rl(1) pos r r')
  show "Suc (ring_life r') = ring_life r"
    using life' by (simp add: ring_life_def pos r r')
qed

section \<open>Pop\<close>

definition pop_bytes :: "RecordRingMeta \<Rightarrow> u64 \<Rightarrow> u8 list \<Rightarrow> u8 list" where
  "pop_bytes meta pos m =
     put_head (pos + 1) (put_seq (slot_of meta pos) (pos + ucast (record_max meta)) m)"

lemma pop_bytes_laws:
  assumes "ring_fits meta m"
  shows "ring_fits meta (pop_bytes meta pos m)" "get_head (pop_bytes meta pos m) = pos + 1"
    "get_tail (pop_bytes meta pos m) = get_tail m"
    "unat i < slot_count meta \<Longrightarrow> get_seq i (pop_bytes meta pos m) =
       (if i = slot_of meta pos then pos + ucast (record_max meta) else get_seq i m)"
    "unat i < slot_count meta \<Longrightarrow> get_record meta i (pop_bytes meta pos m) = get_record meta i m"
proof -
  have v: "valid_meta meta"
    using assms by (simp add: ring_fits_def)
  note s = slot_of_less [OF v, of pos]
  note f1 = put_seq_laws(1) [OF assms s, of "pos + ucast (record_max meta)"]
  show "ring_fits meta (pop_bytes meta pos m)" "get_head (pop_bytes meta pos m) = pos + 1"
    "get_tail (pop_bytes meta pos m) = get_tail m"
    unfolding pop_bytes_def by (simp_all add: put_head_laws [OF f1] put_seq_laws [OF assms s])
  show "unat i < slot_count meta \<Longrightarrow> get_seq i (pop_bytes meta pos m) =
       (if i = slot_of meta pos then pos + ucast (record_max meta) else get_seq i m)"
    and "unat i < slot_count meta \<Longrightarrow> get_record meta i (pop_bytes meta pos m) = get_record meta i m"
    unfolding pop_bytes_def
    by (simp_all add: put_head_laws [OF f1] put_seq_laws [OF assms s] get_record_store [OF f1]
        get_record_store(3) [OF assms _ s])
qed

lemma window_pop:
  assumes "ring_fits meta m" "window meta h t m" "h < t"
  shows "window meta (Suc h) t (pop_bytes meta (of_nat h) m)"
proof -
  have v: "valid_meta meta"
    using assms(1) by (simp add: ring_fits_def)
  note w = windowD [OF assms(2) v]
  have h: "of_nat h + ucast (record_max meta) = (of_nat (h + slot_count meta) :: u64)"
    by simp
  have s: "get_seq (slot_at meta p) (pop_bytes meta (of_nat h) m) =
      (if p = h + slot_count meta then of_nat (h + slot_count meta) else get_seq (slot_at meta p) m)"
    if "Suc h \<le> p" "p < Suc h + slot_count meta" for p
  proof -
    have "slot_at meta p = slot_at meta (h + slot_count meta) \<longleftrightarrow> p = h + slot_count meta"
      using w(2,3) that assms(3) valid_metaD(1) [OF v]
      by (intro slot_at_window [OF v, of "Suc h"]) simp_all
    moreover have "slot_at meta (h + slot_count meta) = slot_at meta h"
      using w(2,3) assms(3) by (intro slot_at_shift [OF v]) simp
    ultimately show ?thesis
      by (simp add: pop_bytes_laws(4) [OF assms(1)] slot_of_less [OF v] h del: of_nat_add)
  qed
  show ?thesis
    using w assms(3) s unfolding window_def
    by (auto simp: pop_bytes_laws [OF assms(1)] add.commute)
qed


text \<open>What a pop reports for a record, with an output buffer of \<open>n\<close> bytes.\<close>

definition popped_of :: "nat \<Rightarrow> slot_record \<Rightarrow> PoppedRecord" where
  "popped_of n s =
     \<lparr>pr_type = sr_type s, pr_flags = sr_flags s, pr_user = sr_user s,
      pr_payload_size = of_nat (length (sr_data s)),
      pr_copied_size = of_nat (min n (length (sr_data s)))\<rparr>"

lemma get_record_data:
  assumes "ring_fits meta m" "unat i < slot_count meta"
  shows "length (sr_data (get_record meta i m)) =
      unat (min (load_le (record_bytes meta i) 4 m) (max_payload_of meta))"
    "length (sr_data (get_record meta i m)) \<le> slot_bytes meta - 16"
proof -
  have v: "valid_meta meta"
    using assms(1) by (simp add: ring_fits_def)
  have u: "unat (min x (max_payload_of meta)) \<le> slot_bytes meta - 16" for x
    using valid_metaD(3) [OF v] by (simp add: min_def word_le_nat_alt)
  have fit: "record_bytes meta i + 16 + unat (min x (max_payload_of meta)) \<le> length m" for x
    using cells_inside(4) [OF assms] u [of x] valid_metaD(2) [OF v] by linarith
  show len: "length (sr_data (get_record meta i m)) =
      unat (min (load_le (record_bytes meta i) 4 m) (max_payload_of meta))"
    by (simp add: get_record_def Let_def length_load_bytes fit)
  show "length (sr_data (get_record meta i m)) \<le> slot_bytes meta - 16"
    unfolding len by (rule u)
qed

lemma take_load_bytes: "k \<le> n \<Longrightarrow> load_bytes off k m = take k (load_bytes off n m)"
  by (simp add: load_bytes_def min_def)

lemma copy_record_get:
  assumes fit: "ring_fits meta m"
  shows "copy_record meta pos out m =
    (store_bytes 0 (take (length out) (sr_data (get_record meta (slot_of meta pos) m))) out,
     popped_of (length out) (get_record meta (slot_of meta pos) m))"
proof -
  have v: "valid_meta meta"
    using fit by (simp add: ring_fits_def)
  define i a where "i = slot_of meta pos" and "a = get_record meta i m"
  let ?l = "load_le (record_bytes meta i) 4 m"
  have len: "unat (min ?l (max_payload_of meta)) = length (sr_data a)"
    using get_record_data(1) [OF fit slot_of_less [OF v, of pos]] by (simp add: a_def i_def)
  have psize: "min ?l (max_payload_of meta) = of_nat (length (sr_data a))"
    by (simp flip: len)
  have plen: "unat (of_nat (length (sr_data a)) :: u32) = length (sr_data a)"
    using len unfolding psize .
  have copied: "unat (of_nat (min (length out) (length (sr_data a))) :: u32) =
      min (length out) (length (sr_data a))"
    using len unat_lt_32 [of "min ?l (max_payload_of meta)"] by (intro unat_of_nat_32) linarith
  have data: "load_bytes (record_bytes meta i + 16) (min (length out) (length (sr_data a))) m =
      take (length out) (sr_data a)"
  proof -
    have "sr_data a = load_bytes (record_bytes meta i + 16) (unat (min ?l (max_payload_of meta))) m"
      unfolding a_def get_record_def Let_def by simp
    then have "load_bytes (record_bytes meta i + 16) (length (sr_data a)) m = sr_data a"
      unfolding len by (rule sym)
    then have "load_bytes (record_bytes meta i + 16) (min (length out) (length (sr_data a))) m =
        take (min (length out) (length (sr_data a))) (sr_data a)"
      using take_load_bytes [of "min (length out) (length (sr_data a))" "length (sr_data a)"
          "record_bytes meta i + 16" m] by simp
    then show ?thesis
      by (simp add: min_def)
  qed
  have fields: "load_le (record_bytes meta i + 4) 2 m = sr_type a"
    "load_le (record_bytes meta i + 6) 2 m = sr_flags a"
    "load_le (record_bytes meta i + 8) 8 m = sr_user a"
    unfolding a_def get_record_def Let_def by simp_all
  show ?thesis
    unfolding copy_record_def Let_def
    by (simp only: i_def [symmetric] a_def [symmetric] psize plen copied data fields popped_of_def)
qed

lemma try_pop_item:
  assumes inv: "ring_inv r" and items: "ring_items r = a # as"
  shows "try_pop out r =
     Some (store_bytes 0 (take (length out) (sr_data a)) out, popped_of (length out) a,
           set_bytes (pop_bytes (ring_meta r) (of_nat (head_pos r)) (ring_bytes r)) r)"
proof -
  from inv obtain meta m where r: "mr_meta r = Some meta" "ring_meta r = meta" "ring_bytes r = m"
      and fit: "ring_fits meta m" and v: "valid_meta meta"
      and n: "2 \<le> slot_count meta" and w: "window meta (head_pos r) (tail_pos r) m"
    by (rule ring_invE)
  note wd = windowD [OF w v]
  have ht: "head_pos r < tail_pos r"
    using items by (cases "head_pos r < tail_pos r") (simp_all add: ring_items_def)
  have a: "get_record meta (slot_at meta (head_pos r)) m = a"
    using items ht by (simp add: ring_items_def r upt_conv_Cons)
  have "get_seq (slot_at meta (head_pos r)) m = of_nat (head_pos r) + 1"
    using wd(8) [OF order_refl ht] by (simp add: add.commute)
  then show ?thesis
    unfolding try_pop_def r option.case Let_def wd(4)
    using v by (simp add: copy_record_get [OF fit] a pop_bytes_def)
qed

lemma try_pop_empty:
  assumes inv: "ring_inv r" and items: "ring_items r = []"
  shows "try_pop out r = None"
proof -
  from inv obtain meta m where r: "mr_meta r = Some meta" "ring_meta r = meta" "ring_bytes r = m"
      and fit: "ring_fits meta m" and v: "valid_meta meta"
      and n: "2 \<le> slot_count meta" and w: "window meta (head_pos r) (tail_pos r) m"
    by (rule ring_invE)
  note wd = windowD [OF w v]
  have t: "tail_pos r = head_pos r"
    using items ring_room_life(2) [OF inv] by (auto simp: ring_items_def)
  have "get_seq (slot_at meta (head_pos r)) m = of_nat (head_pos r)"
    using wd(9) [of "head_pos r"] t n by simp
  then show ?thesis
    by (simp add: try_pop_def r v wd(4) Let_def)
qed

lemma pop_preserves:
  assumes inv: "ring_inv r" and items: "ring_items r = a # as"
  defines "r' \<equiv> set_bytes (pop_bytes (ring_meta r) (of_nat (head_pos r)) (ring_bytes r)) r"
  shows "ring_inv r'" "ring_items r' = as" "ring_room r' = Suc (ring_room r)"
    "ring_life r' = ring_life r" "mr_meta r' = mr_meta r"
proof -
  from inv obtain meta m where r: "mr_meta r = Some meta" "ring_meta r = meta" "ring_bytes r = m"
      and fit: "ring_fits meta m" and v: "valid_meta meta"
      and n: "2 \<le> slot_count meta" and w: "window meta (head_pos r) (tail_pos r) m"
    by (rule ring_invE)
  note rl = ring_room_life [OF inv]
  have ht: "head_pos r < tail_pos r"
    using items by (cases "head_pos r < tail_pos r") (simp_all add: ring_items_def)
  let ?m = "pop_bytes meta (of_nat (head_pos r)) m"
  have w': "window meta (Suc (head_pos r)) (tail_pos r) ?m"
    using fit w ht by (rule window_pop)
  note wd' = windowD [OF w' v]
  have r': "mr_meta r' = Some meta" "ring_meta r' = meta" "ring_bytes r' = ?m"
    by (simp_all add: r'_def r)
  show "mr_meta r' = mr_meta r"
    by (simp add: r r')
  show inv': "ring_inv r'"
    using r' n w' pop_bytes_laws(1) [OF fit] by (auto simp: ring_inv_def)
  have pos: "head_pos r' = Suc (head_pos r)" "tail_pos r' = tail_pos r"
    using wd'(6,7) by (simp_all add: head_pos_def tail_pos_def r' r)
  have "ring_items r = get_record meta (slot_at meta (head_pos r)) m # ring_items r'"
    using ht by (simp add: ring_items_def pos r' r upt_conv_Cons pop_bytes_laws(5) [OF fit]
        slot_of_less [OF v])
  then show "ring_items r' = as"
    using items by simp
  show "ring_room r' = Suc (ring_room r)"
    using ht rl by (simp add: ring_room_life(1) [OF inv'] pos r r')
  show "ring_life r' = ring_life r"
    by (simp add: ring_life_def pos r r')
qed

section \<open>The ring as a queue\<close>

text \<open>
  A push request is the weak compare-exchange's behaviour, the record fields and the payload; it is
  live if one of the attempts within the retry budget is not a spurious failure. A pop delivers the
  metadata and the bytes copied to the output buffer.
\<close>

type_synonym push_request = "(nat \<Rightarrow> bool) \<times> u16 \<times> u16 \<times> u64 \<times> u8 list"

definition request_live :: "push_request \<Rightarrow> bool" where
  "request_live x \<longleftrightarrow> (\<exists>k<MPSC_CAS_RETRY_BUDGET. \<not> fst x k)"

definition delivered :: "u8 list \<Rightarrow> slot_record \<Rightarrow> PoppedRecord \<times> u8 list" where
  "delivered out s = (popped_of (length out) s, take (length out) (sr_data s))"

definition request_entry :: "u8 list \<Rightarrow> MpscRing \<Rightarrow> push_request \<Rightarrow> PoppedRecord \<times> u8 list" where
  "request_entry out r x =
     (case x of (weak, ty, fl, us, pl) \<Rightarrow> delivered out (stored_record (ring_meta r) ty fl us pl))"

definition ring_push :: "push_request \<Rightarrow> MpscRing \<Rightarrow> bool \<times> MpscRing" where
  "ring_push x r =
     (case x of (weak, ty, fl, us, pl) \<Rightarrow>
        (case try_push weak ty fl us pl r of (e, r') \<Rightarrow> (void_has_value e, r')))"

definition ring_pop :: "u8 list \<Rightarrow> MpscRing \<Rightarrow> ((PoppedRecord \<times> u8 list) \<times> MpscRing) option" where
  "ring_pop out r =
     map_option (\<lambda>(out', p, r'). ((p, take (unat (pr_copied_size p)) out'), r')) (try_pop out r)"

lemma stored_record_meta:
  "max_payload_of meta = max_payload_of meta' \<Longrightarrow>
     stored_record meta ty fl us pl = stored_record meta' ty fl us pl"
  by (simp add: stored_record_def stored_flags_def)

lemma ring_bump_lost:
  assumes "ring_inv r"
  shows "ring_inv (bump_lost r)" "ring_items (bump_lost r) = ring_items r"
    "ring_room (bump_lost r) = ring_room r" "ring_life (bump_lost r) = ring_life r"
    "max_payload_of (ring_meta (bump_lost r)) = max_payload_of (ring_meta r)"
proof -
  from assms obtain meta m where r: "mr_meta r = Some meta" "ring_meta r = meta" "ring_bytes r = m"
      and fit: "ring_fits meta m" and v: "valid_meta meta"
      and n: "2 \<le> slot_count meta" and w: "window meta (head_pos r) (tail_pos r) m"
    by (rule ring_invE)
  define meta' where "meta' = meta\<lparr>lost_count := lost_count meta + 1\<rparr>"
  have m': "mr_meta (bump_lost r) = Some meta'" "ring_meta (bump_lost r) = meta'"
    by (simp_all add: bump_lost_def r atomic_fetch_add_u64_def meta'_def ring_meta_def)
  have eqs: "record_max meta' = record_max meta" "record_stride meta' = record_stride meta"
    "valid_meta meta' = valid_meta meta" "max_payload_of meta' = max_payload_of meta"
    "record_bytes meta' = record_bytes meta"
    by (simp_all add: meta'_def valid_meta_def max_payload_of_def record_bytes_def fun_eq_iff)
  have rec: "get_record meta' = get_record meta"
    by (simp add: fun_eq_iff get_record_def eqs)
  show "ring_inv (bump_lost r)"
  proof -
    have "ring_fits meta' m" "window meta' (head_pos r) (tail_pos r) m"
      using fit w by (simp_all add: ring_fits_def window_def eqs)
    then show ?thesis
      unfolding ring_inv_def using m'(1) n eqs(1) r(3)
      by (intro exI [of _ meta'] exI [of _ "head_pos r"] exI [of _ "tail_pos r"]) simp
  qed
  show items: "ring_items (bump_lost r) = ring_items r"
    by (simp add: ring_items_def head_pos_def tail_pos_def m' r eqs rec)
  show "ring_room (bump_lost r) = ring_room r" "ring_life (bump_lost r) = ring_life r"
    by (simp_all add: ring_room_def ring_life_def items tail_pos_def m' r eqs)
  show "max_payload_of (ring_meta (bump_lost r)) = max_payload_of (ring_meta r)"
    by (simp add: m' r eqs)
qed

lemma ring_items_data:
  assumes "ring_inv r" "a \<in> set (ring_items r)"
  shows "length (sr_data a) \<le> slot_bytes (ring_meta r) - 16"
proof -
  from assms(1) obtain meta m where r: "ring_meta r = meta" "ring_bytes r = m"
      and fit: "ring_fits meta m" and v: "valid_meta meta"
    by (rule ring_invE)
  from assms(2) obtain p where "a = get_record meta (slot_at meta p) m"
    by (auto simp: ring_items_def r)
  then show ?thesis
    using get_record_data(2) [OF fit slot_of_less [OF v]] by (simp add: r)
qed

lemma ring_pop_item:
  assumes "ring_inv r" "ring_items r = a # as"
  shows "ring_pop out r = Some (delivered out a,
    set_bytes (pop_bytes (ring_meta r) (of_nat (head_pos r)) (ring_bytes r)) r)"
proof -
  have "length (sr_data a) < 4294967296"
    using ring_items_data [OF assms(1), of a] assms(2) unat_lt_32 [of "record_stride (ring_meta r)"]
    by simp
  then have "unat (pr_copied_size (popped_of (length out) a)) = min (length out) (length (sr_data a))"
    by (simp add: popped_of_def unat_of_nat_32)
  then show ?thesis
    by (simp add: ring_pop_def try_pop_item [OF assms] delivered_def store_bytes_def min_def)
qed

interpretation ring_fifo: bounded_fifo ring_inv "map (delivered out) \<circ> ring_items" ring_room
    ring_life request_live "request_entry out" ring_push "ring_pop out"
  for out :: "u8 list"
proof
  fix r r' :: MpscRing and x :: push_request and ok
  obtain weak ty fl us pl where x: "x = (weak, ty, fl, us, pl)"
    by (cases x)
  assume inv: "ring_inv r" and push: "ring_push x r = (ok, r')"
  {
    assume "request_live x" and lr: "0 < ring_life r" "0 < ring_room r"
    then have "try_push weak ty fl us pl r = (Ok,
        set_bytes (push_bytes (ring_meta r) (of_nat (tail_pos r)) ty fl us pl (ring_bytes r)) r)"
      using inv by (intro try_push_room) (simp_all add: request_live_def x)
    with push have ok: "ok" and r': "r' =
        set_bytes (push_bytes (ring_meta r) (of_nat (tail_pos r)) ty fl us pl (ring_bytes r)) r"
      by (auto simp: ring_push_def x void_has_value_def)
    note p = push_preserves [OF inv lr, of ty fl us pl, folded r']
    from p ok show "ok \<and> ring_inv r' \<and>
        (map (delivered out) \<circ> ring_items) r' = (map (delivered out) \<circ> ring_items) r @ [request_entry out r x] \<and>
        Suc (ring_room r') = ring_room r \<and> Suc (ring_life r') = ring_life r \<and>
        request_entry out r' = request_entry out r"
      by (simp add: request_entry_def x fun_eq_iff ring_meta_def)
  }
  assume "ring_room r = 0"
  with inv push have ok: "\<not> ok" and r': "r' = bump_lost r"
    by (auto simp: ring_push_def x try_push_full void_has_value_def)
  with ring_bump_lost [OF inv] \<open>ring_room r = 0\<close>
  show "\<not> ok \<and> ring_inv r' \<and> (map (delivered out) \<circ> ring_items) r' = (map (delivered out) \<circ> ring_items) r \<and>
      ring_room r' = 0 \<and> ring_life r' = ring_life r \<and> request_entry out r' = request_entry out r"
    by (simp add: request_entry_def fun_eq_iff
        stored_record_meta [of "ring_meta (bump_lost r)" "ring_meta r"])
next
  fix r :: MpscRing
  assume "ring_inv r" "(map (delivered out) \<circ> ring_items) r = []"
  then show "ring_pop out r = None"
    by (simp add: ring_pop_def try_pop_empty)
next
  fix r :: MpscRing and b bs
  assume inv: "ring_inv r" and items: "(map (delivered out) \<circ> ring_items) r = b # bs"
  from items obtain a as where i: "ring_items r = a # as" "b = delivered out a" "bs = map (delivered out) as"
    by auto
  let ?r = "set_bytes (pop_bytes (ring_meta r) (of_nat (head_pos r)) (ring_bytes r)) r"
  note p = pop_preserves [OF inv i(1)]
  have "ring_pop out r = Some (b, ?r)"
    using ring_pop_item [OF inv i(1)] i(2) by simp
  then show "\<exists>r'. ring_pop out r = Some (b, r') \<and> ring_inv r' \<and>
      (map (delivered out) \<circ> ring_items) r' = bs \<and> ring_room r' = Suc (ring_room r) \<and>
      ring_life r' = ring_life r \<and> request_entry out r' = request_entry out r"
    using p i by (simp add: request_entry_def fun_eq_iff)
qed


section \<open>A fresh ring\<close>

lemma take_store_bytes:
  "off + length bs \<le> n \<Longrightarrow> n \<le> length m \<Longrightarrow>
     take n (store_bytes off bs m) = store_bytes off bs (take n m)"
  by (simp add: store_bytes_def drop_take)

lemma take_atomic_store:
  "off + 8 \<le> n \<Longrightarrow> n \<le> length m \<Longrightarrow>
     take n (atomic_store_u64 off v m) = atomic_store_u64 off v (take n m)"
  by (simp add: atomic_store_u64_def store_le_def take_store_bytes)

lemma length_atomic_store:
  "off + 8 \<le> length m \<Longrightarrow> length (atomic_store_u64 off v m) = length m"
  by (simp add: atomic_store_u64_def length_store_le)

definition init_upto :: "nat \<Rightarrow> u8 list \<Rightarrow> u8 list" where
  "init_upto n m = fold (\<lambda>i. atomic_store_u64 (slot_header (of_nat i)) (of_nat i)) [0..<n] m"

lemma init_slots_upto: "init_slots rmax = init_upto (unat rmax)"
  by (simp add: init_slots_def init_upto_def fun_eq_iff)

lemma init_upto_Suc:
  "init_upto (Suc n) m = put_seq (of_nat n) (of_nat n) (init_upto n m)"
  by (simp add: init_upto_def)

lemma init_upto_laws:
  assumes "ring_fits meta m" "n \<le> slot_count meta"
  shows "ring_fits meta (init_upto n m) \<and> get_head (init_upto n m) = get_head m \<and>
    get_tail (init_upto n m) = get_tail m \<and>
    (\<forall>j<n. get_seq (of_nat j) (init_upto n m) = of_nat j)"
  using assms(2)
proof (induction n)
  case 0
  then show ?case using assms(1) by (simp add: init_upto_def)
next
  case (Suc n)
  have small: "j < slot_count meta \<Longrightarrow> unat (of_nat j :: u64) = j" for j
    using unat_lt_32 [of "record_max meta"] by (intro unat_of_nat_64) linarith
  have n: "unat (of_nat n :: u64) < slot_count meta"
    using Suc.prems small [of n] by simp
  have ih: "ring_fits meta (init_upto n m)" "get_head (init_upto n m) = get_head m"
    "get_tail (init_upto n m) = get_tail m" "\<And>j. j < n \<Longrightarrow> get_seq (of_nat j) (init_upto n m) = of_nat j"
    using Suc by auto
  note laws = put_seq_laws [OF ih(1) n, where v = "of_nat n"]
  have "get_seq (of_nat j) (init_upto (Suc n) m) = of_nat j" if "j < Suc n" for j
  proof -
    have "unat (of_nat j :: u64) < slot_count meta"
      using that Suc.prems small [of j] by simp
    then have "get_seq (of_nat j) (init_upto (Suc n) m) =
        (if (of_nat j :: u64) = of_nat n then of_nat n else get_seq (of_nat j) (init_upto n m))"
      unfolding init_upto_Suc by (rule laws(4))
    then show ?thesis
      using ih(4) [of j] that by (cases "j = n") auto
  qed
  then show ?case
    using laws ih by (simp add: init_upto_Suc)
qed

lemma take_init_upto:
  assumes "ring_fits meta (take k m)" "k \<le> length m" "n \<le> slot_count meta"
  shows "take k (init_upto n m) = init_upto n (take k m) \<and> length (init_upto n m) = length m"
  using assms(3)
proof (induction n)
  case 0
  then show ?case by (simp add: init_upto_def)
next
  case (Suc n)
  have n: "unat (of_nat n :: u64) < slot_count meta"
    using Suc.prems unat_lt_32 [of "record_max meta"] by (subst unat_of_nat_64) simp_all
  have "slot_header (of_nat n) + 8 \<le> k"
    using cells_inside(3) [OF assms(1) n] assms(2) by simp
  then show ?case
    using Suc assms(2) by (simp add: init_upto_Suc take_atomic_store length_atomic_store)
qed

lemma record_stride_for_small:
  assumes "unat mp + 16 \<le> 4294967232"
  shows "16 \<le> record_stride_for mp"
  using record_stride_for_bounds(1) [OF assms] by (simp add: word_le_nat_alt)

definition fresh_meta :: "u32 \<Rightarrow> u32 \<Rightarrow> RecordRingMeta" where
  "fresh_meta rmax stride =
     \<lparr>record_max = rmax, record_stride = stride, producer_mode = RING_PRODUCER_MPSC,
      consumer_mode = RING_CONSUMER_SINGLE, lost_count = 0\<rparr>"

definition fresh_bytes :: "u32 \<Rightarrow> nat \<Rightarrow> u8 list" where
  "fresh_bytes rmax k = init_upto (unat rmax) (put_tail 0 (put_head 0 (replicate k 0)))"

lemma fresh_window:
  assumes "ring_fits meta (replicate k 0)"
  shows "ring_fits meta (fresh_bytes (record_max meta) k)"
    "window meta 0 0 (fresh_bytes (record_max meta) k)"
proof -
  have v: "valid_meta meta"
    using assms by (simp add: ring_fits_def)
  note f1 = put_head_laws [OF assms, of 0]
  note f2 = put_tail_laws [OF f1(1), of 0]
  note i = init_upto_laws [OF f2(1) order_refl, folded fresh_bytes_def]
  have "slot_at meta p = of_nat p" if "p < slot_count meta" for p
  proof -
    have "unat (slot_at meta p) = p"
      using that unat_lt_32 [of "record_max meta"] by (subst unat_slot_at [OF v]) simp_all
    moreover have "unat (of_nat p :: u64) = p"
      using that unat_lt_32 [of "record_max meta"] by (intro unat_of_nat_64) linarith
    ultimately show ?thesis
      by (simp add: word_unat_eq_iff)
  qed
  then show "window meta 0 0 (fresh_bytes (record_max meta) k)"
    using i unat_lt_32 [of "record_max meta"] f1 f2 by (simp add: window_def)
  show "ring_fits meta (fresh_bytes (record_max meta) k)"
    using i by blast
qed

lemma take_fresh_bytes:
  assumes "ring_fits meta (replicate k 0)" "k \<le> length m"
  shows "take k (init_slots (record_max meta) (put_tail 0 (put_head 0 (store_bytes 0 (replicate k 0) m)))) =
    fresh_bytes (record_max meta) k"
proof -
  let ?z = "replicate k 0 :: u8 list" and ?b = "store_bytes 0 (replicate k 0) m"
  note f1 = put_head_laws [OF assms(1), of 0]
  note f2 = put_tail_laws [OF f1(1), of 0]
  have z: "take k ?b = ?z" "length ?b = length m"
    using assms(2) by (simp_all add: store_bytes_def)
  have c: "head_cursor + 8 \<le> k" "tail_cursor + 8 \<le> k"
    using cells_inside(1,2) [OF assms(1)] by simp_all
  have "take k (put_tail 0 (put_head 0 ?b)) = put_tail 0 (put_head 0 ?z)"
      "length (put_tail 0 (put_head 0 ?b)) = length m"
    using c assms(2) by (simp_all add: take_atomic_store length_atomic_store z)
  then show ?thesis
    using take_init_upto [of meta k "put_tail 0 (put_head 0 ?b)" "slot_count meta"] f2(1) assms(2)
    by (simp add: init_slots_upto fresh_bytes_def)
qed

lemma ring_initialize_fresh:
  assumes rm: "rmax \<noteq> 0" and mp: "unat mp + 16 \<le> 4294967232"
    and al: "payload_aligned sp"
    and len: "unat (payload_size_for rmax (record_stride_for mp)) \<le> length (sp_bytes sp)"
  shows "\<exists>r. ring_initialize sp rmax mp = Inr r \<and>
     mr_meta r = Some (fresh_meta rmax (record_stride_for mp)) \<and>
     ring_fits (fresh_meta rmax (record_stride_for mp)) (ring_bytes r) \<and>
     window (fresh_meta rmax (record_stride_for mp)) 0 0 (ring_bytes r)"
proof -
  let ?s = "record_stride_for mp"
  let ?meta = "fresh_meta rmax ?s" and ?k = "unat (payload_size_for rmax ?s)"
  have k64: "layout_size (unat rmax) (unat ?s) < 2 ^ 64"
    using layout_size_no_overflow [OF record_stride_for_bounds(2) [OF mp]] .
  have k: "?k = layout_size (unat rmax) (unat ?s)"
    using unat_payload_size_for [OF rm record_stride_for_small [OF mp] k64] .
  then have k0: "payload_size_for rmax ?s \<noteq> 0"
    by (auto simp: layout_size_def)
  have "valid_meta ?meta"
    using rm record_stride_for_small [OF mp] by (simp add: valid_meta_def fresh_meta_def shm_consts)
  then have fz: "ring_fits ?meta (replicate ?k 0)"
    using k64 by (simp add: ring_fits_def k fresh_meta_def)
  define r where "r = \<lparr>mr_meta = Some ?meta, mr_payload = sp\<lparr>sp_bytes := fresh_bytes rmax ?k\<rparr>\<rparr>"
  have t: "take ?k (init_slots rmax (put_tail 0 (put_head 0 (store_bytes 0 (replicate ?k 0) (sp_bytes sp))))) =
      fresh_bytes rmax ?k"
    using take_fresh_bytes [OF fz len] by (simp add: fresh_meta_def)
  have "ring_initialize sp rmax mp = Inr r"
    unfolding ring_initialize_def Let_def using k0 len al
    by (simp add: span_first_def t r_def fresh_meta_def)
  then show ?thesis
    using fresh_window [OF fz] by (auto simp: r_def ring_bytes_def fresh_meta_def)
qed

lemma ring_initialize_inv:
  assumes N: "2 \<le> unat rmax" and mp: "unat mp + 16 \<le> 4294967232" and al: "payload_aligned sp"
    and len: "unat (payload_size_for rmax (record_stride_for mp)) \<le> length (sp_bytes sp)"
  shows "\<exists>r. ring_initialize sp rmax mp = Inr r \<and> ring_inv r \<and> ring_items r = [] \<and>
     ring_meta r = fresh_meta rmax (record_stride_for mp) \<and> head_pos r = 0 \<and> tail_pos r = 0"
proof -
  have "rmax \<noteq> 0"
    using N by auto
  from ring_initialize_fresh [OF this mp al len] obtain r where r:
    "ring_initialize sp rmax mp = Inr r" "mr_meta r = Some (fresh_meta rmax (record_stride_for mp))"
    "ring_fits (fresh_meta rmax (record_stride_for mp)) (ring_bytes r)"
    "window (fresh_meta rmax (record_stride_for mp)) 0 0 (ring_bytes r)"
    by blast
  have pos: "head_pos r = 0" "tail_pos r = 0"
    using r(4) by (simp_all add: head_pos_def tail_pos_def window_def)
  have "ring_inv r"
    unfolding ring_inv_def using r(2-4) N
    by (intro exI [of _ "fresh_meta rmax (record_stride_for mp)"] exI [of _ 0]) (simp add: fresh_meta_def)
  then show ?thesis
    using r pos by (auto simp: ring_items_def ring_meta_def)
qed

lemma ring_initialize_state:
  assumes "ring_initialize sp rmax mp = Inr r" "2 \<le> unat rmax" "unat mp + 16 \<le> 4294967232"
  shows "ring_inv r" "ring_items r = []" "ring_meta r = fresh_meta rmax (record_stride_for mp)"
    "head_pos r = 0" "tail_pos r = 0"
proof -
  have "payload_aligned sp" "unat (payload_size_for rmax (record_stride_for mp)) \<le> length (sp_bytes sp)"
    using assms(1) by (auto simp: ring_initialize_def Let_def split: if_splits)
  from ring_initialize_inv [OF assms(2,3) this] assms(1)
  show "ring_inv r" "ring_items r = []" "ring_meta r = fresh_meta rmax (record_stride_for mp)"
    "head_pos r = 0" "tail_pos r = 0"
    by auto
qed

end
