(* ===== verification/Ring_Theorems.thy ===== *)
theory Ring_Theorems
  imports Ring_Queue
begin

text \<open>
  What the ring promises when its calls do not overlap in time: push and pop refine a bounded queue,
  a batch is drained in order, a fresh ring is an empty queue, a bound ring lies inside its payload.
  The limits of these promises are theorems too: a ring of one slot, a layout whose size wraps, a
  stride that is cut to 32 bits.
\<close>

section \<open>Draining a batch\<close>

text \<open>What the callback sees: the records in order, until it asks to stop.\<close>

fun feed :: "('s \<Rightarrow> 'a \<Rightarrow> bool \<times> 's) \<Rightarrow> 's \<Rightarrow> 'a list \<Rightarrow> nat \<times> 's" where
  "feed f s [] = (0, s)"
| "feed f s (a # as) =
     (case f s a of (False, s') \<Rightarrow> (1, s') | (True, s') \<Rightarrow> apfst Suc (feed f s' as))"

lemma popped_copied_size:
  assumes "ring_inv r" "a \<in> set (ring_items r)"
  shows "unat (pr_copied_size (popped_of n a)) = min n (length (sr_data a))"
proof -
  have "length (sr_data a) < 4294967296"
    using ring_items_data [OF assms] unat_lt_32 [of "record_stride (ring_meta r)"] by simp
  then show ?thesis
    by (simp add: popped_of_def unat_of_nat_32)
qed

lemma drain_batch_feed:
  assumes "ring_inv r"
    and "drain_batch cb n scratch s r = (k, scratch', s', r')"
  shows "ring_inv r' \<and> ring_items r' = drop k (ring_items r) \<and> length scratch' = length scratch \<and>
    feed (\<lambda>s a. cb s (popped_of (length scratch) a) (take (length scratch) (sr_data a)))
         s (take n (ring_items r)) = (k, s')"
  using assms
proof (induction n arbitrary: scratch s r k scratch' s' r')
  case 0
  then show ?case by simp
next
  case (Suc n)
  show ?case
  proof (cases "ring_items r")
    case Nil
    then show ?thesis using Suc.prems by (simp add: try_pop_empty)
  next
    case (Cons a as)
    let ?r = "set_bytes (pop_bytes (ring_meta r) (of_nat (head_pos r)) (ring_bytes r)) r"
    let ?sc = "store_bytes 0 (take (length scratch) (sr_data a)) scratch"
    note pop = pop_preserves(1,2) [OF Suc.prems(1) Cons] try_pop_item [OF Suc.prems(1) Cons]
    have sc: "length ?sc = length scratch"
        "take (min (length scratch) (length (sr_data a))) ?sc = take (length scratch) (sr_data a)"
      by (auto simp: store_bytes_def min_def)
    obtain go s1 where cb: "cb s (popped_of (length scratch) a) (take (length scratch) (sr_data a)) = (go, s1)"
      by (cases "cb s (popped_of (length scratch) a) (take (length scratch) (sr_data a))")
    obtain k2 sc2 s2 r2 where rest: "drain_batch cb n ?sc s1 ?r = (k2, sc2, s2, r2)"
      by (cases "drain_batch cb n ?sc s1 ?r")
    show ?thesis
      using Suc.prems Suc.IH [OF pop(1) rest]
      by (cases go)
        (auto simp: pop Cons sc cb rest popped_copied_size [OF Suc.prems(1)])
  qed
qed

section \<open>A ring of one slot\<close>

text \<open>
  With one slot the sequence number of a full slot is the position of the next push, so that a push
  never finds the ring full and a later pop never finds the sequence number it waits for.
\<close>

definition one_slot :: "u64 \<Rightarrow> MpscRing \<Rightarrow> bool" where
  "one_slot t r \<longleftrightarrow> (\<exists>meta. mr_meta r = Some meta \<and> ring_fits meta (ring_bytes r) \<and>
     slot_count meta = 1 \<and> get_head (ring_bytes r) = 0 \<and> get_tail (ring_bytes r) = t \<and>
     get_seq 0 (ring_bytes r) = t)"

lemma slot_of_one: "valid_meta meta \<Longrightarrow> slot_count meta = 1 \<Longrightarrow> slot_of meta pos = 0"
  using slot_of_less [of meta pos] by (simp add: unat_eq_0)

lemma one_slot_push:
  assumes "one_slot t r" "\<exists>k<MPSC_CAS_RETRY_BUDGET. \<not> weak k"
  shows "\<exists>r'. try_push weak ty fl us pl r = (Ok, r') \<and> one_slot (t + 1) r'"
proof -
  from assms(1) obtain meta where r: "mr_meta r = Some meta" "ring_fits meta (ring_bytes r)"
      "slot_count meta = 1" "get_head (ring_bytes r) = 0" "get_tail (ring_bytes r) = t"
      "get_seq 0 (ring_bytes r) = t"
    by (auto simp: one_slot_def)
  have v: "valid_meta meta"
    using r(2) by (simp add: ring_fits_def)
  have "claim_loop weak meta MPSC_CAS_RETRY_BUDGET t (ring_bytes r) =
      (Some t, put_tail (t + 1) (ring_bytes r))"
    using assms(2) r(5,6) by (simp add: claim_loop_free slot_of_one [OF v r(3)])
  then have "try_push weak ty fl us pl r = (Ok, set_bytes (push_bytes meta t ty fl us pl (ring_bytes r)) r)"
    using r v by (simp add: try_push_def push_bytes_def Let_def)
  then show ?thesis
    using push_bytes_laws [OF r(2), where pos = t and ty = ty and fl = fl and us = us and pl = pl] r v
    by (auto simp: one_slot_def slot_of_one [OF v r(3)])
qed

lemma one_slot_pop:
  assumes "one_slot t r" "t \<noteq> 1"
  shows "try_pop out r = None"
  using assms by (auto simp: one_slot_def try_pop_def Let_def ring_fits_def slot_of_one)

lemma one_slot_initialize:
  assumes "ring_initialize sp 1 mp = Inr r" "unat mp + 16 \<le> 4294967232"
  shows "one_slot 0 r"
proof -
  have init: "payload_aligned sp"
      "unat (payload_size_for 1 (record_stride_for mp)) \<le> length (sp_bytes sp)"
    using assms(1) by (auto simp: ring_initialize_def Let_def split: if_splits)
  then have r: "mr_meta r = Some (fresh_meta 1 (record_stride_for mp))"
     "ring_fits (fresh_meta 1 (record_stride_for mp)) (ring_bytes r)"
     "window (fresh_meta 1 (record_stride_for mp)) 0 0 (ring_bytes r)"
    using ring_initialize_fresh [of 1 mp sp] assms by auto
  then show ?thesis
    unfolding one_slot_def by (auto simp: window_def fresh_meta_def)
qed


section \<open>A concrete ring\<close>

text \<open>Two slots of one cache line in a zeroed payload at address 4096: the ring of the examples below.\<close>

definition demo_span :: byte_span where
  "demo_span = \<lparr>sp_data = 4096, sp_bytes = replicate 272 0\<rparr>"

definition demo_ring :: MpscRing where
  "demo_ring = projr (ring_initialize demo_span 2 8)"

lemma record_stride_for_8: "record_stride_for 8 = 64"
  by (simp add: record_stride_for_def align_up_def shm_consts)

lemma payload_size_for_2: "payload_size_for 2 64 = 272"
  by (simp add: payload_size_for_def record_area_offset_def slot_meta_offset_def align_up_def shm_consts)

lemma demo_span_ok: "payload_aligned demo_span" "length (sp_bytes demo_span) = 272"
  by (simp_all add: payload_aligned_def demo_span_def shm_consts)

lemma demo_ring_inv:
  "ring_initialize demo_span 2 8 = Inr demo_ring" "ring_inv demo_ring" "ring_items demo_ring = []"
  "ring_meta demo_ring = fresh_meta 2 64" "tail_pos demo_ring = 0"
  using ring_initialize_inv [of 2 8 demo_span]
  by (auto simp: demo_span_ok record_stride_for_8 payload_size_for_2 demo_ring_def)

lemma demo_ring_life: "0 < ring_life demo_ring" "slot_count (ring_meta demo_ring) = 2"
  "max_payload_of (ring_meta demo_ring) = 48"
  by (simp_all add: ring_life_def demo_ring_inv fresh_meta_def max_payload_of_def shm_consts)

lemma always_live: "\<exists>k<MPSC_CAS_RETRY_BUDGET. \<not> (\<lambda>_. False) k"
  by (rule exI [of _ 0]) (simp add: shm_consts)

definition demo_record :: slot_record where
  "demo_record = \<lparr>sr_type = 7, sr_flags = 0, sr_user = 5, sr_data = [1, 2, 3]\<rparr>"

definition demo_ring1 :: MpscRing where
  "demo_ring1 = snd (try_push (\<lambda>_. False) 7 0 5 [1, 2, 3] demo_ring)"

lemma demo_ring1_inv: "ring_inv demo_ring1" "ring_items demo_ring1 = [demo_record]"
proof -
  have room: "0 < ring_room demo_ring"
    by (simp add: ring_room_def demo_ring_inv(3) demo_ring_life)
  have "stored_record (ring_meta demo_ring) 7 0 5 [1, 2, 3] = demo_record"
    by (simp add: stored_record_def stored_flags_def demo_ring_life demo_record_def)
  then show "ring_inv demo_ring1" "ring_items demo_ring1 = [demo_record]"
    using push_preserves [OF demo_ring_inv(2) demo_ring_life(1) room, of 7 0 5 "[1, 2, 3]"]
    by (simp_all add: demo_ring1_def demo_ring_inv(3)
        try_push_room [OF demo_ring_inv(2) always_live demo_ring_life(1) room])
qed

section \<open>Properties of the quiescent ring\<close>

text \<open>
  C2. Push on a quiescent ring of at least two slots (with position counters left and at least one
  compare-exchange attempt that does not fail spuriously): if the ring is not full the call succeeds
  and appends exactly the stored record, truncated to the slot and flagged if it was; if it is full
  the call returns RingFull, changes no record and increments the lost counter. Either way the ring
  stays well-formed.
\<close>

theorem try_push_refines:
  assumes "ring_inv r" "\<exists>k<MPSC_CAS_RETRY_BUDGET. \<not> weak k" "0 < ring_life r"
    and "try_push weak ty fl us pl r = (e, r')"
  shows "ring_inv r' \<and>
    (if length (ring_items r) < slot_count (ring_meta r)
     then e = Ok \<and> ring_items r' = ring_items r @ [stored_record (ring_meta r) ty fl us pl] \<and>
          ring_lost_count r' = ring_lost_count r
     else e = RingFull \<and> ring_items r' = ring_items r \<and>
          ring_lost_count r' = ring_lost_count r + 1)"
proof (cases "length (ring_items r) < slot_count (ring_meta r)")
  case True
  then have room: "0 < ring_room r"
    by (simp add: ring_room_def)
  show ?thesis
    using True assms(4) push_preserves [OF assms(1,3) room, of ty fl us pl]
    by (auto simp: try_push_room [OF assms(1,2,3) room] ring_lost_count_def)
next
  case False
  then have full: "ring_room r = 0"
    by (simp add: ring_room_def)
  have "ring_lost_count (bump_lost r) = ring_lost_count r + 1"
    using assms(1)
    by (auto simp: ring_inv_def ring_lost_count_def bump_lost_def atomic_fetch_add_u64_def)
  then show ?thesis
    using False assms(4) ring_bump_lost [OF assms(1)]
    by (auto simp: try_push_full [OF assms(1) full])
qed

theorem try_push_refines_witness:
  "case try_push (\<lambda>_. False) 7 0 5 [1, 2, 3] demo_ring of (e, r') \<Rightarrow>
     e = Ok \<and> ring_inv r' \<and>
     ring_items r' = [\<lparr>sr_type = 7, sr_flags = 0, sr_user = 5, sr_data = [1, 2, 3]\<rparr>]"
proof -
  obtain e r' where p: "try_push (\<lambda>_. False) 7 0 5 [1, 2, 3] demo_ring = (e, r')"
    by (cases "try_push (\<lambda>_. False) 7 0 5 [1, 2, 3] demo_ring")
  show ?thesis
    using try_push_refines [OF demo_ring_inv(2) always_live demo_ring_life(1) p]
    by (simp add: p demo_ring_inv(3) demo_ring_life stored_record_def stored_flags_def)
qed

text \<open>
  C3. Pop on a quiescent ring: nothing happens on an empty ring; otherwise exactly the oldest record
  is removed, its metadata is reported, the bytes that fit the output buffer are written to its
  front, and the rest of the buffer is unchanged.
\<close>

theorem try_pop_refines:
  assumes "ring_inv r"
  shows "case ring_items r of
      [] \<Rightarrow> try_pop out r = None
    | a # as \<Rightarrow>
        \<exists>out' r'. try_pop out r = Some (out', popped_of (length out) a, r') \<and>
          ring_inv r' \<and> ring_items r' = as \<and> length out' = length out \<and>
          take (min (length out) (length (sr_data a))) out' = take (length out) (sr_data a) \<and>
          drop (length (sr_data a)) out' = drop (length (sr_data a)) out"
proof (cases "ring_items r")
  case Nil
  then show ?thesis using assms by (simp add: try_pop_empty)
next
  case (Cons a as)
  show ?thesis
    using pop_preserves [OF assms Cons]
    by (auto simp: Cons try_pop_item [OF assms Cons] store_bytes_def min_def)
qed

theorem try_pop_refines_witness:
  "\<exists>r'. try_pop [0, 0] demo_ring1 =
       Some ([1, 2], \<lparr>pr_type = 7, pr_flags = 0, pr_user = 5, pr_payload_size = 3, pr_copied_size = 2\<rparr>, r') \<and>
     ring_inv r' \<and> ring_items r' = []"
proof -
  obtain out' r' where p: "try_pop [0, 0] demo_ring1 = Some (out', popped_of 2 demo_record, r')"
      "ring_inv r'" "ring_items r' = []" "length out' = 2" "take 2 out' = [1, 2]"
    using try_pop_refines [OF demo_ring1_inv(1), of "[0, 0]"]
    by (auto simp: demo_ring1_inv(2) demo_record_def numeral_2_eq_2)
  then have "out' = [1, 2]"
    by simp
  with p show ?thesis
    by (simp add: popped_of_def demo_record_def)
qed

text \<open>
  Initialization: with at least two slots, a representable stride, an aligned and large enough
  payload, the ring is created empty and well-formed with the requested geometry and a zero lost
  counter.
\<close>

theorem ring_initialize_ok:
  assumes "2 \<le> unat rmax" "unat mp + 16 \<le> 4294967232" "payload_aligned sp"
    and "unat (payload_size_for rmax (record_stride_for mp)) \<le> length (sp_bytes sp)"
  shows "\<exists>r. ring_initialize sp rmax mp = Inr r \<and> ring_inv r \<and> ring_items r = [] \<and>
     record_max (ring_meta r) = rmax \<and> record_stride (ring_meta r) = record_stride_for mp \<and>
     ring_lost_count r = 0"
proof -
  from ring_initialize_inv [OF assms] obtain r where r: "ring_initialize sp rmax mp = Inr r"
      "ring_inv r" "ring_items r = []" "ring_meta r = fresh_meta rmax (record_stride_for mp)"
    by blast
  moreover obtain meta where "mr_meta r = Some meta"
    using r(2) by (auto simp: ring_inv_def)
  ultimately show ?thesis
    by (auto simp: ring_meta_def fresh_meta_def ring_lost_count_def)
qed

theorem ring_initialize_ok_witness:
  "\<exists>r. ring_initialize demo_span 2 8 = Inr r \<and> ring_inv r \<and> ring_items r = [] \<and>
     record_stride (ring_meta r) = 64"
  using ring_initialize_ok [of 2 8 demo_span]
  by (auto simp: demo_span_ok record_stride_for_8 payload_size_for_2)

text \<open>
  Round trip: records pushed into a freshly initialized ring are popped in the order they were
  pushed; exactly as many as the ring has slots are accepted and the others are refused.
\<close>

theorem ring_roundtrip:
  assumes "ring_initialize sp rmax mp = Inr r" "2 \<le> unat rmax" "unat mp + 16 \<le> 4294967232"
    and "list_all request_live xs" "length xs < 2 ^ 62"
    and "push_list ring_push xs r = (oks, r')"
  shows "oks = replicate (min (unat rmax) (length xs)) True @ replicate (length xs - unat rmax) False \<and>
     fst (pop_upto (ring_pop out) n r') = take n (map (request_entry out r) (take (unat rmax) xs))"
proof -
  have r: "ring_inv r" "ring_items r = []" "record_max (ring_meta r) = rmax" "tail_pos r = 0"
    using ring_initialize_state [OF assms(1-3)] by (simp_all add: fresh_meta_def)
  have room: "ring_room r = unat rmax" and life: "length xs \<le> ring_life r"
    using r assms(5) unat_lt_32 [of rmax] by (simp_all add: ring_room_def ring_life_def)
  show ?thesis
    using ring_fifo.push_list_items [OF r(1) assms(4) life, of out] assms(6) room
      ring_fifo.push_then_pop [OF r(1) assms(4) life _ assms(6), of out n] r(2)
    by auto
qed


theorem ring_roundtrip_witness:
  "case push_list ring_push [(\<lambda>_. False, 1, 0, 9, [5]), (\<lambda>_. False, 2, 0, 8, []), (\<lambda>_. False, 3, 0, 7, [])]
      demo_ring of
    (oks, r') \<Rightarrow> oks = [True, True, False] \<and>
      map (pr_type \<circ> fst) (fst (pop_upto (ring_pop [0]) 4 r')) = [1, 2]"
proof -
  let ?xs = "[(\<lambda>_. False, 1, 0, 9, [5]), (\<lambda>_. False, 2, 0, 8, []), (\<lambda>_. False, 3, 0, 7, [])] :: push_request list"
  obtain oks r' where p: "push_list ring_push ?xs demo_ring = (oks, r')"
    by (cases "push_list ring_push ?xs demo_ring")
  have live: "list_all request_live ?xs"
    using always_live by (simp add: request_live_def)
  have rep2: "replicate 2 True = [True, True]"
    by (simp add: numeral_2_eq_2)
  have "oks = [True, True, False] \<and>
      fst (pop_upto (ring_pop [0]) 4 r') = take 4 (map (request_entry [0] demo_ring) (take 2 ?xs))"
    using ring_roundtrip [OF demo_ring_inv(1) _ _ live _ p, where n = 4 and out = "[0]"]
    by (simp add: rep2)
  then show ?thesis
    unfolding p by (simp add: request_entry_def delivered_def popped_of_def stored_record_def)
qed

text \<open>
  Draining a batch on a quiescent ring pops the records in order, at most \<open>max_records\<close> of them,
  hands each with its metadata to the callback as the bytes that fit the scratch buffer, stops after
  the first record the callback refuses, counts the records handed over, and leaves the others in the
  ring.
\<close>

theorem drain_batch_in_order:
  assumes "ring_inv r" "drain_batch callback max_records scratch s r = (k, scratch', s', r')"
  shows "ring_inv r' \<and> ring_items r' = drop k (ring_items r) \<and> length scratch' = length scratch \<and>
    feed (\<lambda>s a. callback s (popped_of (length scratch) a) (take (length scratch) (sr_data a)))
      s (take max_records (ring_items r)) = (k, s')"
  using assms by (rule drain_batch_feed)

theorem drain_batch_in_order_witness:
  "case drain_batch (\<lambda>s p d. (True, s @ [(pr_type p, d)])) 10 [0, 0] [] demo_ring1 of
     (k, scratch', s', r') \<Rightarrow> k = 1 \<and> s' = [(7, [1, 2])] \<and> ring_items r' = []"
proof -
  let ?d = "drain_batch (\<lambda>s p d. (True, s @ [(pr_type p, d)])) 10 [0, 0] [] demo_ring1"
  obtain k sc s' r' where p: "?d = (k, sc, s', r')"
    by (cases ?d)
  show ?thesis
    using drain_batch_in_order [OF demo_ring1_inv(1) p]
    by (auto simp: p demo_ring1_inv(2) demo_record_def popped_of_def)
qed

text \<open>
  C32. A ring of one slot, which \<open>initialize\<close> accepts, loses records without reporting it: both of two
  pushes in a row succeed, and afterwards nothing can be popped.
\<close>

theorem single_slot_ring_wedges:
  assumes "ring_initialize sp 1 mp = Inr r" "unat mp + 16 \<le> 4294967232"
    and "try_push (\<lambda>_. False) ty1 fl1 us1 pl1 r = (e1, r1)"
    and "try_push (\<lambda>_. False) ty2 fl2 us2 pl2 r1 = (e2, r2)"
  shows "e1 = Ok \<and> e2 = Ok \<and> try_pop out r2 = None"
proof -
  have "e1 = Ok \<and> one_slot 1 r1"
    using one_slot_push [OF one_slot_initialize [OF assms(1,2)] always_live, of ty1 fl1 us1 pl1] assms(3) by auto
  moreover from this have "e2 = Ok \<and> one_slot (1 + 1) r2"
    using one_slot_push [OF _ always_live, of 1 r1 ty2 fl2 us2 pl2] assms(4) by auto
  ultimately show ?thesis
    using one_slot_pop [of "1 + 1" r2 out] by simp
qed

theorem single_slot_ring_wedges_witness:
  "\<exists>r. ring_initialize demo_span 1 8 = Inr r \<and>
     (case try_push (\<lambda>_. False) 1 0 0 [1] r of (e1, r1) \<Rightarrow>
        (case try_push (\<lambda>_. False) 2 0 0 [2] r1 of (e2, r2) \<Rightarrow>
           e1 = Ok \<and> e2 = Ok \<and> try_pop [0] r2 = None))"
proof -
  have "payload_size_for 1 64 = 200"
    by (simp add: payload_size_for_def record_area_offset_def slot_meta_offset_def align_up_def shm_consts)
  then obtain r where r: "ring_initialize demo_span 1 8 = Inr r"
    using ring_initialize_fresh [of 1 8 demo_span] by (auto simp: demo_span_ok record_stride_for_8)
  then show ?thesis
    using single_slot_ring_wedges [OF r, where out = "[0]"] by (auto split: prod.splits)
qed

text \<open>
  Binding is sound as far as the arithmetic is: a ring \<open>bind\<close> accepts has valid metadata, and if
  the true size of its layout is below \<open>2 ^ 64\<close> then every slot header lies before every record
  slot, every record slot lies inside the bound payload, and distinct record slots do not overlap.
\<close>

theorem ring_bind_sound:
  assumes "ring_bind meta sp = Inr r"
    and "layout_size (slot_count meta) (slot_bytes meta) < 2 ^ 64"
  shows "mr_meta r = Some meta \<and> ring_fits meta (ring_bytes r) \<and>
    (\<forall>i j. unat i < slot_count meta \<and> unat j < slot_count meta \<longrightarrow>
       slot_header i + 8 \<le> record_bytes meta j \<and> record_bytes meta j + slot_bytes meta \<le> length (ring_bytes r) \<and>
       (i \<noteq> j \<longrightarrow> record_bytes meta i + slot_bytes meta \<le> record_bytes meta j \<or>
                 record_bytes meta j + slot_bytes meta \<le> record_bytes meta i))"
proof -
  have v: "valid_meta meta" and p: "payload_size_for (record_max meta) (record_stride meta) \<noteq> 0"
    and len: "unat (payload_size_for (record_max meta) (record_stride meta)) \<le> length (sp_bytes sp)"
    and r: "r = \<lparr>mr_meta = Some meta, mr_payload = span_first (unat (payload_size_for (record_max meta) (record_stride meta))) sp\<rparr>"
    using assms(1) by (auto simp: ring_bind_def Let_def split: if_splits)
  have "unat (payload_size_for (record_max meta) (record_stride meta)) = layout_size (slot_count meta) (slot_bytes meta)"
    using v assms(2) by (intro unat_payload_size_for) (auto simp: valid_meta_def shm_consts)
  then have fit: "ring_fits meta (ring_bytes r)"
    using v len assms(2) by (simp add: r ring_fits_def ring_bytes_def span_first_def)
  then show ?thesis
    using cells_inside(4) [OF fit] cells_disjoint(4,8) [OF fit] by (auto simp: r)
qed

theorem ring_bind_sound_witness:
  "\<exists>r. ring_bind (fresh_meta 2 64) demo_span = Inr r \<and> record_bytes (fresh_meta 2 64) 1 + 64 \<le> length (ring_bytes r)"
proof -
  have "\<exists>r. ring_bind (fresh_meta 2 64) demo_span = Inr r"
    by (simp add: ring_bind_def fresh_meta_def valid_meta_def shm_consts demo_span_ok payload_size_for_2)
  then obtain r where r: "ring_bind (fresh_meta 2 64) demo_span = Inr r" ..
  have geo: "slot_count (fresh_meta 2 64) = 2" "slot_bytes (fresh_meta 2 64) = 64"
    by (simp_all add: fresh_meta_def)
  show ?thesis
    using ring_bind_sound [OF r, unfolded geo] r by (auto simp: layout_size_def dest: spec [of _ 1])
qed


text \<open>
  C30. The stride for a record is the smallest multiple of the cache line that holds the record
  header and the payload, for every payload of at most \<open>2 ^ 32 - 80\<close> bytes; for a payload within 15
  bytes of \<open>2 ^ 32\<close> it is cut to 32 bits and a stride of one cache line results.
\<close>

theorem record_stride_for_least:
  assumes "unat mp + 16 \<le> 4294967232"
  shows "unat (record_stride_for mp) mod 64 = 0 \<and> unat mp + 16 \<le> unat (record_stride_for mp) \<and>
    unat (record_stride_for mp) < unat mp + 16 + 64 \<and> record_stride_for 4294967281 = 64"
proof -
  have "record_stride_for 4294967281 = 64"
    by (simp add: record_stride_for_def align_up_def shm_consts)
  then show ?thesis
    using record_stride_for_bounds [OF assms] by (simp add: dvd_eq_mod_eq_0)
qed

theorem record_stride_for_least_witness:
  "unat (record_stride_for 48) mod 64 = 0 \<and> 64 \<le> unat (record_stride_for 48) \<and>
     unat (record_stride_for 48) < 128"
  using record_stride_for_least [of 48] by simp

end
