(* ===== verification/Shm_Logger.thy ===== *)
theory Shm_Logger
  imports Manager_Release Ring_Theorems
begin

text \<open>
  The producer of the logging application, \<^verbatim>\<open>apps/logging/src/logger.cpp\<close> and \<^verbatim>\<open>logger.h\<close>. The world of the
  manager has the headers of the segments; here the ring storage of the segments joins it. A ring
  object of the application is a view: the segment its metadata pointer is into, and its payload span.
\<close>

section \<open>Levels and flags\<close>

datatype LogLevel = Trace | Debug | Info | Warn | Error | Fatal

fun log_level_code :: "LogLevel \<Rightarrow> u16" where
  "log_level_code Trace = 0"
| "log_level_code Debug = 1"
| "log_level_code Info = 2"
| "log_level_code Warn = 3"
| "log_level_code Error = 4"
| "log_level_code Fatal = 5"

lemma log_level_code_inj [simp]: "log_level_code a = log_level_code b \<longleftrightarrow> a = b"
  by (cases a; cases b) simp_all

text \<open>Severities are ordered as their codes.\<close>

instantiation LogLevel :: linorder
begin

definition less_eq_LogLevel :: "LogLevel \<Rightarrow> LogLevel \<Rightarrow> bool" where
  "less_eq_LogLevel a b \<longleftrightarrow> log_level_code a \<le> log_level_code b"

definition less_LogLevel :: "LogLevel \<Rightarrow> LogLevel \<Rightarrow> bool" where
  "less_LogLevel a b \<longleftrightarrow> log_level_code a < log_level_code b"

instance
  by standard (auto simp: less_eq_LogLevel_def less_LogLevel_def order.strict_iff_not antisym)

end

definition LogTruncated :: u16 where [shm_consts]: "LogTruncated = RECORD_FLAG_TRUNCATED"
definition LogBinary :: u16 where [shm_consts]: "LogBinary = push_bit 1 1"

section \<open>Options and names\<close>

record LoggerOptions =
  lo_service_name :: string
  lo_segment_name :: string
  lo_record_max :: u32
  lo_max_payload :: u32
  lo_perm :: u32
  lo_flags :: u32

definition default_options :: LoggerOptions where
  "default_options =
     \<lparr>lo_service_name = [], lo_segment_name = [], lo_record_max = 4096, lo_max_payload = 1024,
      lo_perm = 0x180, lo_flags = 0\<rparr>"

definition kFormatBufferBytes :: nat where [shm_consts]: "kFormatBufferBytes = 1024"

definition is_service_tail_char :: "char \<Rightarrow> bool" where
  "is_service_tail_char c \<longleftrightarrow>
     char_between CHR ''a'' CHR ''z'' c \<or> char_between CHR ''0'' CHR ''9'' c \<or> c = CHR ''_'' \<or> c = CHR ''-''"

definition valid_service_name :: "string \<Rightarrow> bool" where
  "valid_service_name service =
     (if service = [] \<or> 24 < length service \<or> \<not> char_between CHR ''a'' CHR ''z'' (hd service) then False
      else list_all is_service_tail_char (tl service))"

text \<open>\<^verbatim>\<open>std::to_string\<close> of a number that is not negative.\<close>

fun decimal :: "nat \<Rightarrow> string" where
  "decimal n = (if n < 10 then [char_of (48 + n)] else decimal (n div 10) @ [char_of (48 + n mod 10)])"

declare decimal.simps [simp del]

definition default_segment_name :: "u32 \<Rightarrow> string \<Rightarrow> string" where
  "default_segment_name pid service = ''/shmfx.log.'' @ service @ ''_'' @ decimal (unat pid)"

text \<open>Two clock readings; the second one is taken only if the first fails.\<close>

definition monotonic_record_time :: "(u64 \<times> u64) option \<Rightarrow> (u64 \<times> u64) option \<Rightarrow> u64" where
  "monotonic_record_time ts again =
     (case ts of
        None \<Rightarrow> monotonic_ns again
      | Some (sec, nsec) \<Rightarrow> sec * 1000 * 1000 * 1000 + nsec)"

definition sizeof_RecordRingMeta :: u64 where [shm_consts]: "sizeof_RecordRingMeta = 64"

definition make_create_options :: "LoggerOptions \<Rightarrow> string \<Rightarrow> CreateOptions" where
  "make_create_options options segment_name =
     (let stride = record_stride_for (lo_max_payload options);
          payload_size = payload_size_for (lo_record_max options) stride
      in \<lparr>co_name = segment_name, co_type = RecordRing,
          co_total_size =
            align_up (SHMFX_HEADER_SIZE + sizeof_RecordRingMeta) SHMFX_CACHE_LINE_BYTES + payload_size,
          co_meta_size = sizeof_RecordRingMeta, co_perm = lo_perm options,
          co_flags = lo_flags options OR LockfreeRing\<rparr>)"

section \<open>Ring storage of the segments\<close>

text \<open>
  Of a segment the ring uses the metadata block and the bytes from the payload offset to the end.
  \<open>addr\<close> gives the address at which the mapping of a segment starts.
\<close>

record segment_ring =
  sg_meta :: RecordRingMeta
  sg_bytes :: "u8 list"

record log_world =
  lw_world :: world
  lw_rings :: "nat \<Rightarrow> segment_ring"

record ring_view =
  rv_segment :: nat
  rv_data :: u64
  rv_size :: nat

definition handle_span :: "(nat \<Rightarrow> u64) \<Rightarrow> log_world \<Rightarrow> ShmHandle \<Rightarrow> byte_span" where
  "handle_span addr lw h =
     (case handle_payload (lw_world lw) h of
        (off, n) \<Rightarrow>
          \<lparr>sp_data = addr (hd_base h) + of_nat off, sp_bytes = take n (sg_bytes (lw_rings lw (hd_base h)))\<rparr>)"

definition view_of :: "ShmHandle \<Rightarrow> MpscRing \<Rightarrow> ring_view" where
  "view_of h r =
     \<lparr>rv_segment = hd_base h, rv_data = sp_data (mr_payload r), rv_size = length (ring_bytes r)\<rparr>"

definition open_ring :: "ring_view \<Rightarrow> log_world \<Rightarrow> MpscRing" where
  "open_ring v lw =
     \<lparr>mr_meta = Some (sg_meta (lw_rings lw (rv_segment v))),
      mr_payload = \<lparr>sp_data = rv_data v, sp_bytes = take (rv_size v) (sg_bytes (lw_rings lw (rv_segment v)))\<rparr>\<rparr>"

definition close_ring :: "ring_view \<Rightarrow> MpscRing \<Rightarrow> log_world \<Rightarrow> log_world" where
  "close_ring v r lw =
     lw\<lparr>lw_rings := (lw_rings lw)(rv_segment v :=
          \<lparr>sg_meta = ring_meta r, sg_bytes = store_bytes 0 (ring_bytes r) (sg_bytes (lw_rings lw (rv_segment v)))\<rparr>)\<rparr>"

definition on_ring :: "ring_view \<Rightarrow> (MpscRing \<Rightarrow> 'a \<times> MpscRing) \<Rightarrow> log_world \<Rightarrow> 'a \<times> log_world" where
  "on_ring v f lw = (case f (open_ring v lw) of (x, r) \<Rightarrow> (x, close_ring v r lw))"

definition logger_ring_meta :: "log_world \<Rightarrow> ShmHandle \<Rightarrow> RecordRingMeta" where
  "logger_ring_meta lw h = sg_meta (lw_rings lw (hd_base h))"

text \<open>A new object reads as zeros.\<close>

definition zero_ring :: "nat \<Rightarrow> segment_ring" where
  "zero_ring n =
     \<lparr>sg_meta = \<lparr>record_max = 0, record_stride = 0, producer_mode = 0, consumer_mode = 0, lost_count = 0\<rparr>,
      sg_bytes = replicate n 0\<rparr>"

definition create_segment :: "os_env \<Rightarrow> CreateOptions \<Rightarrow> log_world \<Rightarrow> (ShmHandle Result \<times> log_world) option" where
  "create_segment env options lw = do {
     (created, w1) \<leftarrow> create env options (lw_world lw);
     Some (created,
       case created of
         Inl e \<Rightarrow> lw\<lparr>lw_world := w1\<rparr>
       | Inr h \<Rightarrow>
           lw\<lparr>lw_world := w1,
              lw_rings := (lw_rings lw)(hd_base h := zero_ring (unat (hd_size h) - fst (handle_payload w1 h)))\<rparr>)
   }"

definition bind_logger_ring :: "(nat \<Rightarrow> u64) \<Rightarrow> log_world \<Rightarrow> ShmHandle \<Rightarrow> MpscRing Result" where
  "bind_logger_ring addr lw handle =
     (if h_segment_type (header_at (lw_world lw) (hd_base handle)) \<noteq> segment_type_code RecordRing \<or>
         snd (handle_metadata (lw_world lw) handle) < unat sizeof_RecordRingMeta
      then Inl CorruptedHeader
      else ring_bind (logger_ring_meta lw handle) (handle_span addr lw handle))"

section \<open>Loggers\<close>

record Logger =
  lg_handle :: ShmHandle
  lg_ring :: ring_view
  lg_segment_name :: string

text \<open>A handle that goes out of scope is reset.\<close>

definition drop_handle :: "os_env \<Rightarrow> ShmHandle \<Rightarrow> log_world \<Rightarrow> log_world option" where
  "drop_handle env h lw = map_option (\<lambda>(_, w1). lw\<lparr>lw_world := w1\<rparr>) (handle_reset env h (lw_world lw))"

text \<open>The answers of the system for the calls of the manager in turn.\<close>

definition logger_created ::
  "(nat \<Rightarrow> u64) \<Rightarrow> (nat \<Rightarrow> os_env) \<Rightarrow> LoggerOptions \<Rightarrow> string \<Rightarrow> ShmHandle \<Rightarrow> log_world \<Rightarrow>
   (Logger Result \<times> log_world) option" where
  "logger_created addr env options segment_name handle lw =
     (case ring_initialize (handle_span addr lw handle) (lo_record_max options) (lo_max_payload options) of
        Inl e \<Rightarrow> do {
          (_, w1) \<leftarrow> destroy (env 1) segment_name (lw_world lw);
          lw1 \<leftarrow> drop_handle (env 2) handle (lw\<lparr>lw_world := w1\<rparr>);
          Some (Inl e, lw1)
        }
      | Inr ring \<Rightarrow>
          let v = view_of handle ring
          in Some (Inr \<lparr>lg_handle = handle, lg_ring = v, lg_segment_name = segment_name\<rparr>, close_ring v ring lw))"

definition logger_attached ::
  "(nat \<Rightarrow> u64) \<Rightarrow> (nat \<Rightarrow> os_env) \<Rightarrow> string \<Rightarrow> log_world \<Rightarrow> (Logger Result \<times> log_world) option" where
  "logger_attached addr env segment_name lw = do {
     (attached, w1) \<leftarrow> attach (env 1) segment_name ReadWrite (lw_world lw);
     let lw1 = lw\<lparr>lw_world := w1\<rparr>;
     case attached of
       Inl e \<Rightarrow> Some (Inl e, lw1)
     | Inr handle \<Rightarrow>
         (case bind_logger_ring addr lw1 handle of
            Inl e \<Rightarrow> map_option (\<lambda>lw2. (Inl e, lw2)) (drop_handle (env 2) handle lw1)
          | Inr ring \<Rightarrow>
              Some (Inr \<lparr>lg_handle = handle, lg_ring = view_of handle ring, lg_segment_name = segment_name\<rparr>, lw1))
   }"

definition logger_init ::
  "(nat \<Rightarrow> u64) \<Rightarrow> (nat \<Rightarrow> os_env) \<Rightarrow> LoggerOptions \<Rightarrow> log_world \<Rightarrow> (Logger Result \<times> log_world) option" where
  "logger_init addr env options lw =
     (if \<not> valid_service_name (lo_service_name options) \<or> lo_record_max options = 0 \<or> lo_max_payload options = 0
      then Some (Inl InvalidName, lw)
      else
        let segment_name =
              (if lo_segment_name options = []
               then default_segment_name (os_pid (env 0)) (lo_service_name options)
               else lo_segment_name options)
        in if SHMFX_NAME_BYTES \<le> length segment_name then Some (Inl InvalidName, lw)
           else do {
             (created, lw1) \<leftarrow> create_segment (env 0) (make_create_options options segment_name) lw;
             case created of
               Inr handle \<Rightarrow> logger_created addr env options segment_name handle lw1
             | Inl e \<Rightarrow>
                 if e \<noteq> AlreadyExists then Some (Inl e, lw1)
                 else logger_attached addr env segment_name lw1
           })"

definition logger_init_service ::
  "(nat \<Rightarrow> u64) \<Rightarrow> (nat \<Rightarrow> os_env) \<Rightarrow> string \<Rightarrow> log_world \<Rightarrow> (Logger Result \<times> log_world) option" where
  "logger_init_service addr env service_name =
     logger_init addr env (default_options\<lparr>lo_service_name := service_name\<rparr>)"

text \<open>The destructor.\<close>

definition logger_close :: "os_env \<Rightarrow> Logger \<Rightarrow> log_world \<Rightarrow> log_world option" where
  "logger_close env lg lw = drop_handle env (lg_handle lg) lw"

definition segment_name :: "Logger \<Rightarrow> string" where
  "segment_name lg = lg_segment_name lg"

definition logger_lost_count :: "Logger \<Rightarrow> log_world \<Rightarrow> u64" where
  "logger_lost_count lg lw = ring_lost_count (open_ring (lg_ring lg) lw)"

section \<open>Publishing\<close>

text \<open>
  What one call meets: the compare-exchanges that fail spuriously, and two clock readings.
\<close>

record log_env =
  le_weak :: "nat \<Rightarrow> bool"
  le_clock :: "(u64 \<times> u64) option"
  le_clock_again :: "(u64 \<times> u64) option"

definition publish ::
  "log_env \<Rightarrow> LogLevel \<Rightarrow> u16 \<Rightarrow> u8 list \<Rightarrow> Logger \<Rightarrow> log_world \<Rightarrow> VoidResult \<times> log_world" where
  "publish le level flags payload lg =
     on_ring (lg_ring lg)
       (try_push (le_weak le) (log_level_code level) flags
          (monotonic_record_time (le_clock le) (le_clock_again le)) payload)"

definition text_bytes :: "string \<Rightarrow> u8 list" where
  "text_bytes s = map byte_of_char s"

text \<open>
  \<^verbatim>\<open>vsnprintf\<close> with the arguments of the call: the full expansion of the format, or a failure. The
  buffer gets a prefix and the result is the full length. A null format is \<open>None\<close>.
\<close>

definition vlog ::
  "log_env \<Rightarrow> (string \<Rightarrow> string option) \<Rightarrow> LogLevel \<Rightarrow> string option \<Rightarrow> Logger \<Rightarrow> log_world \<Rightarrow>
   VoidResult \<times> log_world" where
  "vlog le expand level fmt lg lw =
     (case fmt of
        None \<Rightarrow> (InvalidName, lw)
      | Some f \<Rightarrow>
          (case expand f of
             None \<Rightarrow> (CorruptedHeader, lw)
           | Some output \<Rightarrow>
               let rc = length output;
                   written = min rc (kFormatBufferBytes - 1)
               in publish le level (if kFormatBufferBytes \<le> rc then LogTruncated else 0)
                    (text_bytes (take written output)) lg lw))"

definition log_text :: "log_env \<Rightarrow> LogLevel \<Rightarrow> string \<Rightarrow> Logger \<Rightarrow> log_world \<Rightarrow> VoidResult \<times> log_world" where
  "log_text le level message = publish le level 0 (text_bytes message)"

definition log_binary :: "log_env \<Rightarrow> LogLevel \<Rightarrow> u8 list \<Rightarrow> Logger \<Rightarrow> log_world \<Rightarrow> VoidResult \<times> log_world" where
  "log_binary le level payload = publish le level LogBinary payload"

definition log_fmt ::
  "log_env \<Rightarrow> (string \<Rightarrow> string option) \<Rightarrow> LogLevel \<Rightarrow> string option \<Rightarrow> Logger \<Rightarrow> log_world \<Rightarrow> VoidResult \<times> log_world" where
  "log_fmt le expand level fmt = vlog le expand level fmt"

definition log_trace ::
  "log_env \<Rightarrow> (string \<Rightarrow> string option) \<Rightarrow> string option \<Rightarrow> Logger \<Rightarrow> log_world \<Rightarrow> VoidResult \<times> log_world" where
  "log_trace le expand fmt = vlog le expand Trace fmt"

definition log_debug ::
  "log_env \<Rightarrow> (string \<Rightarrow> string option) \<Rightarrow> string option \<Rightarrow> Logger \<Rightarrow> log_world \<Rightarrow> VoidResult \<times> log_world" where
  "log_debug le expand fmt = vlog le expand Debug fmt"

definition log_info ::
  "log_env \<Rightarrow> (string \<Rightarrow> string option) \<Rightarrow> string option \<Rightarrow> Logger \<Rightarrow> log_world \<Rightarrow> VoidResult \<times> log_world" where
  "log_info le expand fmt = vlog le expand Info fmt"

definition log_warn ::
  "log_env \<Rightarrow> (string \<Rightarrow> string option) \<Rightarrow> string option \<Rightarrow> Logger \<Rightarrow> log_world \<Rightarrow> VoidResult \<times> log_world" where
  "log_warn le expand fmt = vlog le expand Warn fmt"

definition log_error ::
  "log_env \<Rightarrow> (string \<Rightarrow> string option) \<Rightarrow> string option \<Rightarrow> Logger \<Rightarrow> log_world \<Rightarrow> VoidResult \<times> log_world" where
  "log_error le expand fmt = vlog le expand Error fmt"

definition log_fatal ::
  "log_env \<Rightarrow> (string \<Rightarrow> string option) \<Rightarrow> string option \<Rightarrow> Logger \<Rightarrow> log_world \<Rightarrow> VoidResult \<times> log_world" where
  "log_fatal le expand fmt = vlog le expand Fatal fmt"

end
