(* ===== verification/Log_Center.thy ===== *)
theory Log_Center
  imports Shm_Logger
begin

text \<open>
  The consumer of the logging application, \<^verbatim>\<open>apps/logging/src/log_center.cpp\<close> and \<^verbatim>\<open>log_center.h\<close>: finding the
  rings of the producers in the registry, draining them into a sink, letting go of dead ones. The sink
  is a function with a state of its own.
\<close>

section \<open>Records\<close>

record LogRecord =
  lr_source :: string
  lr_level :: LogLevel
  lr_flags :: u16
  lr_timestamp_ns :: u64
  lr_payload :: string

definition decode_level :: "u16 \<Rightarrow> LogLevel" where
  "decode_level type =
     (if type \<le> log_level_code Fatal
      then (if type = 0 then Trace else if type = 1 then Debug else if type = 2 then Info
            else if type = 3 then Warn else if type = 4 then Error else Fatal)
      else Info)"

definition segment_dead :: "ShmHeader \<Rightarrow> bool" where
  "segment_dead header \<longleftrightarrow> h_state header = segment_state_code Dead"

section \<open>The center\<close>

record LogCenterOptions =
  lco_prefix :: string
  lco_drain_batch :: u32
  lco_scratch_bytes :: u32

definition default_center_options :: LogCenterOptions where
  "default_center_options = \<lparr>lco_prefix = ''/shmfx.log.'', lco_drain_batch = 256, lco_scratch_bytes = 4096\<rparr>"

record AttachedRing =
  ar_name :: string
  ar_handle :: ShmHandle
  ar_ring :: ring_view
  ar_remove_after_drain :: bool

definition AttachedRing_of :: "string \<Rightarrow> ShmHandle \<Rightarrow> ring_view \<Rightarrow> AttachedRing" where
  "AttachedRing_of name handle ring =
     \<lparr>ar_name = name, ar_handle = handle, ar_ring = ring, ar_remove_after_drain = False\<rparr>"

record 's LogCenter =
  lc_options :: LogCenterOptions
  lc_sink :: "LogRecord \<Rightarrow> 's \<Rightarrow> 's"
  lc_rings :: "AttachedRing list"
  lc_backoff :: AdaptiveBackoff

definition LogCenter_of :: "LogCenterOptions \<Rightarrow> 's LogCenter" where
  "LogCenter_of options =
     \<lparr>lc_options = options, lc_sink = (\<lambda>_ s. s), lc_rings = [], lc_backoff = \<lparr>spin_count = 0\<rparr>\<rparr>"

definition default_center :: "'s LogCenter" where
  "default_center = LogCenter_of default_center_options"

definition set_sink :: "(LogRecord \<Rightarrow> 's \<Rightarrow> 's) option \<Rightarrow> 's LogCenter \<Rightarrow> 's LogCenter" where
  "set_sink sink c = c\<lparr>lc_sink := case sink of None \<Rightarrow> (\<lambda>_ s. s) | Some f \<Rightarrow> f\<rparr>"

definition attached_count :: "'s LogCenter \<Rightarrow> nat" where
  "attached_count c = length (lc_rings c)"

section \<open>Discovery\<close>

definition attach_ring ::
  "(nat \<Rightarrow> u64) \<Rightarrow> os_env \<Rightarrow> string \<Rightarrow> 's LogCenter \<Rightarrow> log_world \<Rightarrow> (VoidResult \<times> 's LogCenter \<times> log_world) option" where
  "attach_ring addr env name c lw =
     (if list_ex (\<lambda>ring. ar_name ring = name) (lc_rings c) then Some (Ok, c, lw)
      else do {
        (attached, w1) \<leftarrow> attach env name ReadWrite (lw_world lw);
        let lw1 = lw\<lparr>lw_world := w1\<rparr>;
        case attached of
          Inl e \<Rightarrow> Some (e, c, lw1)
        | Inr handle \<Rightarrow>
            if h_segment_type (header_at w1 (hd_base handle)) \<noteq> segment_type_code RecordRing \<or>
               snd (handle_metadata w1 handle) < unat sizeof_RecordRingMeta
            then map_option (\<lambda>lw2. (CorruptedHeader, c, lw2)) (drop_handle env handle lw1)
            else (case ring_bind (logger_ring_meta lw1 handle) (handle_span addr lw1 handle) of
                    Inl e \<Rightarrow> map_option (\<lambda>lw2. (e, c, lw2)) (drop_handle env handle lw1)
                  | Inr ring \<Rightarrow>
                      Some (Ok, c\<lparr>lc_rings := lc_rings c @ [AttachedRing_of name handle (view_of handle ring)]\<rparr>, lw1))
      })"

text \<open>The answers of the system differ from one attachment to the next.\<close>

fun discover_loop ::
  "(nat \<Rightarrow> u64) \<Rightarrow> (nat \<Rightarrow> os_env) \<Rightarrow> RegistryEntry list \<Rightarrow> 's LogCenter \<Rightarrow> log_world \<Rightarrow>
   (VoidResult \<times> 's LogCenter \<times> log_world) option" where
  "discover_loop addr env [] c lw = Some (Ok, c, lw)"
| "discover_loop addr env (entry # entries) c lw =
     (if re_segment_type entry \<noteq> segment_type_code RecordRing
      then discover_loop addr (env \<circ> Suc) entries c lw
      else do {
        (attached, c1, lw1) \<leftarrow> attach_ring addr (env 0) (entry_name entry) c lw;
        if attached \<noteq> Ok then Some (attached, c1, lw1)
        else discover_loop addr (env \<circ> Suc) entries c1 lw1
      })"

definition discover_once ::
  "(nat \<Rightarrow> u64) \<Rightarrow> (nat \<Rightarrow> os_env) \<Rightarrow> 's LogCenter \<Rightarrow> log_world \<Rightarrow> (VoidResult \<times> 's LogCenter \<times> log_world) option" where
  "discover_once addr env c lw = do {
     w1 \<leftarrow> registry_instance (env 0) (lw_world lw);
     w2 \<leftarrow> gc (env 0) w1;
     (entries, w3) \<leftarrow> registry_list (env 0) (lco_prefix (lc_options c)) w2;
     discover_loop addr (env \<circ> Suc) entries c (lw\<lparr>lw_world := w3\<rparr>)
   }"

section \<open>Draining\<close>

definition decode_record :: "string \<Rightarrow> PoppedRecord \<Rightarrow> u8 list \<Rightarrow> LogRecord" where
  "decode_record name popped scratch =
     \<lparr>lr_source = name, lr_level = decode_level (pr_type popped), lr_flags = pr_flags popped,
      lr_timestamp_ns = pr_user popped,
      lr_payload = map (\<lambda>b. char_of (unat b)) (take (unat (pr_copied_size popped)) scratch)\<rparr>"

fun drain_loop ::
  "(LogRecord \<Rightarrow> 's \<Rightarrow> 's) \<Rightarrow> string \<Rightarrow> nat \<Rightarrow> u8 list \<Rightarrow> 's \<Rightarrow> MpscRing \<Rightarrow> (nat \<times> 's) \<times> MpscRing" where
  "drain_loop sink name 0 scratch s r = ((0, s), r)"
| "drain_loop sink name (Suc n) scratch s r =
     (case try_pop scratch r of
        None \<Rightarrow> ((0, s), r)
      | Some (scratch', popped, r') \<Rightarrow>
          (case drain_loop sink name n scratch' (sink (decode_record name popped scratch') s) r' of
             ((drained, s'), r'') \<Rightarrow> ((Suc drained, s'), r'')))"

definition drain_ring ::
  "'s LogCenter \<Rightarrow> AttachedRing \<Rightarrow> 's \<Rightarrow> log_world \<Rightarrow> u32 \<times> AttachedRing \<times> 's \<times> log_world" where
  "drain_ring c ring s lw =
     (let ring1 = (if segment_dead (header_at (lw_world lw) (hd_base (ar_handle ring)))
                   then ring\<lparr>ar_remove_after_drain := True\<rparr> else ring);
          scratch = replicate (unat (lco_scratch_bytes (lc_options c))) 0
      in case on_ring (ar_ring ring)
                (drain_loop (lc_sink c) (ar_name ring) (unat (lco_drain_batch (lc_options c))) scratch s) lw of
           ((drained, s'), lw') \<Rightarrow> (of_nat drained, ring1, s', lw'))"

fun drain_rings ::
  "'s LogCenter \<Rightarrow> AttachedRing list \<Rightarrow> 's \<Rightarrow> log_world \<Rightarrow> u32 \<times> AttachedRing list \<times> 's \<times> log_world" where
  "drain_rings c [] s lw = (0, [], s, lw)"
| "drain_rings c (ring # rings) s lw =
     (case drain_ring c ring s lw of
        (n, ring1, s1, lw1) \<Rightarrow>
          (case drain_rings c rings s1 lw1 of (m, rings1, s2, lw2) \<Rightarrow> (n + m, ring1 # rings1, s2, lw2)))"

text \<open>The handles of rings that are erased are reset, in the order of the rings.\<close>

fun drop_rings :: "os_env \<Rightarrow> AttachedRing list \<Rightarrow> log_world \<Rightarrow> log_world option" where
  "drop_rings env [] lw = Some lw"
| "drop_rings env (ring # rings) lw = do {
     lw1 \<leftarrow> drop_handle env (ar_handle ring) lw;
     drop_rings env rings lw1
   }"

definition drain_once ::
  "os_env \<Rightarrow> 's LogCenter \<Rightarrow> 's \<Rightarrow> log_world \<Rightarrow> (u32 \<times> 's LogCenter \<times> 's \<times> log_world) option" where
  "drain_once env c s lw =
     (case drain_rings c (lc_rings c) s lw of
        (drained, rings, s1, lw1) \<Rightarrow> do {
          lw2 \<leftarrow> drop_rings env (filter ar_remove_after_drain rings) lw1;
          Some (drained, c\<lparr>lc_rings := filter (\<lambda>ring. \<not> ar_remove_after_drain ring) rings\<rparr>, s1, lw2)
        })"

text \<open>One pass: the number of records, what the idle call did if there were none, the center, the sink's state.\<close>

definition poll_once ::
  "(nat \<Rightarrow> u64) \<Rightarrow> (nat \<Rightarrow> os_env) \<Rightarrow> os_env \<Rightarrow> 's LogCenter \<Rightarrow> 's \<Rightarrow> log_world \<Rightarrow>
   ((u32 \<times> idle_action option) \<times> 's LogCenter \<times> 's \<times> log_world) option" where
  "poll_once addr env env' c s lw = do {
     (_, c1, lw1) \<leftarrow> discover_once addr env c lw;
     (drained, c2, s1, lw2) \<leftarrow> drain_once env' c1 s lw1;
     Some (if drained = 0
           then (case backoff_idle (lc_backoff c2) of
                   (action, b) \<Rightarrow> ((drained, Some action), c2\<lparr>lc_backoff := b\<rparr>, s1, lw2))
           else ((drained, None), c2\<lparr>lc_backoff := backoff_reset (lc_backoff c2)\<rparr>, s1, lw2))
   }"

text \<open>The destructor.\<close>

definition center_close :: "os_env \<Rightarrow> 's LogCenter \<Rightarrow> log_world \<Rightarrow> log_world option" where
  "center_close env c lw = drop_rings env (lc_rings c) lw"

end
