(* ===== verification/Log_Rings.thy ===== *)
theory Log_Rings
  imports Log_Center
begin

text \<open>
  The rings of the logging application as queues of log records: a logger's ring offers the interface
  of a bounded queue whose entries are the decoded records, and the center's loop takes them out in
  order.
\<close>

section \<open>Views of ring storage\<close>

definition ring_ok :: "ring_view \<Rightarrow> log_world \<Rightarrow> bool" where
  "ring_ok v lw \<longleftrightarrow>
     ring_inv (open_ring v lw) \<and> rv_size v \<le> length (sg_bytes (lw_rings lw (rv_segment v)))"

text \<open>What no operation of a ring changes.\<close>

definition ring_frame :: "MpscRing \<Rightarrow> u64 \<times> u32 \<times> u32" where
  "ring_frame r = (sp_data (mr_payload r), record_max (ring_meta r), record_stride (ring_meta r))"

lemma ring_inv_length:
  assumes "ring_inv r"
  shows "length (ring_bytes r) = layout_size (unat (record_max (ring_meta r))) (unat (record_stride (ring_meta r)))"
    "mr_meta r = Some (ring_meta r)"
  using assms by (auto simp: ring_inv_def ring_fits_def ring_meta_def)

lemma ring_frame_ops [simp]:
  "ring_frame (set_bytes m r) = ring_frame r" "ring_frame (bump_lost r) = ring_frame r"
  by (cases "mr_meta r"; simp add: ring_frame_def set_bytes_def bump_lost_def ring_meta_def)+

lemma open_close:
  assumes "ring_ok v lw" "ring_inv r" "ring_frame r = ring_frame (open_ring v lw)"
  shows "open_ring v (close_ring v r lw) = r" "ring_ok v (close_ring v r lw)"
proof -
  have len: "length (ring_bytes r) = rv_size v"
    using assms ring_inv_length(1) [OF assms(2)] ring_inv_length(1) [of "open_ring v lw"]
    by (auto simp: ring_ok_def ring_frame_def) (simp add: open_ring_def ring_bytes_def)
  moreover have d: "sp_data (mr_payload r) = rv_data v"
    using assms(3) by (simp add: ring_frame_def open_ring_def)
  moreover have "length (sg_bytes (lw_rings lw (rv_segment v))) \<ge> rv_size v"
    using assms(1) by (simp add: ring_ok_def)
  moreover have "mr_payload r = \<lparr>sp_data = sp_data (mr_payload r), sp_bytes = ring_bytes r\<rparr>"
    by (simp add: ring_bytes_def)
  moreover have "r = \<lparr>mr_meta = Some (ring_meta r), mr_payload = mr_payload r\<rparr>"
    using ring_inv_length(2) [OF assms(2)] by (metis MpscRing.surjective old.unit.exhaust)
  ultimately show o: "open_ring v (close_ring v r lw) = r"
    by (simp add: open_ring_def close_ring_def store_bytes_def)
  show "ring_ok v (close_ring v r lw)"
    unfolding ring_ok_def o using assms(2) len by (simp add: close_ring_def store_bytes_def)
qed

lemma other_view:
  assumes "rv_segment v' = rv_segment v" "rv_size v' = rv_size v"
  shows "ring_ok v' lw = ring_ok v lw" "ring_items (open_ring v' lw) = ring_items (open_ring v lw)"
    "ring_meta (open_ring v' lw) = ring_meta (open_ring v lw)" "ring_room (open_ring v' lw) = ring_room (open_ring v lw)"
proof -
  have "ring_bytes (open_ring v' lw) = ring_bytes (open_ring v lw)" "mr_meta (open_ring v' lw) = mr_meta (open_ring v lw)"
    using assms by (simp_all add: open_ring_def ring_bytes_def)
  then show "ring_ok v' lw = ring_ok v lw" "ring_items (open_ring v' lw) = ring_items (open_ring v lw)"
      "ring_meta (open_ring v' lw) = ring_meta (open_ring v lw)" "ring_room (open_ring v' lw) = ring_room (open_ring v lw)"
    using assms by (simp_all add: ring_ok_def ring_inv_def ring_items_def ring_meta_def ring_room_def head_pos_def tail_pos_def)
qed

section \<open>Records of a ring\<close>

lemma unat_byte_of_char [simp]: "unat (byte_of_char c) = of_char c"
  by (simp add: byte_of_char_def unat_of_nat)

definition byte_text :: "u8 list \<Rightarrow> string" where
  "byte_text bs = map (\<lambda>b. char_of (unat b)) bs"

lemma byte_text_bytes [simp]: "byte_text (text_bytes s) = s"
  by (simp add: byte_text_def text_bytes_def comp_def)

lemma text_bytes_laws [simp]: "length (text_bytes s) = length s" "take n (text_bytes s) = text_bytes (take n s)"
  by (simp_all add: text_bytes_def take_map)

lemma decode_level_code [simp]: "decode_level (log_level_code l) = l"
  by (cases l) (simp_all add: decode_level_def)

text \<open>The log record the center makes of a stored record, with \<open>n\<close> bytes of scratch memory.\<close>

definition log_record :: "string \<Rightarrow> nat \<Rightarrow> slot_record \<Rightarrow> LogRecord" where
  "log_record name n a =
     \<lparr>lr_source = name, lr_level = decode_level (sr_type a), lr_flags = sr_flags a,
      lr_timestamp_ns = sr_user a, lr_payload = byte_text (take n (sr_data a))\<rparr>"

lemma decode_popped:
  assumes "ring_inv r" "a \<in> set (ring_items r)"
  shows "decode_record name (popped_of (length out) a) (store_bytes 0 (take (length out) (sr_data a)) out) =
    log_record name (length out) a"
proof -
  have "take (min (length out) (length (sr_data a))) (store_bytes 0 (take (length out) (sr_data a)) out) =
      take (length out) (sr_data a)"
    by (auto simp: store_bytes_def min_def)
  then show ?thesis
    by (simp add: decode_record_def popped_copied_size [OF assms] log_record_def byte_text_def)
      (simp add: popped_of_def)
qed

text \<open>The loop feeds the sink the records in order, at most as many as the batch allows.\<close>

lemma drain_loop_items:
  assumes "ring_inv r"
  shows "\<exists>r'. drain_loop sink name n scratch s r =
      ((min n (length (ring_items r)), fold sink (map (log_record name (length scratch)) (take n (ring_items r))) s), r') \<and>
    ring_inv r' \<and> ring_items r' = drop n (ring_items r) \<and> ring_frame r' = ring_frame r"
  using assms
proof (induction n arbitrary: scratch s r)
  case 0
  then show ?case by simp
next
  case (Suc n)
  show ?case
  proof (cases "ring_items r")
    case Nil
    then show ?thesis
      using Suc.prems by (simp add: try_pop_empty)
  next
    case (Cons a as)
    let ?r = "set_bytes (pop_bytes (ring_meta r) (of_nat (head_pos r)) (ring_bytes r)) r"
    let ?sc = "store_bytes 0 (take (length scratch) (sr_data a)) scratch"
    have "length ?sc = length scratch"
      by (simp add: store_bytes_def)
    then show ?thesis
      using Suc.IH [OF pop_preserves(1) [OF Suc.prems Cons], of ?sc "sink (log_record name (length scratch) a) s"]
        pop_preserves(2) [OF Suc.prems Cons] decode_popped [OF Suc.prems, of a name scratch] Cons
      by (auto simp: try_pop_item [OF Suc.prems Cons])
  qed
qed

lemma drain_ring_items:
  assumes "ring_ok (ar_ring ar) lw"
    and "b = unat (lco_drain_batch (lc_options c))" "n = unat (lco_scratch_bytes (lc_options c))"
    and "its = ring_items (open_ring (ar_ring ar) lw)"
  shows "\<exists>lw'. drain_ring c ar s lw =
      (of_nat (min b (length its)),
       if segment_dead (header_at (lw_world lw) (hd_base (ar_handle ar))) then ar\<lparr>ar_remove_after_drain := True\<rparr> else ar,
       fold (lc_sink c) (map (log_record (ar_name ar) n) (take b its)) s, lw') \<and>
    ring_ok (ar_ring ar) lw' \<and> ring_items (open_ring (ar_ring ar) lw') = drop b its \<and> lw_world lw' = lw_world lw \<and>
    ring_frame (open_ring (ar_ring ar) lw') = ring_frame (open_ring (ar_ring ar) lw)"
proof -
  let ?r = "open_ring (ar_ring ar) lw"
  obtain r' where r': "drain_loop (lc_sink c) (ar_name ar) b (replicate n 0) s ?r =
        ((min b (length its), fold (lc_sink c) (map (log_record (ar_name ar) n) (take b its)) s), r')"
      "ring_inv r'" "ring_items r' = drop b its" "ring_frame r' = ring_frame ?r"
    using drain_loop_items [of ?r "lc_sink c" "ar_name ar" b "replicate n 0" s] assms(1,4)
    by (auto simp: ring_ok_def)
  then show ?thesis
    using open_close [OF assms(1) r'(2,4)] r'(4) unfolding drain_ring_def on_ring_def Let_def assms(2,3) [symmetric]
    by (auto simp: close_ring_def)
qed

section \<open>A logger's ring as a bounded queue\<close>

record log_request =
  lq_env :: log_env
  lq_level :: LogLevel
  lq_flags :: u16
  lq_payload :: "u8 list"

definition log_push :: "ring_view \<Rightarrow> log_request \<Rightarrow> log_world \<Rightarrow> bool \<times> log_world" where
  "log_push v x lw =
     (case on_ring v
             (try_push (le_weak (lq_env x)) (log_level_code (lq_level x)) (lq_flags x)
                (monotonic_record_time (le_clock (lq_env x)) (le_clock_again (lq_env x))) (lq_payload x)) lw of
        (e, lw') \<Rightarrow> (e = Ok, lw'))"

definition log_pop :: "string \<Rightarrow> nat \<Rightarrow> ring_view \<Rightarrow> log_world \<Rightarrow> (LogRecord \<times> log_world) option" where
  "log_pop name n v lw =
     (case try_pop (replicate n 0) (open_ring v lw) of
        None \<Rightarrow> None
      | Some (scratch, popped, r) \<Rightarrow> Some (decode_record name popped scratch, close_ring v r lw))"

definition request_record :: "string \<Rightarrow> nat \<Rightarrow> nat \<Rightarrow> log_request \<Rightarrow> LogRecord" where
  "request_record name n mp x =
     \<lparr>lr_source = name, lr_level = lq_level x,
      lr_flags = (if mp < length (lq_payload x) then lq_flags x OR LogTruncated else lq_flags x),
      lr_timestamp_ns = monotonic_record_time (le_clock (lq_env x)) (le_clock_again (lq_env x)),
      lr_payload = byte_text (take n (take mp (lq_payload x)))\<rparr>"

abbreviation view_room :: "ring_view \<Rightarrow> log_world \<Rightarrow> nat" where
  "view_room v lw \<equiv> ring_room (open_ring v lw)"

abbreviation view_life :: "ring_view \<Rightarrow> log_world \<Rightarrow> nat" where
  "view_life v lw \<equiv> ring_life (open_ring v lw)"

abbreviation view_max_payload :: "ring_view \<Rightarrow> log_world \<Rightarrow> nat" where
  "view_max_payload v lw \<equiv> unat (max_payload_of (ring_meta (open_ring v lw)))"

definition view_records :: "string \<Rightarrow> nat \<Rightarrow> ring_view \<Rightarrow> log_world \<Rightarrow> LogRecord list" where
  "view_records name n v lw = map (log_record name n) (ring_items (open_ring v lw))"

abbreviation env_live :: "log_env \<Rightarrow> bool" where
  "env_live le \<equiv> (\<exists>k<MPSC_CAS_RETRY_BUDGET. \<not> le_weak le k)"

lemma stored_request:
  "log_record name n (stored_record meta (log_level_code (lq_level x)) (lq_flags x)
     (monotonic_record_time (le_clock (lq_env x)) (le_clock_again (lq_env x))) (lq_payload x)) =
   request_record name n (unat (max_payload_of meta)) x"
  by (simp add: log_record_def stored_record_def request_record_def stored_flags_def LogTruncated_def)

lemma view_frame:
  assumes "ring_frame r = ring_frame r'"
  shows "max_payload_of (ring_meta r) = max_payload_of (ring_meta r')"
  using assms by (simp add: ring_frame_def max_payload_of_def)

interpretation log_fifo: bounded_fifo "ring_ok v" "view_records name n v" "view_room v" "view_life v"
    "\<lambda>x. env_live (lq_env x)" "\<lambda>lw. request_record name n (view_max_payload v lw)" "log_push v" "log_pop name n v"
  for v name n
proof
  fix lw lw' :: log_world and x :: log_request and ok
  let ?r = "open_ring v lw"
  assume ok: "ring_ok v lw" and push: "log_push v x lw = (ok, lw')"
  then have inv: "ring_inv ?r"
    by (simp add: ring_ok_def)
  {
    assume "env_live (lq_env x)" "0 < view_life v lw" "0 < view_room v lw"
    note h = inv this
    show "ok \<and> ring_ok v lw' \<and> view_records name n v lw' =
        view_records name n v lw @ [request_record name n (view_max_payload v lw) x] \<and>
      Suc (view_room v lw') = view_room v lw \<and> Suc (view_life v lw') = view_life v lw \<and>
      (request_record name n (view_max_payload v lw')) = (request_record name n (view_max_payload v lw))"
      using push push_preserves [OF h(1,3,4)] open_close [OF ok push_preserves(1) [OF h(1,3,4)]]
      by (auto simp: log_push_def on_ring_def try_push_room [OF h] view_records_def stored_request
          view_frame [OF ring_frame_ops(1)])
  }
  {
    assume full: "view_room v lw = 0"
    show "\<not> ok \<and> ring_ok v lw' \<and> view_records name n v lw' = view_records name n v lw \<and>
      view_room v lw' = 0 \<and> view_life v lw' = view_life v lw \<and>
      (request_record name n (view_max_payload v lw')) = (request_record name n (view_max_payload v lw))"
      using push ring_bump_lost [OF inv] open_close [OF ok ring_bump_lost(1) [OF inv]] full
      by (auto simp: log_push_def on_ring_def try_push_full [OF inv full] view_records_def
          view_frame [OF ring_frame_ops(2)])
  }
next
  fix lw :: log_world and a as
  assume ok: "ring_ok v lw"
  then have inv: "ring_inv (open_ring v lw)"
    by (simp add: ring_ok_def)
  {
    assume "view_records name n v lw = []"
    then show "log_pop name n v lw = None"
      using inv by (simp add: log_pop_def view_records_def try_pop_empty)
  }
  {
    assume "view_records name n v lw = a # as"
    then obtain b bs where b: "ring_items (open_ring v lw) = b # bs" "a = log_record name n b" "as = map (log_record name n) bs"
      by (auto simp: view_records_def)
    show "\<exists>lw'. log_pop name n v lw = Some (a, lw') \<and> ring_ok v lw' \<and> view_records name n v lw' = as \<and>
      view_room v lw' = Suc (view_room v lw) \<and> view_life v lw' = view_life v lw \<and>
      (request_record name n (view_max_payload v lw')) = (request_record name n (view_max_payload v lw))"
      using pop_preserves [OF inv b(1)] open_close [OF ok pop_preserves(1) [OF inv b(1)]]
        decode_popped [OF inv, of b name "replicate n 0"] b
      by (simp add: log_pop_def try_pop_item [OF inv b(1)] view_records_def view_frame [OF ring_frame_ops(1)])
  }
qed

end
