(* ===== verification/Manager_Theorems.thy ===== *)
theory Manager_Theorems
  imports Manager_Release
begin

text \<open>
  The properties of the segment manager and the janitor, with a concrete system as witness.
\<close>


section \<open>Demonstration\<close>

definition demo_env :: os_env where
  "demo_env =
     \<lparr>os_open_fail = (\<lambda>_. None), os_unlink_fail = (\<lambda>_. None), os_fstat_fail = (\<lambda>_. None),
      os_ftruncate_fail = None, os_mmap_fail = (\<lambda>_. None), os_fchmod = 0,
      os_mutex = \<lparr>mc_attr_init = 0, mc_setpshared = 0, mc_setrobust = 0, mc_init = 0\<rparr>,
      os_stale_errno = EOther, os_pid = 42, os_realtime = 9, os_clock = (\<lambda>_. Some (5, 0)),
      os_proc = demo_proc, os_maps = (\<lambda>_. None), os_keys = \<lparr>ks_env = None, ks_file = None\<rparr>\<rparr>"

definition empty_world :: world where
  "empty_world =
     \<lparr>w_names = Map.empty, w_objects = (\<lambda>_. \<lparr>ob_size = 0, ob_header = zero_header, ob_registry = empty_payload\<rparr>),
      w_next = 1, w_registry = None, w_heartbeat = no_heartbeat\<rparr>"

definition demo_world :: world where
  "demo_world = add_registry demo_env empty_world"

lemma demo_calm: "calm demo_env name"
  by (simp add: calm_def demo_env_def init_control_mutex_def)

lemma empty_world_ok: "names_ok empty_world" "REGISTRY_NAME \<notin> dom (w_names empty_world)" "w_registry empty_world = None"
  by (simp_all add: names_ok_def empty_world_def no_heartbeat_def)

lemma demo_world_ok: "world_ok demo_world" "reg_map demo_world = Map.empty" "demo_name \<notin> dom (w_names demo_world)"
proof -
  show "world_ok demo_world" "reg_map demo_world = Map.empty"
    unfolding demo_world_def by (rule add_registry_ok [OF empty_world_ok(1,2)])+
  show "demo_name \<notin> dom (w_names demo_world)"
    by (simp add: demo_world_def add_registry_def empty_world_def demo_name_def shm_consts)
qed

lemma listed_dom:
  assumes "registry_ok p" "e \<in> set (listed prefix p)"
  shows "entry_key e \<in> dom (registry_map p)"
  using assms registry_map_dom [of p]
  by (auto simp: registry_ok_def listed_def occupied_slots_def image_iff)

lemma listed_empty: "registry_ok p \<Longrightarrow> registry_map p = Map.empty \<Longrightarrow> listed prefix p = []"
  using listed_dom [of p _ prefix] by (cases "listed prefix p") auto

lemma demo_create:
  "validate_create_security demo_options (listed [] (reg_payload demo_world)) = Ok"
  "\<not> co_total_size demo_options < align_up (SHMFX_HEADER_SIZE + co_meta_size demo_options) SHMFX_CACHE_LINE_BYTES"
proof -
  have l: "listed [] (reg_payload demo_world) = []"
    using demo_world_ok(2) world_ok_registry [OF demo_world_ok(1)] by (intro listed_empty)
  show "validate_create_security demo_options (listed [] (reg_payload demo_world)) = Ok"
    using demo_name_parse unfolding l
    by (simp add: validate_create_security_def demo_options_def shm_consts kMaxNamespaceSegments_def push_bit_eq_mult)
  show "\<not> co_total_size demo_options < align_up (SHMFX_HEADER_SIZE + co_meta_size demo_options) SHMFX_CACHE_LINE_BYTES"
    by (simp add: demo_options_def align_up_def shm_consts)
qed

text \<open>A pass over live segments changes nothing.\<close>

lemma gc_entry_live:
  assumes "live_segment env now (entry_name e) k w"
  shows "gc_entry env now e w = Some w"
proof -
  have "shm_open env (entry_name e) w = Inr k"
    using assms by (simp add: live_segment_def shm_open_def)
  moreover have "\<not> ob_size (w_objects w k) < SHMFX_HEADER_SIZE"
    using assms by (simp add: live_segment_def not_less)
  ultimately show ?thesis
    using assms by (simp add: gc_entry_def live_segment_def Let_def)
qed

lemma gc_live:
  assumes "world_ok w" "live_segment env (monotonic_ns (os_clock env 0)) n k w" "dom (reg_map w) \<subseteq> {n}"
  shows "gc env w = Some w"
proof -
  have "gc_loop env (monotonic_ns (os_clock env 0)) es w = Some w" if "\<forall>e \<in> set es. entry_name e = n" for es
    using that gc_entry_live [of env "monotonic_ns (os_clock env 0)" _ k w] assms(2)
    by (induction es) auto
  then show ?thesis
    using assms(3) listed_dom [OF world_ok_registry [OF assms(1)], of _ "[]"]
    by (fastforce simp: gc_def world_list [OF assms(1)] entry_name_def)
qed

text \<open>What a creation without failures makes.\<close>

lemma created_segment:
  assumes w: "world_ok w" and parse: "parse_and_validate_name (co_name opts) = Inr p"
    and name: "co_name opts \<notin> dom (w_names w)" "co_name opts \<noteq> REGISTRY_NAME" and c: "calm env (co_name opts)"
    and sec: "validate_create_security opts (listed [] (reg_payload w)) = Ok"
    and meta: "unat (co_meta_size opts) < 2 ^ 63"
    and po: "po = align_up (SHMFX_HEADER_SIZE + co_meta_size opts) SHMFX_CACHE_LINE_BYTES" "po \<le> co_total_size opts"
    and key: "co_flags opts AND HmacEnabled = 0 \<or> load_hmac_key (os_keys env) \<noteq> None"
    and room: "card (dom (reg_map w)) < MAX_REGISTRY_ENTRIES"
  shows "\<exists>w1 e h. create env opts w =
      Some (Inr \<lparr>hd_base = w_next w, hd_size = co_total_size opts, hd_fd = True, hd_mode = ReadWrite, hd_owner = True\<rparr>, w1) \<and>
    world_ok w1 \<and> w_names w1 = (w_names w)(co_name opts \<mapsto> w_next w) \<and>
    w_next w \<in> set (hb_headers (w_heartbeat w1)) \<and> reg_map w1 = (reg_map w)(co_name opts \<mapsto> e) \<and>
    re_flags e = h_flags h \<and> re_segment_type e = segment_type_code (co_type opts) \<and> header_at w1 (w_next w) = h \<and> ob_size (w_objects w1 (w_next w)) = co_total_size opts \<and>
    options_fit opts po \<and> describes opts po h \<and> h_state h = segment_state_code Active \<and> h_ref_count h = 1 \<and>
    verify_header_hmac (os_keys env) h = Ok \<and> fixed_name_view (h_name h) = co_name opts \<and>
    h_owner_pid h = os_pid env \<and> h_heartbeat_last_ns h = monotonic_ns (os_clock env 1) \<and>
    read_proc_start_time (os_proc env) (os_pid env) \<in> {None, Some (h_owner_start_time h)}"
proof -
  have fl: "h_flags (created_header env opts po) AND HmacEnabled = 0 \<longleftrightarrow> co_flags opts AND HmacEnabled = 0"
    by (simp add: created_header_def Let_def shm_consts bit_eq_iff bit_simps) blast
  obtain h where s: "sign_header_if_enabled (os_keys env) (created_header env opts po) = (Ok, h)"
    using key fl by (auto simp: sign_header_if_enabled_def Let_def)
  have le: "\<not> co_total_size opts < po"
    using po(2) by simp
  have fit: "options_fit opts po"
    using meta by (intro payload_offset_fits [OF sec _ parse po(1) le]) simp
  obtain w1 e where c1: "create env opts w = Some (Inr \<lparr>hd_base = w_next w, hd_size = co_total_size opts,
        hd_fd = True, hd_mode = ReadWrite, hd_owner = True\<rparr>, w1)"
      "world_ok w1" "w_names w1 = (w_names w)(co_name opts \<mapsto> w_next w)"
      "header_at w1 (w_next w) = new_header env h" "ob_size (w_objects w1 (w_next w)) = co_total_size opts"
      "reg_map w1 = (reg_map w)(co_name opts \<mapsto> e)" "re_flags e = h_flags h"
      "re_segment_type e = segment_type_code (co_type opts)"
      "w_next w \<in> set (hb_headers (w_heartbeat w1))"
    using create_success [OF w parse sec po(1) le c name s room] by blast
  have h: "h = (created_header env opts po)\<lparr>h_hmac := h_hmac h\<rparr>" "verify_header_hmac (os_keys env) h = Ok"
    using sign_header_cases [OF s] by simp_all
  have d: "describes opts po (new_header env h)"
    using created_header_describes [OF fit, of env] h(1)
    by (cases h) (simp add: describes_def new_header_def beat_def)
  have nh: "h_state (new_header env h) = segment_state_code Active" "h_ref_count (new_header env h) = 1"
      "h_flags (new_header env h) = h_flags h"
    using signed_state [OF s] by (simp_all add: new_header_def beat_def created_header_def Let_def)
  have ver: "verify_header_hmac (os_keys env) (new_header env h) = Ok"
    using h(2) verify_same_immutable [of "new_header env h" h "os_keys env"]
    by (simp add: same_immutable_def new_header_def beat_def)
  have nm: "fixed_name_view (h_name (new_header env h)) = co_name opts"
    using d parse_name_fits [OF parse] by (simp add: describes_def fixed_name_view_copy_name)
  have own: "h_owner_pid (new_header env h) = os_pid env"
      "h_heartbeat_last_ns (new_header env h) = monotonic_ns (os_clock env 1)"
      "read_proc_start_time (os_proc env) (os_pid env) \<in> {None, Some (h_owner_start_time (new_header env h))}"
    by (subst h(1), simp add: new_header_def beat_def created_header_def Let_def split: option.splits)+
  show ?thesis
    by (intro exI [of _ w1] exI [of _ e] exI [of _ "new_header env h"] conjI)
      (use c1 fit d nh ver nm own in simp_all)
qed

lemma created_live:
  assumes "w_names w n = Some k" "describes opts po (header_at w k)" "options_fit opts po"
    and "h_state (header_at w k) = segment_state_code Active" "ob_size (w_objects w k) = co_total_size opts"
    and "calm env n" "\<not> owner_is_dead (os_proc env) (header_at w k) now"
  shows "live_segment env now n k w"
proof -
  have "SHMFX_HEADER_SIZE \<le> co_total_size opts"
    using assms(3) by (simp add: options_fit_def word_le_nat_alt shm_consts)
  then show ?thesis
    using assms describes_valid [OF assms(2,3)] by (simp add: live_segment_def calm_def)
qed

lemma demo_facts:
  "co_name demo_options = demo_name" "co_total_size demo_options = 4096" "co_meta_size demo_options = 64"
  "w_next demo_world = 2"
  by (simp_all add: demo_options_def demo_world_def add_registry_def empty_world_def)

lemma demo_hyps:
  "world_ok demo_world"
  "parse_and_validate_name (co_name demo_options) = Inr \<lparr>pn_ns = ''log'', pn_leaf = ''app1'', pn_bootstrap = False\<rparr>"
  "co_name demo_options \<notin> dom (w_names demo_world)" "co_name demo_options \<noteq> REGISTRY_NAME"
  "calm demo_env (co_name demo_options)"
  "validate_create_security demo_options (listed [] (reg_payload demo_world)) = Ok"
  "unat (co_meta_size demo_options) < 2 ^ 63"
  "320 = align_up (SHMFX_HEADER_SIZE + co_meta_size demo_options) SHMFX_CACHE_LINE_BYTES"
  "320 \<le> co_total_size demo_options"
  "co_flags demo_options AND HmacEnabled = 0 \<or> load_hmac_key (os_keys demo_env) \<noteq> None"
  "card (dom (reg_map demo_world)) < MAX_REGISTRY_ENTRIES"
  using demo_world_ok demo_name_parse demo_calm demo_create
  by (simp_all add: demo_facts align_up_def shm_consts) (simp_all add: demo_options_def demo_name_def)

lemma demo_created:
  "\<exists>w1 h. create demo_env demo_options demo_world =
      Some (Inr \<lparr>hd_base = 2, hd_size = 4096, hd_fd = True, hd_mode = ReadWrite, hd_owner = True\<rparr>, w1) \<and>
    world_ok w1 \<and> w_names w1 demo_name = Some 2 \<and> reg_id w1 \<noteq> 2 \<and>
    \<not> owner_is_dead (os_proc demo_env) (header_at w1 2) (monotonic_ns (os_clock demo_env 0)) \<and>
    gc demo_env w1 = Some w1 \<and> fixed_name_view (h_name (header_at w1 2)) = demo_name \<and>
    h_ref_count (header_at w1 2) = 1 \<and> h_state (header_at w1 2) = segment_state_code Active \<and>
    attach demo_env demo_name ReadWrite w1 = Some (Inr h, upd_header 2 (\<lambda>x. x\<lparr>h_ref_count := h_ref_count x + 1\<rparr>) w1)"
proof -
  obtain w1 e h where c: "create demo_env demo_options demo_world =
        Some (Inr \<lparr>hd_base = 2, hd_size = 4096, hd_fd = True, hd_mode = ReadWrite, hd_owner = True\<rparr>, w1)"
      "world_ok w1" "w_names w1 = (w_names demo_world)(demo_name \<mapsto> 2)" "reg_map w1 = (reg_map demo_world)(demo_name \<mapsto> e)"
      "header_at w1 2 = h" "ob_size (w_objects w1 2) = 4096" "options_fit demo_options 320"
      "describes demo_options 320 h" "h_state h = segment_state_code Active"
      "h_owner_pid h = os_pid demo_env" "h_heartbeat_last_ns h = monotonic_ns (os_clock demo_env 1)"
      "read_proc_start_time (os_proc demo_env) (os_pid demo_env) \<in> {None, Some (h_owner_start_time h)}"
      "fixed_name_view (h_name h) = demo_name" "h_ref_count h = 1" "verify_header_hmac (os_keys demo_env) h = Ok"
      "re_flags e = h_flags h"
    using created_segment [OF demo_hyps] unfolding demo_facts by (elim exE conjE) (rule that; assumption)
  have nr: "demo_name \<noteq> REGISTRY_NAME"
    using demo_hyps(4) by (simp add: demo_facts)
  have alive: "\<not> owner_is_dead (os_proc demo_env) h (monotonic_ns (os_clock demo_env 0))"
    using c(10-12) by (intro owner_fresh_heartbeat) (simp_all add: demo_env_def demo_proc_def)
  have live: "live_segment demo_env (monotonic_ns (os_clock demo_env 0)) demo_name 2 w1"
    by (rule created_live [OF _ _ c(7)]) (simp_all add: c(3,5,6,8,9) alive demo_calm demo_facts)
  have gc: "gc demo_env w1 = Some w1"
    using c(4) demo_world_ok(2) by (intro gc_live [OF c(2) live]) simp
  have rid: "reg_id w1 \<noteq> 2"
  proof
    assume "reg_id w1 = 2"
    then have "w_names w1 demo_name = Some (reg_id w1)"
      by (simp add: c(3))
    then show False
      using c(2) nr unfolding world_ok_def by blast
  qed
  have mm: "os_mmap_fail demo_env demo_name = None"
    using demo_calm [of demo_name] by (simp add: calm_def)
  have va: "validate_header (header_at w1 2) (ob_size (w_objects w1 2)) = Ok"
    using describes_valid(1) [OF c(8,7)] by (simp add: c(5,6) demo_facts)
  have ve: "verify_header_hmac (os_keys demo_env) (header_at w1 2) = Ok" "fixed_name_view (h_name (header_at w1 2)) = demo_name"
    unfolding c(5) by (rule c(15), rule c(13))
  have fl: "reg_map w1 demo_name = Some e' \<Longrightarrow> re_flags e' = h_flags (header_at w1 2)" for e'
    using c(4,5,16) by simp
  note at = attach_live(1) [OF c(2) demo_name_parse nr live mm gc va ve(2,1) fl, where mode = ReadWrite,
      simplified if_True simp_thms]
  show ?thesis
    by (intro exI [of _ w1] exI conjI) (rule c(1) c(2) rid gc ve at | simp add: c(3,5,9,14) alive)+
qed

section \<open>Properties\<close>

text \<open>
  The registry comes up: the first process creates the segment and has an empty, well-formed
  registry; every later process attaches to the same segment, also with an empty registry, and is counted.
\<close>

theorem registry_bootstrap:
  assumes "names_ok w" "w_registry w = None" "REGISTRY_NAME \<notin> dom (w_names w)" "calm env REGISTRY_NAME"
  shows "\<exists>w'. registry_instance env w = Some w' \<and> world_ok w' \<and> reg_map w' = Map.empty \<and>
    w_names w' = (w_names w)(REGISTRY_NAME \<mapsto> reg_id w') \<and>
    (\<forall>env2. calm env2 REGISTRY_NAME \<longrightarrow>
       (\<exists>w2. registry_instance env2 (w'\<lparr>w_registry := None, w_heartbeat := no_heartbeat\<rparr>) = Some w2 \<and>
          world_ok w2 \<and> reg_id w2 = reg_id w' \<and> reg_map w2 = Map.empty \<and>
          h_ref_count (header_at w2 (reg_id w')) = 2))"
proof -
  let ?w = "add_registry env w"
  note ok = add_registry_ok [OF assms(1,3), of env]
  have r: "reg_id ?w = w_next w" "header_at ?w (w_next w) = registry_header env"
      "ob_size (w_objects ?w (w_next w)) = kRegistryTotalSize"
    by (simp_all add: add_registry_def reg_id_def header_at_def)
  have "\<exists>w2. registry_instance env2 (?w\<lparr>w_registry := None, w_heartbeat := no_heartbeat\<rparr>) = Some w2 \<and>
          world_ok w2 \<and> reg_id w2 = reg_id ?w \<and> reg_map w2 = Map.empty \<and>
          h_ref_count (header_at w2 (reg_id ?w)) = 2" if c: "calm env2 REGISTRY_NAME" for env2
  proof -
    let ?w2 = "upd_header (reg_id ?w) (\<lambda>x. x\<lparr>h_ref_count := h_ref_count x + 1\<rparr>) (?w\<lparr>w_heartbeat := no_heartbeat\<rparr>)"
    have i: "registry_instance env2 (?w\<lparr>w_registry := None, w_heartbeat := no_heartbeat\<rparr>) = Some ?w2"
      by (rule registry_instance_open [OF ok(1) _ _ _ _ _ c]) (simp_all add: r ok(3) registry_header_valid)
    have hb: "header_at (?w\<lparr>w_heartbeat := no_heartbeat\<rparr>) = header_at ?w"
        "reg_id (?w\<lparr>w_heartbeat := no_heartbeat\<rparr>) = reg_id ?w"
        "reg_payload (?w\<lparr>w_heartbeat := no_heartbeat\<rparr>) = reg_payload ?w"
      by (simp_all add: header_at_def fun_eq_iff reg_id_def reg_payload_def)
    have "world_ok (?w\<lparr>w_heartbeat := no_heartbeat\<rparr>)"
      using ok(1) unfolding world_ok_def hb by (simp add: no_heartbeat_def)
    then have "world_ok ?w2"
      using registry_header_valid(5) [of env] by (intro world_ok_upd_header) (simp_all add: hb r)
    moreover have "h_ref_count (header_at ?w2 (reg_id ?w)) = 2"
      by (simp add: hb r registry_header_def)
    ultimately show ?thesis
      using i ok(2) hb by (intro exI [of _ ?w2]) simp
  qed
  then show ?thesis
    using registry_instance_new [OF assms(2,3,4)] ok r(1) by auto
qed

theorem registry_bootstrap_witness:
  "\<exists>w'. registry_instance demo_env empty_world = Some w' \<and> world_ok w' \<and>
     (\<exists>w2. registry_instance demo_env (w'\<lparr>w_registry := None, w_heartbeat := no_heartbeat\<rparr>) = Some w2)"
  using registry_bootstrap [OF empty_world_ok(1,3,2) demo_calm] demo_calm by meson

text \<open>
  C5. Creating and attaching fit together. If no system call fails, the name is new, the options pass the
  checks and the header can be signed, creation succeeds: the segment has the name, an entry in the
  registry and a heartbeat, and its metadata and payload have the sizes asked for. Whoever attaches
  while the owner lives, and has the same keys, gets a handle on the same segment with the same regions
  even though the janitor runs first, and a writer is counted.
\<close>

theorem create_attach_roundtrip:
  assumes w: "world_ok w" and parse: "parse_and_validate_name (co_name opts) = Inr p"
    and name: "co_name opts \<notin> dom (w_names w)" "co_name opts \<noteq> REGISTRY_NAME" and c: "calm env (co_name opts)"
    and sec: "validate_create_security opts (listed [] (reg_payload w)) = Ok"
    and meta: "unat (co_meta_size opts) < 2 ^ 63"
    and po: "po = align_up (SHMFX_HEADER_SIZE + co_meta_size opts) SHMFX_CACHE_LINE_BYTES" "po \<le> co_total_size opts"
    and key: "co_flags opts AND HmacEnabled = 0 \<or> load_hmac_key (os_keys env) \<noteq> None"
    and room: "card (dom (reg_map w)) < MAX_REGISTRY_ENTRIES"
  shows "\<exists>w1. create env opts w =
      Some (Inr \<lparr>hd_base = w_next w, hd_size = co_total_size opts, hd_fd = True, hd_mode = ReadWrite, hd_owner = True\<rparr>, w1) \<and>
    world_ok w1 \<and> w_names w1 = (w_names w)(co_name opts \<mapsto> w_next w) \<and> co_name opts \<in> dom (reg_map w1) \<and>
    w_next w \<in> set (hb_headers (w_heartbeat w1)) \<and>
    (\<forall>env2 wg mode. calm env2 (co_name opts) \<and> os_keys env2 = os_keys env \<and> gc env2 w1 = Some wg \<and>
       \<not> owner_is_dead (os_proc env2) (header_at w1 (w_next w)) (monotonic_ns (os_clock env2 0)) \<longrightarrow>
       (\<exists>h w2. attach env2 (co_name opts) mode w1 = Some (Inr h, w2) \<and> hd_base h = w_next w \<and>
          hd_size h = co_total_size opts \<and> handle_name w2 h = co_name opts \<and>
          handle_metadata w2 h = (256, unat (co_meta_size opts)) \<and>
          handle_payload w2 h = (unat po, unat (co_total_size opts) - unat po) \<and>
          h_ref_count (header_at w2 (w_next w)) = (if mode = ReadWrite then 2 else 1)))"
proof -
  obtain w1 e h where c1: "create env opts w = Some (Inr \<lparr>hd_base = w_next w, hd_size = co_total_size opts,
        hd_fd = True, hd_mode = ReadWrite, hd_owner = True\<rparr>, w1)"
      "world_ok w1" "w_names w1 = (w_names w)(co_name opts \<mapsto> w_next w)" "w_next w \<in> set (hb_headers (w_heartbeat w1))"
      "reg_map w1 = (reg_map w)(co_name opts \<mapsto> e)" "re_flags e = h_flags h" "header_at w1 (w_next w) = h"
      "ob_size (w_objects w1 (w_next w)) = co_total_size opts"
    and fit: "options_fit opts po" and d: "describes opts po h"
    and nh: "h_state h = segment_state_code Active" "h_ref_count h = 1"
    and ver: "verify_header_hmac (os_keys env) h = Ok" and nm: "fixed_name_view (h_name h) = co_name opts"
    using created_segment [OF assms] by blast
  have attached: "\<exists>h2 w2. attach env2 (co_name opts) mode w1 = Some (Inr h2, w2) \<and> hd_base h2 = w_next w \<and>
          hd_size h2 = co_total_size opts \<and> handle_name w2 h2 = co_name opts \<and>
          handle_metadata w2 h2 = (256, unat (co_meta_size opts)) \<and>
          handle_payload w2 h2 = (unat po, unat (co_total_size opts) - unat po) \<and>
          h_ref_count (header_at w2 (w_next w)) = (if mode = ReadWrite then 2 else 1)"
    if a: "calm env2 (co_name opts)" "os_keys env2 = os_keys env" "gc env2 w1 = Some wg"
      "\<not> owner_is_dead (os_proc env2) (header_at w1 (w_next w)) (monotonic_ns (os_clock env2 0))" for env2 wg mode
  proof -
    have live: "live_segment env2 (monotonic_ns (os_clock env2 0)) (co_name opts) (w_next w) w1"
      using a c1 nh d by (intro created_live [OF _ _ fit]) simp_all
    have at: "attach env2 (co_name opts) mode w1 =
        Some (Inr \<lparr>hd_base = w_next w, hd_size = ob_size (w_objects w1 (w_next w)), hd_fd = True, hd_mode = mode,
                   hd_owner = False\<rparr>,
              if mode = ReadWrite then upd_header (w_next w) (\<lambda>h. h\<lparr>h_ref_count := h_ref_count h + 1\<rparr>) wg else wg)"
      and keep: "keeps_live (co_name opts) (w_next w) w1 wg"
      using attach_live [OF c1(2) parse name(2) live _ a(3)] a(1,2) describes_valid [OF d fit] c1 nm ver nh
      by (auto simp: calm_def)
    have core: "header_core (header_at wg (w_next w)) = header_core h"
      using keep c1(7) by (simp add: keeps_live_def)
    note f = fields_core [OF core]
    show ?thesis
      unfolding at using d nh nm
      by (auto simp: handle_name_def handle_metadata_def handle_payload_def f describes_def c1(8))
  qed
  show ?thesis
    by (intro exI [of _ w1] conjI allI impI, rule c1(1), rule c1(2), rule c1(3), simp add: c1(5), rule c1(4))
      (elim conjE, rule attached)
qed

theorem create_attach_roundtrip_witness:
  "\<exists>w1 h w2. create demo_env demo_options demo_world =
      Some (Inr \<lparr>hd_base = 2, hd_size = 4096, hd_fd = True, hd_mode = ReadWrite, hd_owner = True\<rparr>, w1) \<and>
    attach demo_env demo_name ReadWrite w1 = Some (Inr h, w2) \<and> handle_metadata w2 h = (256, 64) \<and>
    handle_payload w2 h = (320, 3776)"
proof -
  obtain w1 where w1: "create demo_env demo_options demo_world =
        Some (Inr \<lparr>hd_base = 2, hd_size = 4096, hd_fd = True, hd_mode = ReadWrite, hd_owner = True\<rparr>, w1)"
      "\<not> owner_is_dead (os_proc demo_env) (header_at w1 2) (monotonic_ns (os_clock demo_env 0))"
      "gc demo_env w1 = Some w1"
    using demo_created by (elim exE conjE) (rule that)
  obtain w1' where c: "create demo_env demo_options demo_world =
        Some (Inr \<lparr>hd_base = 2, hd_size = 4096, hd_fd = True, hd_mode = ReadWrite, hd_owner = True\<rparr>, w1')"
    and rt: "\<forall>env2 wg mode. calm env2 demo_name \<and> os_keys env2 = os_keys demo_env \<and> gc env2 w1' = Some wg \<and>
       \<not> owner_is_dead (os_proc env2) (header_at w1' 2) (monotonic_ns (os_clock env2 0)) \<longrightarrow>
       (\<exists>h w2. attach env2 demo_name mode w1' = Some (Inr h, w2) \<and> hd_base h = 2 \<and> hd_size h = 4096 \<and>
          handle_name w2 h = demo_name \<and> handle_metadata w2 h = (256, unat (64 :: u64)) \<and>
          handle_payload w2 h = (unat (320 :: u64), unat (4096 :: u64) - unat (320 :: u64)) \<and>
          h_ref_count (header_at w2 2) = (if mode = ReadWrite then 2 else 1))"
    using create_attach_roundtrip [OF demo_hyps, unfolded demo_facts] by blast
  have "w1' = w1"
    using c w1(1) by simp
  then show ?thesis
    using rt [rule_format, of demo_env w1 ReadWrite] w1 demo_calm by auto
qed

text \<open>
  C19. A creation that fails at any point, from the name check to a full registry, leaves the system as it
  was: the names, the registry, the heartbeats, and every existing segment.
\<close>

theorem create_failure_clean:
  assumes "world_ok w" "os_unlink_fail env (co_name opts) = None" "create env opts w = Some (Inl e, w')"
  shows "w_names w' = w_names w \<and> reg_map w' = reg_map w \<and>
    hb_headers (w_heartbeat w') = hb_headers (w_heartbeat w) \<and>
    (\<forall>k < w_next w. header_at w' k = header_at w k \<and> ob_size (w_objects w' k) = ob_size (w_objects w k))"
  using create_unchanged [OF assms] by (simp add: unchanged_def)

theorem create_failure_clean_witness:
  "\<exists>w'. create (demo_env\<lparr>os_mmap_fail := \<lambda>_. Some ENOSPC\<rparr>) demo_options demo_world = Some (Inl QuotaExceeded, w') \<and>
     w_names w' = w_names demo_world"
proof -
  let ?env = "demo_env\<lparr>os_mmap_fail := \<lambda>_. Some ENOSPC\<rparr>"
  have "\<exists>w'. create ?env demo_options demo_world = Some (Inl QuotaExceeded, w')"
    using demo_hyps(3) demo_create(2) unfolding create_def Let_def
    by (simp add: demo_hyps(2) demo_create(1) registry_list_def world_instance [OF demo_world_ok(1)]
        world_list [OF demo_world_ok(1)] shm_open_excl_def apply_permissions_def demo_env_def)
  then obtain w' where "create ?env demo_options demo_world = Some (Inl QuotaExceeded, w')"
    by blast
  moreover from this have "w_names w' = w_names demo_world"
    using create_failure_clean [OF demo_world_ok(1), of ?env demo_options] by (simp add: demo_env_def)
  ultimately show ?thesis
    by blast
qed

text \<open>
  C21. A handle that attach returns is sound: its segment has the name asked for, the right magic and
  version, a verified signature and is not dead; the metadata follows the header, the payload follows
  the metadata, and the payload's end, as the code computes it in 64 bits, is inside the mapping.
\<close>

theorem attach_sound:
  assumes "attach env name mode w = Some (Inr h, w')"
  shows "handle_name w' h = name \<and> hd_mode h = mode \<and> \<not> hd_owner h \<and> hd_size h = ob_size (w_objects w' (hd_base h)) \<and>
    h_magic (header_at w' (hd_base h)) = SHMFX_MAGIC \<and>
    h_version_major (header_at w' (hd_base h)) = SHMFX_VERSION_MAJOR \<and>
    verify_header_hmac (os_keys env) (header_at w' (hd_base h)) = Ok \<and>
    h_state (header_at w' (hd_base h)) \<noteq> segment_state_code Dead \<and>
    256 \<le> fst (handle_metadata w' h) \<and>
    fst (handle_metadata w' h) + snd (handle_metadata w' h) \<le> fst (handle_payload w' h) \<and>
    (fst (handle_payload w' h) + snd (handle_payload w' h)) mod 2 ^ 64 \<le> unat (hd_size h)"
proof -
  obtain b w1 k where a: "attach_checks env name b k w1 = Ok"
    "h = \<lparr>hd_base = k, hd_size = ob_size (w_objects w1 k), hd_fd = True, hd_mode = mode, hd_owner = False\<rparr>"
    "w' = (if mode = ReadWrite then upd_header k (\<lambda>h. h\<lparr>h_ref_count := h_ref_count h + 1\<rparr>) w1 else w1)"
    using attach_handle [OF assms] by blast
  have r: "verify_header_hmac (os_keys env) (x\<lparr>h_ref_count := c\<rparr>) = verify_header_hmac (os_keys env) x" for x c
    by (rule verify_same_immutable) (simp_all add: same_immutable_def)
  show ?thesis
    using validate_header_spans [OF attach_checks_ok(1) [OF a(1)]] attach_checks_ok(2-4) [OF a(1)]
    by (auto simp: a(2,3) handle_name_def handle_metadata_def handle_payload_def r)
qed

theorem attach_sound_witness:
  "\<exists>w h w'. attach demo_env demo_name ReadWrite w = Some (Inr h, w') \<and> handle_name w' h = demo_name"
  using demo_created attach_sound [of demo_env demo_name ReadWrite] by (elim exE conjE) blast


text \<open>
  C22. Users are counted exactly: attaching for writing and releasing the handle leaves the user counts of
  all segments as they were, and removes no name.
\<close>

theorem attach_detach:
  assumes "world_ok w" "attach env name ReadWrite w = Some (Inr h, w1)"
  shows "\<exists>w2. handle_reset env2 h w1 = Some (empty_handle, w2) \<and> w_names w2 = w_names w1 \<and>
    h_ref_count (header_at w1 (hd_base h)) = h_ref_count (header_at w (hd_base h)) + 1 \<and>
    (\<forall>k. h_ref_count (header_at w2 k) = h_ref_count (header_at w k))"
proof -
  obtain wi wg b wx k where a:
    "name \<noteq> REGISTRY_NAME \<longrightarrow> registry_instance env w = Some wi \<and> gc env wi = Some wg"
    "name = REGISTRY_NAME \<longrightarrow> wg = w" "w_names wg name = Some k"
    "registry_expects_hmac env name wg = Some (b, wx)"
    "h = \<lparr>hd_base = k, hd_size = ob_size (w_objects wx k), hd_fd = True, hd_mode = ReadWrite, hd_owner = False\<rparr>"
    "w1 = (if ReadWrite = ReadWrite then upd_header k (\<lambda>h. h\<lparr>h_ref_count := h_ref_count h + 1\<rparr>) wx else wx)"
    using attach_handle [OF assms(2)] by blast
  have rel: "gc_rel env (monotonic_ns (os_clock env 0)) w wg"
    using a(1,2) gc_gc_rel [of env w wg] gc_rel_refl by (auto simp: world_instance [OF assms(1)])
  then have "w_names w name = Some k" "w_registry wg = w_registry w"
    using a(3) unfolding gc_rel_def by (metis option.distinct(1), blast)
  then have k: "k \<noteq> 0" and wg: "registry_instance env wg = Some wg"
    using assms(1) by (auto simp: world_ok_def registry_instance_def)
  have "registry_frame wg wx"
    using a(4) on_registry_frame [of "list_entries name" wg] wg
    by (auto simp: registry_expects_hmac_def registry_list_def registry_frame_def split: if_splits bind_splits)
  then have refs: "h_ref_count (header_at wx j) = h_ref_count (header_at w j)" for j
    using gc_rel_refs [OF rel, of j] header_core_unlocked ref_count_core unfolding registry_frame_def by metis
  show ?thesis
    using k refs by (simp add: handle_reset_def handle_valid_def a(5,6) Let_def)
qed

theorem attach_detach_witness:
  "\<exists>w h w1 w2. attach demo_env demo_name ReadWrite w = Some (Inr h, w1) \<and>
     handle_reset demo_env h w1 = Some (empty_handle, w2) \<and> h_ref_count (header_at w2 2) = h_ref_count (header_at w 2)"
  using demo_created attach_detach [of _ demo_env demo_name _ _ demo_env] by (elim exE conjE) blast

text \<open>
  C23. When the owner, as the last user, releases a draining segment, the segment becomes dead, loses its
  name, its registry entry and its heartbeat, and its user count is zero.
\<close>

theorem last_release_destroys:
  assumes "world_ok w" "handle_valid h" "hd_owner h" "hd_mode h = ReadWrite"
    and "handle_name w h = name" "name \<noteq> REGISTRY_NAME" "hd_base h \<noteq> reg_id w"
    and "h_state (header_at w (hd_base h)) = segment_state_code Draining"
    and "h_ref_count (header_at w (hd_base h)) = 1" "os_unlink_fail env name = None"
  shows "\<exists>w'. handle_reset env h w = Some (empty_handle, w') \<and> world_ok w' \<and>
    h_state (header_at w' (hd_base h)) = segment_state_code Dead \<and> h_ref_count (header_at w' (hd_base h)) = 0 \<and>
    w_names w' = (w_names w)(name := None) \<and> reg_map w' = (reg_map w)(name := None) \<and>
    hd_base h \<notin> set (hb_headers (w_heartbeat w'))"
  using assms by (rule release_last_owner)

theorem last_release_destroys_witness:
  "\<exists>w h w'. handle_reset demo_env h w = Some (empty_handle, w') \<and> w_names w demo_name = Some 2 \<and>
     w_names w' demo_name = None"
proof -
  obtain w1 where w1: "world_ok w1" "w_names w1 demo_name = Some 2" "reg_id w1 \<noteq> 2"
      "fixed_name_view (h_name (header_at w1 2)) = demo_name" "h_ref_count (header_at w1 2) = 1"
    using demo_created by blast
  let ?w = "set_state 2 Draining w1"
  let ?h = "\<lparr>hd_base = 2, hd_size = 4096, hd_fd = True, hd_mode = ReadWrite, hd_owner = True\<rparr>"
  have ok: "world_ok ?w"
    using w1 by (simp add: set_state_def world_ok_upd_header)
  have nr: "demo_name \<noteq> REGISTRY_NAME"
    using demo_hyps(4) by (simp add: demo_facts)
  obtain w' where "handle_reset demo_env ?h ?w = Some (empty_handle, w')" "w_names w' = (w_names ?w)(demo_name := None)"
    using last_release_destroys [OF ok, of ?h demo_name demo_env] w1 nr
    by (auto simp: handle_valid_def handle_name_def set_state_def demo_env_def)
  then show ?thesis
    using w1(2) by (intro exI [of _ ?w] exI [of _ ?h] exI [of _ w']) (simp add: set_state_def)
qed

text \<open>
  C4. The janitor removes the name of a segment only if, when it starts, the segment's owner is dead and
  nobody uses it, or no process maps it and it is draining or its owner is dead. It changes the state of
  a segment only if its owner is dead, and then only forward, from active to draining or to dead. It
  adds no names, and leaves sizes and all other header fields but the lock alone.
\<close>

theorem gc_safe:
  assumes "gc env w = Some w'"
  shows "(\<forall>n k. w_names w n = Some k \<and> w_names w' n \<noteq> Some k \<longrightarrow>
       w_names w' n = None \<and>
       (owner_is_dead (os_proc env) (header_at w k) (monotonic_ns (os_clock env 0)) \<and> h_ref_count (header_at w k) = 0 \<or>
        \<not> any_process_maps_segment (os_maps env n) n \<and>
        (h_state (header_at w k) = segment_state_code Draining \<or>
         owner_is_dead (os_proc env) (header_at w k) (monotonic_ns (os_clock env 0))))) \<and>
    dom (w_names w') \<subseteq> dom (w_names w) \<and>
    (\<forall>k. header_core (header_at w' k) = header_core (header_at w k) \<and>
       ob_size (w_objects w' k) = ob_size (w_objects w k) \<and>
       (h_state (header_at w' k) \<noteq> h_state (header_at w k) \<longrightarrow>
        owner_is_dead (os_proc env) (header_at w k) (monotonic_ns (os_clock env 0)) \<and>
        (h_state (header_at w' k) = segment_state_code Dead \<or>
         h_state (header_at w k) = segment_state_code Active \<and> h_state (header_at w' k) = segment_state_code Draining)))"
proof (intro conjI allI impI)
  note rel = gc_gc_rel [OF assms, unfolded gc_rel_def]
  fix n k
  assume a: "w_names w n = Some k \<and> w_names w' n \<noteq> Some k"
  then have "w_names w' n = None \<and> (\<exists>k. w_names w n = Some k \<and> removable env (monotonic_ns (os_clock env 0)) n (header_at w k))"
    using rel by metis
  with a show "w_names w' n = None"
    "owner_is_dead (os_proc env) (header_at w k) (monotonic_ns (os_clock env 0)) \<and> h_ref_count (header_at w k) = 0 \<or>
        \<not> any_process_maps_segment (os_maps env n) n \<and>
        (h_state (header_at w k) = segment_state_code Draining \<or>
         owner_is_dead (os_proc env) (header_at w k) (monotonic_ns (os_clock env 0)))"
    by (auto simp: removable_def)
next
  note rel = gc_gc_rel [OF assms, unfolded gc_rel_def]
  show "dom (w_names w') \<subseteq> dom (w_names w)"
    using rel by (metis domIff subsetI)
  fix k
  show "header_core (header_at w' k) = header_core (header_at w k)"
    "ob_size (w_objects w' k) = ob_size (w_objects w k)"
    using rel by blast+
  assume "h_state (header_at w' k) \<noteq> h_state (header_at w k)"
  then show "owner_is_dead (os_proc env) (header_at w k) (monotonic_ns (os_clock env 0))"
    "h_state (header_at w' k) = segment_state_code Dead \<or>
         h_state (header_at w k) = segment_state_code Active \<and> h_state (header_at w' k) = segment_state_code Draining"
    using rel unfolding gc_state_change_def by blast+
qed

theorem gc_safe_witness:
  "\<exists>w w'. gc demo_env w = Some w' \<and> w_names w demo_name = Some 2 \<and> dom (w_names w') \<subseteq> dom (w_names w)"
  using demo_created gc_safe by metis

end
