(* ===== verification/Log_Theorems.thy ===== *)
theory Log_Theorems
  imports Log_Rings Manager_Theorems
begin

text \<open>
  What a producer of the logging application can rely on: its segment name is accepted, initialisation
  gives an empty ring, and what it logs reaches the sink of a center.
\<close>

section \<open>Names\<close>

lemma decimal_digits: "list_all is_digit (decimal n)"
proof (induction n rule: decimal.induct)
  case (1 n)
  have "is_digit (char_of (48 + k))" if "k < 10" for k :: nat
    using that by (simp add: is_digit_def char_between_def)
  then show ?case
    using 1 by (subst decimal.simps) auto
qed

lemma decimal_length: "n < 10 ^ Suc k \<Longrightarrow> decimal n \<noteq> [] \<and> length (decimal n) \<le> Suc k"
proof (induction k arbitrary: n)
  case 0
  then show ?case
    by (subst decimal.simps, subst (2) decimal.simps) simp
next
  case (Suc k)
  show ?case
  proof (cases "n < 10")
    case True
    then show ?thesis
      by (subst decimal.simps, subst (2) decimal.simps) simp
  next
    case False
    have "n div 10 < 10 ^ Suc k"
      using Suc.prems by (simp add: less_mult_imp_div_less)
    then show ?thesis
      using Suc.IH [of "n div 10"] False by (subst decimal.simps, subst (2) decimal.simps) simp
  qed
qed

lemma service_leaf:
  assumes "valid_service_name service"
  shows "name_part 1 39 (service @ ''_'' @ decimal (unat (pid :: u32)))"
proof -
  obtain c s where s: "service = c # s"
    using assms by (cases service) (simp_all add: valid_service_name_def)
  have "unat pid < 10 ^ Suc 9"
    using unat_lt_32 [of pid] by simp
  from decimal_length [OF this] have len: "length (decimal (unat pid)) \<le> 10"
    by simp
  have "list_all is_name_tail_char s" "length s < 24" "char_between CHR ''a'' CHR ''z'' c"
    using assms by (auto simp: valid_service_name_def s is_service_tail_char_def is_name_tail_char_def
        list_all_iff split: if_splits)
  moreover have "list_all is_name_tail_char (decimal (unat pid))"
    using decimal_digits by (auto simp: list_all_iff is_digit_def is_name_tail_char_def)
  ultimately show ?thesis
    using len by (simp add: name_part_def s is_name_tail_char_def [of "CHR ''_''"])
qed

lemma default_name_parse:
  assumes "valid_service_name service"
  shows "parse_and_validate_name (default_segment_name pid service) =
    Inr \<lparr>pn_ns = ''log'', pn_leaf = service @ ''_'' @ decimal (unat pid), pn_bootstrap = False\<rparr>"
proof -
  have "default_segment_name pid service = name_prefix @ ''log'' @ CHR ''.'' # service @ ''_'' @ decimal (unat pid)"
    by (simp add: default_segment_name_def name_prefix_def)
  then show ?thesis
    by (simp only:, intro parse_namespaced service_leaf assms) (simp add: kAllowedNamespaces_def)
qed

lemma digits_value_snoc: "digits_value (ds @ [c]) = 10 * digits_value ds + (of_char c - 48)"
  by (simp add: digits_value_def)

lemma decimal_value [simp]: "digits_value (decimal n) = n"
proof (induction n rule: decimal.induct)
  case (1 n)
  have "of_char (char_of (48 + k) :: char) = 48 + k" if "k < 10" for k :: nat
    using that by simp
  then show ?case
    using 1 by (subst decimal.simps) (auto simp: digits_value_snoc, simp add: digits_value_def)
qed

section \<open>Starting a logger\<close>

lemma flags_hmac: "(f OR LockfreeRing) AND HmacEnabled = f AND HmacEnabled"
  by (simp add: bit.conj_disj_distrib2) (simp add: shm_consts)

text \<open>The address at which a mapping starts is that of a page.\<close>

definition page_aligned :: "(nat \<Rightarrow> u64) \<Rightarrow> bool" where
  "page_aligned addr \<longleftrightarrow> (\<forall>k. 4096 dvd unat (addr k))"

lemma page_offset_aligned:
  assumes "page_aligned addr"
  shows "(addr k + 320) mod 64 = 0"
proof -
  obtain q where q: "unat (addr k) = 4096 * q"
    using assms by (auto simp: page_aligned_def elim: dvdE)
  have "4096 * q < 4096 * 4503599627370496"
    using unat_lt_64 [of "addr k"] q by simp
  then have "q \<le> 4503599627370495"
    by simp
  then have "unat (addr k + 320) = 64 * (64 * q + 5)"
    using q by (subst unat_add_64) simp_all
  then have "unat ((addr k + 320) mod 64) = 0"
    by (simp only: unat_mod_distrib unsigned_numeral) simp
  then show ?thesis
    unfolding word_unat_eq_iff by (simp only: unsigned_0)
qed

lemma ring_payload_offset: "align_up (SHMFX_HEADER_SIZE + sizeof_RecordRingMeta) SHMFX_CACHE_LINE_BYTES = 320"
  by (simp add: align_up_def shm_consts)

lemma logger_total:
  assumes "validate_create_security (make_create_options opts name) es = Ok" "parse_and_validate_name name = Inr p"
  defines "ps \<equiv> payload_size_for (lo_record_max opts) (record_stride_for (lo_max_payload opts))"
  shows "unat (co_total_size (make_create_options opts name)) = 320 + unat ps"
    "320 \<le> co_total_size (make_create_options opts name)"
proof -
  have t: "co_total_size (make_create_options opts name) = 320 + ps"
    by (simp add: make_create_options_def Let_def ring_payload_offset ps_def)
  have "\<not> 320 + ps < SHMFX_HEADER_SIZE + co_meta_size (make_create_options opts name)"
    using assms(1,2) t
    by (auto simp: validate_create_security_def make_create_options_def Let_def split: if_splits)
  then show ge: "320 \<le> co_total_size (make_create_options opts name)"
    unfolding t by (simp add: make_create_options_def Let_def not_less) (simp add: shm_consts)
  have "unat (320 + ps) = 320 + unat ps"
  proof (rule ccontr)
    assume "unat (320 + ps) \<noteq> 320 + unat ps"
    then have "18446744073709551616 \<le> 320 + unat ps"
      using unat_add_64 [of 320 ps] by fastforce
    then have "unat (320 + ps) = 320 + unat ps - 18446744073709551616"
      using unat_lt_64 [of ps] by (simp add: unat_word_ariths mod_if)
    then show False
      using ge t unat_lt_64 [of ps] by (simp add: word_le_nat_alt)
  qed
  then show "unat (co_total_size (make_create_options opts name)) = 320 + unat ps"
    by (simp add: t)
qed

text \<open>Filling a fresh segment: the ring is empty and has the capacity that was asked for.\<close>

lemma logger_created_ok:
  assumes hd: "h_payload_offset (header_at (lw_world lw) (hd_base handle)) = 320"
      "unat (h_payload_size (header_at (lw_world lw) (hd_base handle))) = unat ps"
    and ring: "lw_rings lw (hd_base handle) = zero_ring (unat ps)"
    and ps: "ps = payload_size_for (lo_record_max opts) (record_stride_for (lo_max_payload opts))"
    and opts: "2 \<le> unat (lo_record_max opts)" "unat (lo_max_payload opts) + 16 \<le> 4294967232"
    and addr: "page_aligned addr"
  shows "\<exists>lg lw'. logger_created addr env opts name handle lw = Some (Inr lg, lw') \<and>
    lg_handle lg = handle \<and> segment_name lg = name \<and> rv_segment (lg_ring lg) = hd_base handle \<and>
    rv_size (lg_ring lg) = unat ps \<and> lw_world lw' = lw_world lw \<and> ring_ok (lg_ring lg) lw' \<and>
    ring_items (open_ring (lg_ring lg) lw') = [] \<and>
    ring_meta (open_ring (lg_ring lg) lw') = fresh_meta (lo_record_max opts) (record_stride_for (lo_max_payload opts)) \<and>
    tail_pos (open_ring (lg_ring lg) lw') = 0 \<and>
    (\<exists>sp. ring_initialize sp (lo_record_max opts) (lo_max_payload opts) = Inr (open_ring (lg_ring lg) lw'))"
proof -
  let ?sp = "handle_span addr lw handle"
  have sp: "?sp = \<lparr>sp_data = addr (hd_base handle) + 320, sp_bytes = replicate (unat ps) 0\<rparr>"
    using hd ring by (simp add: handle_span_def handle_payload_def zero_ring_def)
  have al: "payload_aligned ?sp"
    using page_offset_aligned [OF addr] by (simp add: payload_aligned_def sp shm_consts)
  obtain r where r: "ring_initialize ?sp (lo_record_max opts) (lo_max_payload opts) = Inr r" "ring_inv r" "ring_items r = []"
      "ring_meta r = fresh_meta (lo_record_max opts) (record_stride_for (lo_max_payload opts))" "tail_pos r = 0"
    using ring_initialize_inv [OF opts al] by (auto simp: ps [symmetric] sp)
  have "lo_record_max opts \<noteq> 0"
    using opts(1) by auto
  then have len: "length (ring_bytes r) = unat ps"
    using unat_payload_size_for [OF _ record_stride_for_small [OF opts(2)]
        layout_size_no_overflow [OF record_stride_for_bounds(2) [OF opts(2)]]]
    by (simp add: ring_inv_length(1) [OF r(2)] r(4) fresh_meta_def ps)
  define v where "v = view_of handle r"
  have v: "rv_segment v = hd_base handle" "rv_size v = unat ps" "rv_data v = sp_data (mr_payload r)"
    by (simp_all add: v_def view_of_def len)
  have o: "open_ring v (close_ring v r lw) = r"
    using ring_inv_length(2) [OF r(2)] v len by (simp add: open_ring_def close_ring_def ring store_bytes_def
        ring_bytes_def)
  have "ring_ok v (close_ring v r lw)"
    unfolding ring_ok_def o using r(2) v len by (simp add: close_ring_def store_bytes_def)
  then show ?thesis
    using r o v by (intro exI [of _ "\<lparr>lg_handle = handle, lg_ring = v, lg_segment_name = name\<rparr>"] exI [of _ "close_ring v r lw"])
      (simp add: logger_created_def v_def Let_def segment_name_def, auto simp: close_ring_def)
qed

lemma fresh_capacity:
  assumes "unat mp + 16 \<le> 4294967232"
  shows "unat mp \<le> unat (max_payload_of (fresh_meta rmax (record_stride_for mp)))"
proof -
  have "16 \<le> record_stride_for mp" "unat mp + 16 \<le> unat (record_stride_for mp)"
    using record_stride_for_bounds [OF assms] by (simp_all add: word_le_nat_alt)
  then show ?thesis
    by (simp add: max_payload_of_def fresh_meta_def shm_consts unat_sub)
qed

text \<open>The segment and the ring of a logger that has just started.\<close>

definition fresh_logger :: "LoggerOptions \<Rightarrow> string \<Rightarrow> os_env \<Rightarrow> Logger \<Rightarrow> RegistryEntry \<Rightarrow> log_world \<Rightarrow> bool" where
  "fresh_logger opts name env lg e lw \<longleftrightarrow>
     (let w = lw_world lw; k = hd_base (lg_handle lg); h = header_at w k; v = lg_ring lg;
          co = make_create_options opts name
      in segment_name lg = name \<and> hd_owner (lg_handle lg) \<and> world_ok w \<and> w_names w name = Some k \<and>
         reg_map w name = Some e \<and> re_flags e = h_flags h \<and> re_segment_type e = segment_type_code RecordRing \<and>
         ob_size (w_objects w k) = co_total_size co \<and> options_fit co 320 \<and> describes co 320 h \<and>
         h_state h = segment_state_code Active \<and> h_ref_count h = 1 \<and> verify_header_hmac (os_keys env) h = Ok \<and>
         fixed_name_view (h_name h) = name \<and> h_owner_pid h = os_pid env \<and>
         h_heartbeat_last_ns h = monotonic_ns (os_clock env 1) \<and>
         read_proc_start_time (os_proc env) (os_pid env) \<in> {None, Some (h_owner_start_time h)} \<and>
         unat (h_payload_offset h) = 320 \<and> unat (h_payload_size h) = rv_size v \<and> rv_segment v = k \<and>
         rv_size v = unat (payload_size_for (lo_record_max opts) (record_stride_for (lo_max_payload opts))) \<and>
         ring_ok v lw \<and> ring_items (open_ring v lw) = [] \<and> tail_pos (open_ring v lw) = 0 \<and>
         ring_meta (open_ring v lw) = fresh_meta (lo_record_max opts) (record_stride_for (lo_max_payload opts)) \<and>
         (\<exists>sp. ring_initialize sp (lo_record_max opts) (lo_max_payload opts) = Inr (open_ring v lw)))"

lemma logger_segment:
  assumes w: "world_ok (lw_world lw)" and service: "valid_service_name (lo_service_name opts)"
    and opts: "2 \<le> unat (lo_record_max opts)" "lo_max_payload opts \<noteq> 0" "unat (lo_max_payload opts) + 16 \<le> 4294967232"
    and name: "name = (if lo_segment_name opts = [] then default_segment_name (os_pid (env 0)) (lo_service_name opts)
        else lo_segment_name opts)" "name \<notin> dom (w_names (lw_world lw))"
    and parse: "parse_and_validate_name name = Inr p" "\<not> pn_bootstrap p"
    and sys: "calm (env 0) name" "page_aligned addr"
    and sec: "validate_create_security (make_create_options opts name) (listed [] (reg_payload (lw_world lw))) = Ok"
    and key: "lo_flags opts AND HmacEnabled = 0 \<or> load_hmac_key (os_keys (env 0)) \<noteq> None"
    and room: "card (dom (reg_map (lw_world lw))) < MAX_REGISTRY_ENTRIES"
  shows "\<exists>lg e lw'. logger_init addr env opts lw = Some (Inr lg, lw') \<and> fresh_logger opts name (env 0) lg e lw' \<and>
    w_names (lw_world lw') = (w_names (lw_world lw))(name \<mapsto> hd_base (lg_handle lg)) \<and>
    reg_map (lw_world lw') = (reg_map (lw_world lw))(name \<mapsto> e)"
proof -
  let ?w = "lw_world lw" and ?co = "make_create_options opts name"
  let ?ps = "payload_size_for (lo_record_max opts) (record_stride_for (lo_max_payload opts))"
  have reg: "name \<noteq> REGISTRY_NAME"
    using parse by (auto simp: parse_and_validate_name_def)
  note total = logger_total [OF sec parse(1)]
  have co: "co_name ?co = name" "co_meta_size ?co = sizeof_RecordRingMeta" "co_flags ?co = lo_flags opts OR LockfreeRing"
      "co_type ?co = RecordRing"
    by (simp_all add: make_create_options_def Let_def)
  have po: "320 = align_up (SHMFX_HEADER_SIZE + co_meta_size ?co) SHMFX_CACHE_LINE_BYTES"
    unfolding co(2) by (rule ring_payload_offset [symmetric])
  have hyps: "parse_and_validate_name (co_name ?co) = Inr p" "co_name ?co \<notin> dom (w_names ?w)"
      "co_name ?co \<noteq> REGISTRY_NAME" "calm (env 0) (co_name ?co)" "unat (co_meta_size ?co) < 2 ^ 63"
      "co_flags ?co AND HmacEnabled = 0 \<or> load_hmac_key (os_keys (env 0)) \<noteq> None"
    using parse(1) name(2) reg sys(1) key by (simp_all add: co flags_hmac sizeof_RecordRingMeta_def)
  obtain w1 e h where c: "create (env 0) ?co ?w = Some (Inr \<lparr>hd_base = w_next ?w, hd_size = co_total_size ?co, hd_fd = True,
        hd_mode = ReadWrite, hd_owner = True\<rparr>, w1)" "world_ok w1" "w_names w1 = (w_names ?w)(name \<mapsto> w_next ?w)"
      "header_at w1 (w_next ?w) = h" "describes ?co 320 h"
    and s: "reg_map w1 = (reg_map ?w)(name \<mapsto> e)" "re_flags e = h_flags h" "re_segment_type e = segment_type_code RecordRing"
      "ob_size (w_objects w1 (w_next ?w)) = co_total_size ?co" "options_fit ?co 320" "h_state h = segment_state_code Active"
      "h_ref_count h = 1" "verify_header_hmac (os_keys (env 0)) h = Ok" "fixed_name_view (h_name h) = name"
      "h_owner_pid h = os_pid (env 0)" "h_heartbeat_last_ns h = monotonic_ns (os_clock (env 0) 1)"
      "read_proc_start_time (os_proc (env 0)) (os_pid (env 0)) \<in> {None, Some (h_owner_start_time h)}"
    using created_segment [OF w hyps(1-4) sec hyps(5) po total(2) hyps(6) room] unfolding co(1,4)
    by (elim exE conjE) (rule that; assumption)
  let ?h = "\<lparr>hd_base = w_next ?w, hd_size = co_total_size ?co, hd_fd = True, hd_mode = ReadWrite, hd_owner = True\<rparr>"
  have off: "unat (h_payload_offset h) = 320" "unat (h_payload_size h) = unat ?ps"
    using c(5) total(1) by (simp_all add: describes_def)
  then have off': "h_payload_offset h = 320"
    by (simp add: word_unat_eq_iff)
  define lw1 where "lw1 = lw\<lparr>lw_world := w1, lw_rings := (lw_rings lw)(w_next ?w := zero_ring (unat ?ps))\<rparr>"
  have cs: "create_segment (env 0) ?co lw = Some (Inr ?h, lw1)"
    using off total(1) by (simp add: create_segment_def c(1) handle_payload_def c(4) lw1_def)
  have "logger_init addr env opts lw = logger_created addr env opts name ?h lw1"
    using service opts parse_name_fits [OF parse(1)] unfolding logger_init_def Let_def name(1) [symmetric]
    by (auto simp: cs)
  moreover obtain lg lw' where "logger_created addr env opts name ?h lw1 = Some (Inr lg, lw')" and lg: "lg_handle lg = ?h"
      "segment_name lg = name" "lw_world lw' = lw_world lw1" "rv_segment (lg_ring lg) = w_next ?w" "rv_size (lg_ring lg) = unat ?ps"
    and r: "ring_ok (lg_ring lg) lw'" "ring_items (open_ring (lg_ring lg) lw') = []" "tail_pos (open_ring (lg_ring lg) lw') = 0"
      "ring_meta (open_ring (lg_ring lg) lw') = fresh_meta (lo_record_max opts) (record_stride_for (lo_max_payload opts))"
      "\<exists>sp. ring_initialize sp (lo_record_max opts) (lo_max_payload opts) = Inr (open_ring (lg_ring lg) lw')"
    using logger_created_ok [of lw1 ?h ?ps opts addr env name] off off' opts sys(2)
    unfolding lw1_def by (auto simp: c(4))
  moreover have "lw_world lw' = w1"
    by (simp add: lg(3) lw1_def)
  moreover have "fresh_logger opts name (env 0) lg e lw'"
    unfolding fresh_logger_def Let_def \<open>lw_world lw' = w1\<close> lg(1) ShmHandle.select_convs
    using c(2,3,5) s lg(2,4,5) r off by (simp add: c(4))
  ultimately show ?thesis
    using c(3) s(1) by (intro exI [of _ lg] exI [of _ e] exI [of _ lw']) simp
qed

text \<open>
  A logger for a valid service name, with the default segment name, in a system without failures and
  below the limits: initialisation creates the segment under that name, owned by the process, and
  leaves an empty ring in it that holds the requested number of records of the requested size.
\<close>

theorem logger_starts:
  assumes w: "world_ok (lw_world lw)" and service: "valid_service_name (lo_service_name opts)" "lo_segment_name opts = []"
    and opts: "2 \<le> unat (lo_record_max opts)" "lo_max_payload opts \<noteq> 0" "unat (lo_max_payload opts) + 16 \<le> 4294967232"
    and name: "name = default_segment_name (os_pid (env 0)) (lo_service_name opts)" "name \<notin> dom (w_names (lw_world lw))"
    and sys: "calm (env 0) name" "page_aligned addr"
    and sec: "validate_create_security (make_create_options opts name) (listed [] (reg_payload (lw_world lw))) = Ok"
    and key: "lo_flags opts AND HmacEnabled = 0 \<or> load_hmac_key (os_keys (env 0)) \<noteq> None"
    and room: "card (dom (reg_map (lw_world lw))) < MAX_REGISTRY_ENTRIES"
  shows "\<exists>lg lw'. logger_init addr env opts lw = Some (Inr lg, lw') \<and>
    segment_name lg = name \<and> hd_owner (lg_handle lg) \<and> world_ok (lw_world lw') \<and>
    w_names (lw_world lw') = (w_names (lw_world lw))(name \<mapsto> hd_base (lg_handle lg)) \<and>
    ring_ok (lg_ring lg) lw' \<and> ring_items (open_ring (lg_ring lg) lw') = [] \<and>
    view_room (lg_ring lg) lw' = unat (lo_record_max opts) \<and>
    unat (lo_max_payload opts) \<le> view_max_payload (lg_ring lg) lw'"
proof -
  obtain p where parse: "parse_and_validate_name name = Inr p" "\<not> pn_bootstrap p"
    using default_name_parse [OF service(1)] name(1) by auto
  have name': "name = (if lo_segment_name opts = [] then default_segment_name (os_pid (env 0)) (lo_service_name opts)
      else lo_segment_name opts)"
    using name(1) service(2) by simp
  obtain lg e lw' where l: "logger_init addr env opts lw = Some (Inr lg, lw')" "fresh_logger opts name (env 0) lg e lw'"
      "w_names (lw_world lw') = (w_names (lw_world lw))(name \<mapsto> hd_base (lg_handle lg))"
    using logger_segment [where env = env, OF w service(1) opts name' name(2) parse sys sec key room] by blast
  then show ?thesis
    using fresh_capacity [OF opts(3), of "lo_record_max opts"]
    by (intro exI [of _ lg] exI [of _ lw']) (simp add: fresh_logger_def Let_def ring_room_def fresh_meta_def)
qed

definition demo_logger_options :: LoggerOptions where
  "demo_logger_options = default_options\<lparr>lo_service_name := ''app'', lo_record_max := 2, lo_max_payload := 8\<rparr>"

lemma demo_logger:
  "valid_service_name (lo_service_name demo_logger_options)" "lo_segment_name demo_logger_options = []"
  "lo_record_max demo_logger_options = 2" "lo_max_payload demo_logger_options = 8"
  "lo_flags demo_logger_options = 0" "lo_service_name demo_logger_options = ''app''"
  by (simp_all add: demo_logger_options_def default_options_def valid_service_name_def is_service_tail_char_def
      char_between_def)

lemma demo_decimal: "decimal 42 = ''42''"
  by code_simp

lemma demo_logger_name: "default_segment_name 42 ''app'' = ''/shmfx.log.app_42''"
  by (simp add: default_segment_name_def demo_decimal)

lemma demo_logger_security:
  "validate_create_security (make_create_options demo_logger_options ''/shmfx.log.app_42'') (listed [] (reg_payload demo_world)) = Ok"
proof -
  have l: "listed [] (reg_payload demo_world) = []"
    using demo_world_ok(2) world_ok_registry [OF demo_world_ok(1)] by (intro listed_empty)
  have p: "parse_and_validate_name ''/shmfx.log.app_42'' =
      Inr \<lparr>pn_ns = ''log'', pn_leaf = ''app_42'', pn_bootstrap = False\<rparr>"
    using default_name_parse [OF demo_logger(1), of 42] by (simp add: demo_logger(6) demo_logger_name demo_decimal)
  show ?thesis
    unfolding l by (simp add: validate_create_security_def make_create_options_def Let_def p ring_payload_offset
        demo_logger record_stride_for_8 payload_size_for_2) (simp add: shm_consts kMaxNamespaceSegments_def push_bit_eq_mult)
qed

theorem logger_starts_witness:
  "\<exists>lg lw'. logger_init (\<lambda>_. 4096) (\<lambda>_. demo_env) demo_logger_options
      \<lparr>lw_world = demo_world, lw_rings = \<lambda>_. zero_ring 0\<rparr> = Some (Inr lg, lw') \<and>
    segment_name lg = ''/shmfx.log.app_42'' \<and> view_room (lg_ring lg) lw' = 2 \<and> 8 \<le> view_max_payload (lg_ring lg) lw'"
proof -
  let ?lw = "\<lparr>lw_world = demo_world, lw_rings = \<lambda>_. zero_ring 0\<rparr>" and ?n = "''/shmfx.log.app_42''"
  have pid: "os_pid ((\<lambda>_. demo_env) (0::nat)) = 42"
    by (simp add: demo_env_def)
  have "?n \<notin> dom (w_names demo_world)"
    by (simp add: demo_world_def add_registry_def empty_world_def shm_consts)
  then have "\<exists>lg lw'. logger_init (\<lambda>_. 4096) (\<lambda>_. demo_env) demo_logger_options ?lw = Some (Inr lg, lw') \<and>
    segment_name lg = ?n \<and> hd_owner (lg_handle lg) \<and> world_ok (lw_world lw') \<and>
    w_names (lw_world lw') = (w_names (lw_world ?lw))(?n \<mapsto> hd_base (lg_handle lg)) \<and>
    ring_ok (lg_ring lg) lw' \<and> ring_items (open_ring (lg_ring lg) lw') = [] \<and>
    view_room (lg_ring lg) lw' = unat (lo_record_max demo_logger_options) \<and>
    unat (lo_max_payload demo_logger_options) \<le> view_max_payload (lg_ring lg) lw'"
    using demo_world_ok demo_calm demo_logger_security demo_logger(1)
    by (intro logger_starts)
      (simp_all add: demo_logger(2-) pid demo_logger_name page_aligned_def MAX_REGISTRY_ENTRIES_def del: One_nat_def)
  then show ?thesis
    by (auto simp: demo_logger)
qed

section \<open>Delivery\<close>

text \<open>The calls of a program to its logger.\<close>

datatype log_call =
    LogText LogLevel string
  | LogBytes LogLevel "u8 list"
  | LogFormat "string \<Rightarrow> string option" LogLevel "string option"

fun log_call_run :: "log_env \<Rightarrow> log_call \<Rightarrow> Logger \<Rightarrow> log_world \<Rightarrow> VoidResult \<times> log_world" where
  "log_call_run le (LogText level message) = log_text le level message"
| "log_call_run le (LogBytes level payload) = log_binary le level payload"
| "log_call_run le (LogFormat expand level fmt) = log_fmt le expand level fmt"

fun log_calls :: "(log_env \<times> log_call) list \<Rightarrow> Logger \<Rightarrow> log_world \<Rightarrow> VoidResult list \<times> log_world" where
  "log_calls [] lg lw = ([], lw)"
| "log_calls ((le, call) # calls) lg lw =
     (case log_call_run le call lg lw of
        (e, lw1) \<Rightarrow> (case log_calls calls lg lw1 of (es, lw2) \<Rightarrow> (e # es, lw2)))"

text \<open>What a call asks for, or the error it ends with before it reaches the ring.\<close>

fun call_request :: "log_env \<Rightarrow> log_call \<Rightarrow> ErrorCode + log_request" where
  "call_request le (LogText level message) =
     Inr \<lparr>lq_env = le, lq_level = level, lq_flags = 0, lq_payload = text_bytes message\<rparr>"
| "call_request le (LogBytes level payload) =
     Inr \<lparr>lq_env = le, lq_level = level, lq_flags = LogBinary, lq_payload = payload\<rparr>"
| "call_request le (LogFormat expand level None) = Inl InvalidName"
| "call_request le (LogFormat expand level (Some fmt)) =
     (case expand fmt of
        None \<Rightarrow> Inl CorruptedHeader
      | Some output \<Rightarrow>
          Inr \<lparr>lq_env = le, lq_level = level,
               lq_flags = if length output < 1024 then 0 else LogTruncated,
               lq_payload = text_bytes (take 1023 output)\<rparr>)"

definition requests :: "(log_env \<times> log_call) list \<Rightarrow> log_request list" where
  "requests calls = [x. Inr x \<leftarrow> map (\<lambda>(le, call). call_request le call) calls]"

fun call_results :: "nat \<Rightarrow> (log_env \<times> log_call) list \<Rightarrow> VoidResult list" where
  "call_results room [] = []"
| "call_results room ((le, call) # calls) =
     (case call_request le call of
        Inl e \<Rightarrow> e # call_results room calls
      | Inr x \<Rightarrow> if room = 0 then RingFull # call_results 0 calls else Ok # call_results (room - 1) calls)"

lemma call_run_error: "call_request le call = Inl e \<Longrightarrow> log_call_run le call lg lw = (e, lw)"
  by (cases "(le, call)" rule: call_request.cases) (auto simp: log_fmt_def vlog_def split: option.splits)

lemma call_run_push:
  assumes "call_request le call = Inr x"
  shows "log_call_run le call lg lw = publish le (lq_level x) (lq_flags x) (lq_payload x) lg lw" "lq_env x = le"
  using assms by (cases "(le, call)" rule: call_request.cases;
    auto simp: log_fmt_def vlog_def log_text_def log_binary_def kFormatBufferBytes_def Let_def min_def not_le
      split: option.splits)+

lemma publish_push:
  assumes "lq_env x = le"
  shows "publish le (lq_level x) (lq_flags x) (lq_payload x) lg lw = (e, lw') \<Longrightarrow> log_push (lg_ring lg) x lw = (e = Ok, lw')"
  using assms by (simp add: publish_def log_push_def)

lemma publish_full:
  assumes "ring_ok (lg_ring lg) lw" "view_room (lg_ring lg) lw = 0"
  shows "fst (publish le level flags payload lg lw) = RingFull"
  using assms by (simp add: publish_def on_ring_def ring_ok_def try_push_full)

lemma log_calls_records:
  assumes "ring_ok (lg_ring lg) lw" "length calls \<le> view_life (lg_ring lg) lw" "list_all (\<lambda>(le, _). env_live le) calls"
  shows "\<exists>lw'. log_calls calls lg lw = (call_results (view_room (lg_ring lg) lw) calls, lw') \<and>
    ring_ok (lg_ring lg) lw' \<and> view_records name n (lg_ring lg) lw' = view_records name n (lg_ring lg) lw @
      map (request_record name n (view_max_payload (lg_ring lg) lw)) (take (view_room (lg_ring lg) lw) (requests calls))"
  using assms
proof (induction calls arbitrary: lw)
  case Nil
  then show ?case
    by (simp add: requests_def)
next
  case (Cons lc calls)
  obtain le call where lc: "lc = (le, call)"
    by fastforce
  let ?v = "lg_ring lg"
  show ?case
  proof (cases "call_request le call")
    case (Inl e)
    then show ?thesis
      using Cons.IH [of lw] Cons.prems by (auto simp: lc call_run_error requests_def)
  next
    case (Inr x)
    obtain e lw1 where run: "log_call_run le call lg lw = (e, lw1)"
      by fastforce
    then have push: "log_push ?v x lw = (e = Ok, lw1)"
      using call_run_push [OF Inr] publish_push by metis
    show ?thesis
    proof (cases "view_room ?v lw")
      case 0
      have "e = RingFull"
        using publish_full [OF Cons.prems(1) 0] call_run_push [OF Inr] run by (metis fst_conv)
      then show ?thesis
        using log_fifo.push_full [OF Cons.prems(1) 0 push, of name n] Cons.IH [of lw1] Cons.prems(2,3) 0 run
        by (auto simp: lc Inr)
    next
      case (Suc r)
      have "e = Ok \<and> ring_ok ?v lw1 \<and> view_records name n ?v lw1 =
            view_records name n ?v lw @ [request_record name n (view_max_payload ?v lw) x] \<and>
          Suc (view_room ?v lw1) = view_room ?v lw \<and> Suc (view_life ?v lw1) = view_life ?v lw \<and>
          request_record name n (view_max_payload ?v lw1) = request_record name n (view_max_payload ?v lw)"
        using Cons.prems Suc call_run_push(2) [OF Inr]
        by (intro log_fifo.push_room [OF _ _ _ _ push]) (auto simp: lc)
      then show ?thesis
        using Cons.IH [of lw1] Cons.prems(2,3) Suc run by (auto simp: lc Inr requests_def)
    qed
  qed
qed

text \<open>
  C13. Delivery: a program logs texts, bytes and formats, and the center then drains that ring, seen through
  its own mapping. The calls return the errors of bad formats, success while the ring has room and
  the ring-full error after that. The sink gets the records that were waiting and then those of the
  successful calls, in order, up to the batch size: with the level, the time of the call, the text
  cut at the format buffer, the slot and the scratch memory, and flagged if the first two cut it.
\<close>

theorem log_delivery:
  assumes "ring_ok (lg_ring lg) lw" "length calls \<le> view_life (lg_ring lg) lw" "list_all (\<lambda>(le, _). env_live le) calls"
    and "rv_segment (ar_ring ar) = rv_segment (lg_ring lg)" "rv_size (ar_ring ar) = rv_size (lg_ring lg)"
    and "log_calls calls lg lw = (es, lw1)" "drain_ring c ar s lw1 = (k, ar', s', lw2)"
    and "n = unat (lco_scratch_bytes (lc_options c))"
  shows "es = call_results (view_room (lg_ring lg) lw) calls \<and>
    s' = fold (lc_sink c) (take (unat (lco_drain_batch (lc_options c)))
      (view_records (ar_name ar) n (lg_ring lg) lw @
       map (request_record (ar_name ar) n (view_max_payload (lg_ring lg) lw))
         (take (view_room (lg_ring lg) lw) (requests calls)))) s"
proof -
  have l: "es = call_results (view_room (lg_ring lg) lw) calls" "ring_ok (lg_ring lg) lw1"
      "view_records (ar_name ar) n (lg_ring lg) lw1 = view_records (ar_name ar) n (lg_ring lg) lw @
        map (request_record (ar_name ar) n (view_max_payload (lg_ring lg) lw))
          (take (view_room (lg_ring lg) lw) (requests calls))"
    using log_calls_records [OF assms(1-3), of "ar_name ar" n] assms(6) by auto
  have "ring_ok (ar_ring ar) lw1"
    using l(2) other_view(1) [OF assms(4,5)] by simp
  from drain_ring_items [OF this refl assms(8) refl, of s] assms(7)
  have "s' = fold (lc_sink c) (take (unat (lco_drain_batch (lc_options c))) (view_records (ar_name ar) n (lg_ring lg) lw1)) s"
    by (auto simp: other_view(2) [OF assms(4,5)] take_map view_records_def)
  then show ?thesis
    unfolding l(3) using l(1) by blast
qed

text \<open>A logger and a center on a ring of two slots.\<close>

definition demo_view :: ring_view where
  "demo_view = \<lparr>rv_segment = 2, rv_data = sp_data (mr_payload demo_ring), rv_size = 272\<rparr>"

definition demo_lw :: log_world where
  "demo_lw = \<lparr>lw_world = empty_world, lw_rings = (\<lambda>_. \<lparr>sg_meta = ring_meta demo_ring, sg_bytes = ring_bytes demo_ring\<rparr>)\<rparr>"

definition demo_center :: "LogRecord list LogCenter" where
  "demo_center = set_sink (Some (\<lambda>r rs. rs @ [r])) (LogCenter_of \<lparr>lco_prefix = ''/shmfx.log.'', lco_drain_batch = 4, lco_scratch_bytes = 16\<rparr>)"

definition demo_log_env :: log_env where
  "demo_log_env = \<lparr>le_weak = \<lambda>_. False, le_clock = Some (1, 5), le_clock_again = None\<rparr>"

lemma demo_lw_ring: "open_ring demo_view demo_lw = demo_ring" "ring_ok demo_view demo_lw"
proof -
  have l: "length (ring_bytes demo_ring) = 272"
    using ring_inv_length(1) [OF demo_ring_inv(2)] by (simp add: demo_ring_inv(4) fresh_meta_def layout_size_def)
  then show o: "open_ring demo_view demo_lw = demo_ring"
    using ring_inv_length(2) [OF demo_ring_inv(2)]
    by (simp add: open_ring_def demo_view_def demo_lw_def ring_bytes_def)
  show "ring_ok demo_view demo_lw"
    unfolding ring_ok_def o using l demo_ring_inv(2) by (simp add: demo_lw_def demo_view_def)
qed

lemma demo_lw_room: "view_room demo_view demo_lw = 2" "view_max_payload demo_view demo_lw = 48"
    "view_records name n demo_view demo_lw = []" "4 \<le> view_life demo_view demo_lw"
  by (simp_all add: demo_lw_ring view_records_def ring_room_def demo_ring_life demo_ring_inv(3))
    (simp add: ring_life_def demo_ring_inv fresh_meta_def)

lemma demo_env_live: "env_live demo_log_env"
  using always_live by (simp add: demo_log_env_def)

theorem log_delivery_witness:
  "case log_calls [(demo_log_env, LogText Warn ''hi''), (demo_log_env, LogFormat (\<lambda>_. None) Info (Some ''x'')),
      (demo_log_env, LogBytes Error (text_bytes ''z'')), (demo_log_env, LogText Info ''late'')]
      \<lparr>lg_handle = empty_handle, lg_ring = demo_view, lg_segment_name = ''a''\<rparr> demo_lw of (es, lw1) \<Rightarrow>
   (case drain_ring demo_center (AttachedRing_of ''a'' empty_handle (demo_view\<lparr>rv_data := 64\<rparr>)) [] lw1 of
      (k, ar', rs, lw2) \<Rightarrow> es = [Ok, CorruptedHeader, Ok, RingFull] \<and>
        map (\<lambda>r. (lr_level r, lr_timestamp_ns r, lr_payload r)) rs =
          [(Warn, 1000000005, ''hi''), (Error, 1000000005, ''z'')])"
proof -
  let ?calls = "[(demo_log_env, LogText Warn ''hi''), (demo_log_env, LogFormat (\<lambda>_. None) Info (Some ''x'')),
      (demo_log_env, LogBytes Error (text_bytes ''z'')), (demo_log_env, LogText Info ''late'')]"
  let ?lg = "\<lparr>lg_handle = empty_handle, lg_ring = demo_view, lg_segment_name = ''a''\<rparr>"
  let ?ar = "AttachedRing_of ''a'' empty_handle (demo_view\<lparr>rv_data := 64\<rparr>)"
  obtain es lw1 where l: "log_calls ?calls ?lg demo_lw = (es, lw1)"
    by fastforce
  obtain k ar' rs lw2 where d: "drain_ring demo_center ?ar [] lw1 = (k, ar', rs, lw2)"
    by (cases "drain_ring demo_center ?ar [] lw1")
  have "es = call_results (view_room demo_view demo_lw) ?calls \<and>
      rs = fold (lc_sink demo_center) (take 4 (view_records ''a'' 16 demo_view demo_lw @
        map (request_record ''a'' 16 (view_max_payload demo_view demo_lw)) (take (view_room demo_view demo_lw) (requests ?calls)))) []"
    using log_delivery [of ?lg demo_lw ?calls ?ar es lw1 demo_center "[]" k ar' rs lw2 16] l d demo_lw_room(4) demo_env_live demo_lw_ring(2)
    by (simp add: AttachedRing_of_def demo_center_def set_sink_def LogCenter_of_def del: log_calls.simps)
  then have "es = [Ok, CorruptedHeader, Ok, RingFull]"
      "map (\<lambda>r. (lr_level r, lr_timestamp_ns r, lr_payload r)) rs = [(Warn, 1000000005, ''hi''), (Error, 1000000005, ''z'')]"
    unfolding demo_lw_room
    by (simp_all add: requests_def request_record_def demo_center_def set_sink_def LogCenter_of_def demo_log_env_def
        monotonic_record_time_def)
  then show ?thesis
    by (simp only: l d prod.case)
qed

end
