(* ===== verification/Log_Lifecycle.thy ===== *)
theory Log_Lifecycle
  imports Log_Theorems
begin

text \<open>
  The center over time: the steps of a center while other processes do anything to the shared memory,
  the invariant of its list of rings, and how the rings of producers that are gone leave that list.
\<close>

section \<open>Invariant of the center\<close>

text \<open>
  Rings have different names, are attached for writing but not owned, view the segment of their
  handle, and none is left marked for removal.
\<close>

definition attached_ok :: "AttachedRing \<Rightarrow> bool" where
  "attached_ok ar \<longleftrightarrow>
     hd_mode (ar_handle ar) = ReadWrite \<and> \<not> hd_owner (ar_handle ar) \<and>
     rv_segment (ar_ring ar) = hd_base (ar_handle ar) \<and> \<not> ar_remove_after_drain ar"

definition center_ok :: "'s LogCenter \<Rightarrow> bool" where
  "center_ok c \<longleftrightarrow> distinct (map ar_name (lc_rings c)) \<and> (\<forall>ar \<in> set (lc_rings c). attached_ok ar)"

inductive center_step :: "'s LogCenter \<Rightarrow> 's LogCenter \<Rightarrow> bool" where
  step_discover: "discover_once addr env c lw = Some (e, c', lw') \<Longrightarrow> center_step c c'"
| step_drain: "drain_once env c s lw = Some (n, c', s', lw') \<Longrightarrow> center_step c c'"
| step_poll: "poll_once addr envs env c s lw = Some (r, c', s', lw') \<Longrightarrow> center_step c c'"
| step_sink: "center_step c (set_sink f c)"

inductive_cases center_stepE: "center_step c c'"

lemma attach_ring_ok:
  assumes "center_ok c" "attach_ring addr env name c lw = Some (e, c', lw')"
  shows "center_ok c'"
proof -
  have "c' = c \<or> (\<exists>w1 h ring. attach env name ReadWrite (lw_world lw) = Some (Inr h, w1) \<and>
      name \<notin> ar_name ` set (lc_rings c) \<and>
      c' = c\<lparr>lc_rings := lc_rings c @ [AttachedRing_of name h (view_of h ring)]\<rparr>)"
    using assms(2)
    by (auto simp: attach_ring_def Let_def list_ex_iff image_iff split: if_splits bind_splits sum.splits)
  then show ?thesis
  proof (elim disjE exE conjE)
    fix w1 h ring
    assume a: "attach env name ReadWrite (lw_world lw) = Some (Inr h, w1)" "name \<notin> ar_name ` set (lc_rings c)"
      and c': "c' = c\<lparr>lc_rings := lc_rings c @ [AttachedRing_of name h (view_of h ring)]\<rparr>"
    have "hd_mode h = ReadWrite" "\<not> hd_owner h"
      using attach_handle [OF a(1)] by auto
    then show ?thesis
      using assms(1) a(2) by (auto simp: c' center_ok_def attached_ok_def AttachedRing_of_def view_of_def)
  qed (use assms(1) in simp)
qed

lemma discover_loop_ok:
  "center_ok c \<Longrightarrow> discover_loop addr env entries c lw = Some (e, c', lw') \<Longrightarrow> center_ok c'"
proof (induction entries arbitrary: env c lw)
  case (Cons entry entries)
  then show ?case
    by (auto split: if_splits bind_splits dest: attach_ring_ok)
qed simp

lemma discover_once_ok:
  "center_ok c \<Longrightarrow> discover_once addr env c lw = Some (e, c', lw') \<Longrightarrow> center_ok c'"
  by (auto simp: discover_once_def split: bind_splits dest: discover_loop_ok)

section \<open>Draining and letting go\<close>

definition mark_dead :: "world \<Rightarrow> AttachedRing \<Rightarrow> AttachedRing" where
  "mark_dead w ar =
     (if segment_dead (header_at w (hd_base (ar_handle ar))) then ar\<lparr>ar_remove_after_drain := True\<rparr> else ar)"

lemma drain_ring_frame:
  "drain_ring c ar s lw = (n, ar', s', lw') \<Longrightarrow> ar' = mark_dead (lw_world lw) ar \<and> lw_world lw' = lw_world lw"
  by (auto simp: drain_ring_def Let_def on_ring_def close_ring_def mark_dead_def split: prod.splits)

lemma drain_rings_frame:
  "drain_rings c rings s lw = (n, rings', s', lw') \<Longrightarrow>
   rings' = map (mark_dead (lw_world lw)) rings \<and> lw_world lw' = lw_world lw"
proof (induction rings arbitrary: s lw n rings' s' lw')
  case (Cons ar rings)
  obtain n1 ar1 s1 lw1 where d: "drain_ring c ar s lw = (n1, ar1, s1, lw1)"
    by (cases "drain_ring c ar s lw")
  obtain m rings1 s2 lw2 where r: "drain_rings c rings s1 lw1 = (m, rings1, s2, lw2)"
    by (cases "drain_rings c rings s1 lw1")
  show ?case
    using Cons.IH [OF r] Cons.prems drain_ring_frame [OF d] by (auto simp: d r)
qed simp

lemma reset_user:
  assumes "hd_mode h = ReadWrite" "\<not> hd_owner h"
  shows "\<exists>w'. handle_reset env h w = Some (empty_handle, w') \<and> w_names w' = w_names w \<and>
    (\<forall>k. k \<noteq> hd_base h \<longrightarrow> header_at w' k = header_at w k)"
  using assms by (auto simp: handle_reset_def Let_def upd_header_def upd_object_def header_at_def)

lemma drop_rings_ok:
  assumes "\<forall>ar \<in> set rings. hd_mode (ar_handle ar) = ReadWrite \<and> \<not> hd_owner (ar_handle ar)"
  shows "\<exists>lw'. drop_rings env rings lw = Some lw' \<and> lw_rings lw' = lw_rings lw \<and>
    w_names (lw_world lw') = w_names (lw_world lw) \<and>
    (\<forall>k. k \<notin> (\<lambda>ar. hd_base (ar_handle ar)) ` set rings \<longrightarrow> header_at (lw_world lw') k = header_at (lw_world lw) k)"
  using assms
proof (induction rings arbitrary: lw)
  case (Cons ar rings)
  obtain w1 where w1: "handle_reset env (ar_handle ar) (lw_world lw) = Some (empty_handle, w1)"
      "w_names w1 = w_names (lw_world lw)" "\<forall>k. k \<noteq> hd_base (ar_handle ar) \<longrightarrow> header_at w1 k = header_at (lw_world lw) k"
    using reset_user [of "ar_handle ar" env "lw_world lw"] Cons.prems by auto
  then show ?case
    using Cons.IH [of "lw\<lparr>lw_world := w1\<rparr>"] Cons.prems by (auto simp: drop_handle_def)
qed simp

text \<open>What a drain pass leaves: the rings whose segments are not dead, as they were.\<close>

lemma drain_once_rings:
  assumes "center_ok c"
  shows "\<exists>n s' lw'. drain_once env c s lw =
      Some (n, c\<lparr>lc_rings := filter (\<lambda>ar. \<not> segment_dead (header_at (lw_world lw) (hd_base (ar_handle ar)))) (lc_rings c)\<rparr>, s', lw') \<and>
    (\<forall>k. \<not> segment_dead (header_at (lw_world lw) k) \<longrightarrow> header_at (lw_world lw') k = header_at (lw_world lw) k) \<and>
    w_names (lw_world lw') = w_names (lw_world lw)"
proof -
  let ?w = "lw_world lw"
  obtain n rings s1 lw1 where d: "drain_rings c (lc_rings c) s lw = (n, rings, s1, lw1)"
    by (cases "drain_rings c (lc_rings c) s lw")
  have r: "rings = map (mark_dead ?w) (lc_rings c)" "lw_world lw1 = ?w"
    using drain_rings_frame [OF d] by simp_all
  have ok: "\<forall>ar \<in> set (lc_rings c). attached_ok ar"
    using assms by (simp add: center_ok_def)
  have "filter (\<lambda>ring. \<not> ar_remove_after_drain ring) (map (mark_dead ?w) rs) =
      filter (\<lambda>ar. \<not> segment_dead (header_at ?w (hd_base (ar_handle ar)))) rs"
    if "\<forall>ar \<in> set rs. attached_ok ar" for rs
    using that by (induction rs) (auto simp: mark_dead_def attached_ok_def)
  then have keep: "filter (\<lambda>ring. \<not> ar_remove_after_drain ring) rings =
      filter (\<lambda>ar. \<not> segment_dead (header_at ?w (hd_base (ar_handle ar)))) (lc_rings c)"
    using ok by (simp add: r)
  have dropped: "hd_mode (ar_handle ar) = ReadWrite \<and> \<not> hd_owner (ar_handle ar) \<and> segment_dead (header_at ?w (hd_base (ar_handle ar)))"
    if "ar \<in> set (filter ar_remove_after_drain rings)" for ar
    using that ok by (auto simp: r mark_dead_def attached_ok_def split: if_splits)
  have users: "\<forall>ar \<in> set (filter ar_remove_after_drain rings). hd_mode (ar_handle ar) = ReadWrite \<and> \<not> hd_owner (ar_handle ar)"
    using dropped by blast
  obtain lw2 where lw2: "drop_rings env (filter ar_remove_after_drain rings) lw1 = Some lw2"
      "w_names (lw_world lw2) = w_names ?w"
      "\<forall>k. k \<notin> (\<lambda>ar. hd_base (ar_handle ar)) ` set (filter ar_remove_after_drain rings) \<longrightarrow>
        header_at (lw_world lw2) k = header_at ?w k"
    using drop_rings_ok [OF users, of env lw1] unfolding r(2) by (elim exE conjE) (rule that; assumption)
  have "drain_once env c s lw =
      Some (n, c\<lparr>lc_rings := filter (\<lambda>ar. \<not> segment_dead (header_at ?w (hd_base (ar_handle ar)))) (lc_rings c)\<rparr>, s1, lw2)"
    by (simp add: drain_once_def d lw2(1) keep)
  moreover have "header_at (lw_world lw2) k = header_at ?w k" if "\<not> segment_dead (header_at ?w k)" for k
    using lw2(3) [rule_format, of k] dropped that by (metis imageE)
  ultimately show ?thesis
    using lw2(2) by (intro exI [of _ n] exI [of _ s1] exI [of _ lw2]) simp
qed

lemma drain_once_ok:
  assumes "center_ok c" "drain_once env c s lw = Some (n, c', s', lw')"
  shows "center_ok c'"
proof -
  let ?p = "\<lambda>ar. \<not> segment_dead (header_at (lw_world lw) (hd_base (ar_handle ar)))"
  have "c' = c\<lparr>lc_rings := filter ?p (lc_rings c)\<rparr>"
    using drain_once_rings [OF assms(1), of env s lw] assms(2) by auto
  moreover have "distinct (map ar_name (filter ?p (lc_rings c)))"
    using assms(1) by (simp add: center_ok_def distinct_map_filter)
  ultimately show ?thesis
    using assms(1) by (simp add: center_ok_def)
qed

interpretation centers: step_invariant "\<lambda>c. \<exists>options. c = LogCenter_of options" center_step center_ok
proof
  show "center_ok c" if "\<exists>options. c = LogCenter_of options" for c :: "'s LogCenter"
    using that by (auto simp: LogCenter_of_def center_ok_def)
  show "center_ok c'" if "center_ok c" "center_step c c'" for c c' :: "'s LogCenter"
    using that(2,1)
  proof cases
    case (step_poll addr envs env s lw r s' lw')
    then obtain e c1 lw1 n c2 s1 lw2 where p: "discover_once addr envs c lw = Some (e, c1, lw1)"
        "drain_once env c1 s lw1 = Some (n, c2, s1, lw2)" "lc_rings c' = lc_rings c2"
      by (auto simp: poll_once_def split: bind_splits if_splits prod.splits)
    then show ?thesis
      using drain_once_ok [OF discover_once_ok [OF that(1) p(1)] p(2)] by (simp add: center_ok_def)
  next
    case (step_sink f)
    then show ?thesis
      using that(1) by (simp add: set_sink_def center_ok_def)
  qed (use that(1) in \<open>auto intro: discover_once_ok drain_once_ok\<close>)
qed

text \<open>
  C24. Whatever other processes do to the shared memory between the calls: a center never has two rings of
  the same name, its rings are attached for writing and not owned and view the segment of their
  handle, and a drain pass never waits for a lock and removes exactly the rings of dead segments.
\<close>

theorem center_invariant:
  assumes "reachable (\<lambda>c. \<exists>options. c = LogCenter_of options) center_step c"
  shows "distinct (map ar_name (lc_rings c)) \<and> (\<forall>ar \<in> set (lc_rings c). attached_ok ar) \<and>
    (\<exists>n c' s' lw'. drain_once env c s lw = Some (n, c', s', lw') \<and>
      lc_rings c' = filter (\<lambda>ar. h_state (header_at (lw_world lw) (hd_base (ar_handle ar))) \<noteq> segment_state_code Dead) (lc_rings c))"
proof -
  have ok: "center_ok c"
    using centers.unbounded.reachable_inv [OF assms] by simp
  then show ?thesis
    using drain_once_rings [OF ok, of env s lw] by (auto simp: center_ok_def segment_dead_def)
qed

theorem center_invariant_witness:
  "\<exists>n c' s' lw'. drain_once demo_env demo_center [] demo_lw = Some (n, c', s', lw') \<and> distinct (map ar_name (lc_rings demo_center))"
proof -
  have "reachable (\<lambda>c. \<exists>options. c = LogCenter_of options) center_step demo_center"
    unfolding demo_center_def by (rule reach_step, rule reach_start, rule exI, rule refl, rule step_sink)
  from center_invariant [OF this, of demo_env "[]" demo_lw] show ?thesis
    by blast
qed

section \<open>Rings of producers that are gone\<close>




definition demo_attached :: AttachedRing where
  "demo_attached = AttachedRing_of demo_name
     \<lparr>hd_base = 2, hd_size = 4096, hd_fd = True, hd_mode = ReadWrite, hd_owner = False\<rparr> demo_view"

lemma demo_attached_ok: "attached_ok demo_attached" "hd_base (ar_handle demo_attached) = 2"
    "ar_ring demo_attached = demo_view"
  by (simp_all add: demo_attached_def attached_ok_def AttachedRing_of_def demo_view_def)


text \<open>
  C40. The last drain of the ring of a dead segment is one batch: the sink gets the first records, up to the
  batch size, the center lets go of the ring, and the remaining records stay in it.
\<close>

theorem dead_ring_drops_rest:
  assumes c: "lc_rings c = [ar]" "attached_ok ar" and dead: "segment_dead (header_at (lw_world lw) (hd_base (ar_handle ar)))"
    and ok: "ring_ok (ar_ring ar) lw"
    and b: "b = unat (lco_drain_batch (lc_options c))" and n: "n = unat (lco_scratch_bytes (lc_options c))"
    and records: "records = view_records (ar_name ar) n (ar_ring ar) lw"
  shows "\<exists>m lw'. drain_once env c s lw = Some (m, c\<lparr>lc_rings := []\<rparr>, fold (lc_sink c) (take b records) s, lw') \<and>
    view_records (ar_name ar) n (ar_ring ar) lw' = drop b records"
proof -
  let ?ar = "ar\<lparr>ar_remove_after_drain := True\<rparr>"
  obtain m lw1 where d: "drain_ring c ar s lw = (m, ?ar, fold (lc_sink c) (take b records) s, lw1)"
      "view_records (ar_name ar) n (ar_ring ar) lw1 = drop b records"
    using drain_ring_items [OF ok b n refl, of s] dead by (auto simp: view_records_def records take_map drop_map)
  obtain lw2 where lw2: "drop_rings env [?ar] lw1 = Some lw2" "lw_rings lw2 = lw_rings lw1"
    using drop_rings_ok [of "[?ar]" env lw1] c(2) by (auto simp: attached_ok_def)
  have "view_records (ar_name ar) n (ar_ring ar) lw2 = view_records (ar_name ar) n (ar_ring ar) lw1"
    by (simp add: view_records_def open_ring_def lw2(2))
  then show ?thesis
    using d lw2(1) by (simp add: drain_once_def c(1) del: drop_rings.simps)
qed

theorem dead_ring_drops_rest_witness:
  "\<exists>c lw m lw'. drain_once demo_env c [] lw = Some (m, c\<lparr>lc_rings := []\<rparr>,
       [\<lparr>lr_source = demo_name, lr_level = Info, lr_flags = 0, lr_timestamp_ns = 1000000005, lr_payload = ''one''\<rparr>], lw') \<and>
     map lr_payload (view_records demo_name 16 demo_view lw') = [''two'']"
proof -
  let ?calls = "[(demo_log_env, LogText Info ''one''), (demo_log_env, LogText Info ''two'')]"
  let ?lg = "\<lparr>lg_handle = empty_handle, lg_ring = demo_view, lg_segment_name = demo_name\<rparr>"
  obtain lw1 where lw1: "ring_ok demo_view lw1" "view_records demo_name 16 demo_view lw1 =
      map (request_record demo_name 16 48) (take 2 (requests ?calls))"
    using log_calls_records [of ?lg demo_lw ?calls demo_name 16] demo_lw_room(4) demo_env_live demo_lw_ring(2)
    by (auto simp: demo_lw_room(1-3) simp del: log_calls.simps)
  define lw where "lw = lw1\<lparr>lw_world := set_state 2 Dead empty_world\<rparr>"
  define c where "c = demo_center\<lparr>lc_options := \<lparr>lco_prefix = [], lco_drain_batch = 1, lco_scratch_bytes = 16\<rparr>,
    lc_rings := [demo_attached]\<rparr>"
  have same: "ring_ok demo_view lw" "view_records demo_name 16 demo_view lw = view_records demo_name 16 demo_view lw1"
    using lw1(1) by (simp_all add: lw_def ring_ok_def open_ring_def view_records_def)
  have "segment_dead (header_at (lw_world lw) 2)"
    by (simp add: lw_def segment_dead_def set_state_def upd_header_def upd_object_def header_at_def)
  then obtain m lw' where d: "drain_once demo_env c [] lw =
        Some (m, c\<lparr>lc_rings := []\<rparr>, fold (lc_sink c) (take 1 (view_records demo_name 16 demo_view lw)) [], lw')"
      "view_records demo_name 16 demo_view lw' = drop 1 (view_records demo_name 16 demo_view lw)"
    using dead_ring_drops_rest [of c demo_attached lw 1 16 _ demo_env "[]"] same(1) demo_attached_ok
    by (auto simp: c_def demo_attached_def AttachedRing_of_def)
  have rec: "view_records demo_name 16 demo_view lw =
      [\<lparr>lr_source = demo_name, lr_level = Info, lr_flags = 0, lr_timestamp_ns = 1000000005, lr_payload = ''one''\<rparr>,
       \<lparr>lr_source = demo_name, lr_level = Info, lr_flags = 0, lr_timestamp_ns = 1000000005, lr_payload = ''two''\<rparr>]"
    unfolding same(2) lw1(2)
    by (simp add: requests_def request_record_def demo_log_env_def monotonic_record_time_def)
  show ?thesis
    using d unfolding rec
    by (intro exI [of _ c] exI [of _ lw] exI [of _ m] exI [of _ lw'])
      (simp add: c_def demo_center_def set_sink_def)
qed

end
