(* ===== verification/Log_Session.thy ===== *)
theory Log_Session
  imports Log_Lifecycle
begin

text \<open>
  Sessions of the logging application: the center finds the ring of a running logger through the
  registry and the manager, attaches to the same storage and drains it.
\<close>

section \<open>Finding the segment\<close>

lemma listed_single:
  assumes ok: "registry_ok p" and map: "registry_map p = [name \<mapsto> e]" and pre: "name = prefix @ rest"
  shows "\<exists>e'. listed prefix p = [e'] \<and> entry_key e' = name \<and> strip_seq e' = e"
proof -
  have keys: "\<forall>x \<in> set (listed prefix p). entry_key x = name"
    using listed_dom [OF ok, of _ prefix] map by (auto split: if_splits)
  have "map_of (map (\<lambda>e. (entry_key e, strip_seq e)) (listed prefix p)) name = Some e"
    using pre map by (auto simp: listed_map [OF ok])
  then obtain x xs where x: "listed prefix p = x # xs"
    by (cases "listed prefix p") auto
  moreover have "xs = []"
    using listed_names [OF ok, of prefix] keys x by (cases xs) auto
  moreover have "entry_key x = name" "strip_seq x = e"
    using keys x \<open>map_of _ name = Some e\<close> by auto
  ultimately show ?thesis
    by simp
qed

text \<open>The segment and the ring of a logger in use, whatever it has logged.\<close>

definition running_logger :: "LoggerOptions \<Rightarrow> string \<Rightarrow> os_env \<Rightarrow> Logger \<Rightarrow> RegistryEntry \<Rightarrow> log_world \<Rightarrow> bool" where
  "running_logger opts name env lg e lw \<longleftrightarrow>
     (let w = lw_world lw; k = hd_base (lg_handle lg); h = header_at w k; v = lg_ring lg;
          co = make_create_options opts name
      in world_ok w \<and> w_names w name = Some k \<and> reg_map w name = Some e \<and> re_flags e = h_flags h \<and>
         re_segment_type e = segment_type_code RecordRing \<and>
         ob_size (w_objects w k) = co_total_size co \<and> options_fit co 320 \<and> describes co 320 h \<and>
         h_state h = segment_state_code Active \<and> verify_header_hmac (os_keys env) h = Ok \<and>
         fixed_name_view (h_name h) = name \<and> h_owner_pid h = os_pid env \<and>
         h_heartbeat_last_ns h = monotonic_ns (os_clock env 1) \<and>
         read_proc_start_time (os_proc env) (os_pid env) \<in> {None, Some (h_owner_start_time h)} \<and>
         unat (h_payload_offset h) = 320 \<and> unat (h_payload_size h) = rv_size v \<and> rv_segment v = k \<and>
         rv_size v = unat (payload_size_for (lo_record_max opts) (record_stride_for (lo_max_payload opts))) \<and>
         ring_ok v lw \<and> record_max (ring_meta (open_ring v lw)) = lo_record_max opts \<and>
         record_stride (ring_meta (open_ring v lw)) = record_stride_for (lo_max_payload opts))"

lemma fresh_running: "fresh_logger opts name env lg e lw \<Longrightarrow> running_logger opts name env lg e lw"
  unfolding fresh_logger_def running_logger_def Let_def by (elim conjE, intro conjI) (assumption | simp add: fresh_meta_def)+

text \<open>The owner is still the process that created the segment, and its heartbeat is recent.\<close>

definition owner_alive :: "os_env \<Rightarrow> os_env \<Rightarrow> bool" where
  "owner_alive created now \<longleftrightarrow>
     os_pid created \<noteq> 0 \<and> \<not> pe_esrch (os_proc now) (sint (os_pid created)) \<and>
     read_proc_start_time (os_proc now) (os_pid created) = read_proc_start_time (os_proc created) (os_pid created) \<and>
     unat (monotonic_ns (os_clock now 0)) \<le> unat (monotonic_ns (os_clock created 1)) + unat HEARTBEAT_DEAD_NS"

lemma running_live:
  assumes f: "running_logger opts name env lg e lw" and c: "calm env2 name" and a: "owner_alive env env2"
  shows "live_segment env2 (monotonic_ns (os_clock env2 0)) name (hd_base (lg_handle lg)) (lw_world lw)"
proof -
  note f' = f [unfolded running_logger_def Let_def]
  let ?h = "header_at (lw_world lw) (hd_base (lg_handle lg))"
  have "h_owner_pid ?h = os_pid env" "h_heartbeat_last_ns ?h = monotonic_ns (os_clock env 1)"
      "read_proc_start_time (os_proc env) (os_pid env) \<in> {None, Some (h_owner_start_time ?h)}"
    using f' by blast+
  then have "\<not> owner_is_dead (os_proc env2) ?h (monotonic_ns (os_clock env2 0))"
    using a by (intro owner_fresh_heartbeat) (simp_all add: owner_alive_def)
  then show ?thesis
    by (rule created_live [where opts = "make_create_options opts name" and po = 320, rotated -1])
      (use f' c in blast)+
qed

lemma running_attach:
  assumes f: "running_logger opts name env lg e lw" and parse: "parse_and_validate_name name = Inr p" "name \<noteq> REGISTRY_NAME"
    and c: "calm env2 name" and a: "owner_alive env env2" and keys: "os_keys env2 = os_keys env"
    and gc: "gc env2 (lw_world lw) = Some (lw_world lw)"
  shows "attach env2 name ReadWrite (lw_world lw) =
    Some (Inr \<lparr>hd_base = hd_base (lg_handle lg), hd_size = ob_size (w_objects (lw_world lw) (hd_base (lg_handle lg))),
               hd_fd = True, hd_mode = ReadWrite, hd_owner = False\<rparr>,
          upd_header (hd_base (lg_handle lg)) (\<lambda>h. h\<lparr>h_ref_count := h_ref_count h + 1\<rparr>) (lw_world lw))"
proof -
  note f' = f [unfolded running_logger_def Let_def]
  have "validate_header (header_at (lw_world lw) (hd_base (lg_handle lg))) (ob_size (w_objects (lw_world lw) (hd_base (lg_handle lg)))) = Ok"
    using f' describes_valid(1) [of "make_create_options opts name" 320] by simp
  then show ?thesis
    using attach_live(1) [OF _ parse running_live [OF f c a] _ gc, where mode = ReadWrite] f' c keys
    by (simp add: calm_def)
qed

text \<open>Binding to the storage the logger initialised gives a view of the same bytes.\<close>

lemma running_bind:
  assumes f: "running_logger opts name env lg e lw" and addr: "page_aligned addr" and opts: "2 \<le> unat (lo_record_max opts)"
      "unat (lo_max_payload opts) + 16 \<le> 4294967232"
    and k: "hd_base handle = hd_base (lg_handle lg)" and rings: "lw_rings lw2 = lw_rings lw"
    and off: "handle_payload (lw_world lw2) handle = (320, rv_size (lg_ring lg))"
  shows "\<exists>ring. ring_bind (logger_ring_meta lw2 handle) (handle_span addr lw2 handle) = Inr ring \<and>
    rv_segment (view_of handle ring) = rv_segment (lg_ring lg) \<and> rv_size (view_of handle ring) = rv_size (lg_ring lg)"
proof -
  note f' = f [unfolded running_logger_def Let_def]
  let ?v = "lg_ring lg" and ?s = "record_stride_for (lo_max_payload opts)"
  let ?ps = "payload_size_for (lo_record_max opts) ?s"
  have ok: "ring_inv (open_ring ?v lw)" and len: "rv_size ?v \<le> length (sg_bytes (lw_rings lw (hd_base (lg_handle lg))))"
    using f' by (auto simp: ring_ok_def)
  have v': "rv_segment ?v = hd_base (lg_handle lg)" "rv_size ?v = unat ?ps"
      "record_max (ring_meta (open_ring ?v lw)) = lo_record_max opts" "record_stride (ring_meta (open_ring ?v lw)) = ?s"
    using f' by blast+
  let ?m = "ring_meta (open_ring ?v lw)"
  have meta: "logger_ring_meta lw2 handle = ?m"
    by (simp add: logger_ring_meta_def rings k open_ring_def ring_meta_def v'(1))
  have sp: "handle_span addr lw2 handle = \<lparr>sp_data = addr (hd_base handle) + 320,
      sp_bytes = take (rv_size ?v) (sg_bytes (lw_rings lw (hd_base (lg_handle lg))))\<rparr>"
    by (simp add: handle_span_def off rings k)
  have al: "payload_aligned (handle_span addr lw2 handle)"
    using page_offset_aligned [OF addr] by (simp add: payload_aligned_def sp shm_consts)
  have v: "valid_meta ?m"
    using ok by (auto simp: ring_inv_def ring_fits_def ring_meta_def)
  have "?ps \<noteq> 0"
  proof
    assume "?ps = 0"
    then have "rv_size ?v = 0"
      using v'(2) by simp
    then have "length (ring_bytes (open_ring ?v lw)) = 0"
      by (simp add: open_ring_def ring_bytes_def)
    then show False
      using ring_inv_length(1) [OF ok] by (simp add: layout_size_def)
  qed
  then have "ring_bind (logger_ring_meta lw2 handle) (handle_span addr lw2 handle) =
      Inr \<lparr>mr_meta = Some ?m, mr_payload = span_first (rv_size ?v) (handle_span addr lw2 handle)\<rparr>"
    unfolding ring_bind_def meta using v al len v'(2-4) by (simp add: sp Let_def)
  then show ?thesis
    using v'(1) len k by (auto simp: view_of_def ring_bytes_def span_first_def sp)
qed

section \<open>Discovery\<close>

lemma running_discover:
  assumes f: "running_logger opts name env lg e lw" and parse: "parse_and_validate_name name = Inr p" "name \<noteq> REGISTRY_NAME"
    and map: "reg_map (lw_world lw) = [name \<mapsto> e]"
    and c: "calm (denv 0) name" "calm (denv 1) name" and a: "owner_alive env (denv 0)" "owner_alive env (denv 1)"
    and keys: "os_keys (denv 1) = os_keys env" and pre: "name = lco_prefix (lc_options cen) @ rest"
    and addr: "page_aligned addr"
    and opts: "2 \<le> unat (lo_record_max opts)" "unat (lo_max_payload opts) + 16 \<le> 4294967232"
    and empty: "lc_rings cen = []"
  shows "\<exists>ar lw2. discover_once addr denv cen lw = Some (Ok, cen\<lparr>lc_rings := [ar]\<rparr>, lw2) \<and> attached_ok ar \<and> ar_name ar = name \<and>
    rv_segment (ar_ring ar) = rv_segment (lg_ring lg) \<and> rv_size (ar_ring ar) = rv_size (lg_ring lg) \<and>
    hd_base (ar_handle ar) = hd_base (lg_handle lg) \<and> lw_rings lw2 = lw_rings lw \<and>
    lw_world lw2 = upd_header (hd_base (lg_handle lg)) (\<lambda>h. h\<lparr>h_ref_count := h_ref_count h + 1\<rparr>) (lw_world lw)"
proof -
  note f' = f [unfolded running_logger_def Let_def]
  let ?w = "lw_world lw" and ?k = "hd_base (lg_handle lg)"
  let ?h = "\<lparr>hd_base = ?k, hd_size = ob_size (w_objects ?w ?k), hd_fd = True, hd_mode = ReadWrite, hd_owner = False\<rparr>"
  let ?w2 = "upd_header ?k (\<lambda>h. h\<lparr>h_ref_count := h_ref_count h + 1\<rparr>) ?w"
  define lw2 where "lw2 = lw\<lparr>lw_world := ?w2\<rparr>"
  have w: "world_ok ?w" and ty: "re_segment_type e = segment_type_code RecordRing"
    using f' by blast+
  have dom: "dom (reg_map ?w) \<subseteq> {name}"
    by (simp add: map)
  note gc = gc_live [OF w running_live [OF f c(1) a(1)] dom] gc_live [OF w running_live [OF f c(2) a(2)] dom]
  obtain e' where e': "listed (lco_prefix (lc_options cen)) (reg_payload ?w) = [e']" "entry_key e' = name" "strip_seq e' = e"
    using listed_single [OF world_ok_registry [OF w] map pre] by blast
  have te: "re_segment_type e' = segment_type_code RecordRing" "entry_name e' = name"
    using ty e'(2,3) by (auto simp: strip_seq_def entry_name_def)
  note at = running_attach [OF f parse c(2) a(2) keys gc(2)]
  have d: "describes (make_create_options opts name) 320 (header_at ?w ?k)"
      "unat (h_payload_offset (header_at ?w ?k)) = 320" "unat (h_payload_size (header_at ?w ?k)) = rv_size (lg_ring lg)"
    using f' by blast+
  have seg: "h_segment_type (header_at ?w2 ?k) = segment_type_code RecordRing" "snd (handle_metadata ?w2 ?h) = 64"
      "handle_payload (lw_world lw2) ?h = (320, rv_size (lg_ring lg))"
    using d by (simp_all add: describes_def make_create_options_def Let_def handle_metadata_def handle_payload_def lw2_def
        sizeof_RecordRingMeta_def)
  obtain ring where r: "ring_bind (logger_ring_meta lw2 ?h) (handle_span addr lw2 ?h) = Inr ring"
      "rv_segment (view_of ?h ring) = rv_segment (lg_ring lg)" "rv_size (view_of ?h ring) = rv_size (lg_ring lg)"
    using running_bind [OF f addr opts, of ?h lw2] seg(3) by (auto simp: lw2_def)
  let ?ar = "AttachedRing_of name ?h (view_of ?h ring)"
  have "attach_ring addr (denv 1) name cen lw = Some (Ok, cen\<lparr>lc_rings := [?ar]\<rparr>, lw2)"
    unfolding attach_ring_def at using seg(1,2) r(1) empty
    by (simp add: lw2_def [symmetric] sizeof_RecordRingMeta_def del: One_nat_def)
  then have "discover_once addr denv cen lw = Some (Ok, cen\<lparr>lc_rings := [?ar]\<rparr>, lw2)"
    by (simp add: discover_once_def world_instance [OF w] gc registry_list_def world_list [OF w] e'(1) te)
  moreover have "attached_ok ?ar"
    by (simp add: attached_ok_def AttachedRing_of_def view_of_def)
  ultimately show ?thesis
    using r(2,3) by (intro exI [of _ ?ar] exI [of _ lw2]) (simp add: AttachedRing_of_def, simp add: lw2_def)
qed

section \<open>Draining a live ring\<close>

lemma log_calls_world: "lw_world (snd (log_calls calls lg lw)) = lw_world lw"
proof (induction calls arbitrary: lw)
  case (Cons lc calls)
  have p: "lw_world (snd (publish le level flags payload lg lw)) = lw_world lw" for le level flags payload
    by (simp add: publish_def on_ring_def close_ring_def split: prod.splits)
  obtain le call where lc: "lc = (le, call)"
    by fastforce
  have "lw_world (snd (log_call_run le call lg lw)) = lw_world lw"
    by (cases "call_request le call") (simp_all add: call_run_error call_run_push p)
  then show ?case
    using Cons.IH by (simp add: lc split: prod.splits) (metis snd_conv)
qed simp

lemma drain_once_single:
  assumes c: "lc_rings c = [ar]" "attached_ok ar" and live: "\<not> segment_dead (header_at (lw_world lw) (hd_base (ar_handle ar)))"
    and drain: "drain_ring c ar s lw = (k, ar', s', lw')"
  shows "drain_once env c s lw = Some (k, c, s', lw')"
proof -
  have "ar' = ar"
    using drain_ring_frame [OF drain] live by (simp add: mark_dead_def)
  then show ?thesis
    using drain c by (simp add: drain_once_def attached_ok_def)
qed

lemma drain_attached:
  assumes ok: "ring_ok (lg_ring lg) lw" and c: "lc_rings c = [ar]" and ar: "attached_ok ar"
      "rv_segment (ar_ring ar) = rv_segment (lg_ring lg)" "rv_size (ar_ring ar) = rv_size (lg_ring lg)"
    and st: "h_state (header_at (lw_world lw) (hd_base (ar_handle ar))) = segment_state_code Active"
    and records: "records = view_records (ar_name ar) (unat (lco_scratch_bytes (lc_options c))) (lg_ring lg) lw"
  shows "\<exists>lw'. drain_once env c s lw =
      Some (of_nat (min (unat (lco_drain_batch (lc_options c))) (length records)), c,
        fold (lc_sink c) (take (unat (lco_drain_batch (lc_options c))) records) s, lw') \<and> lw_world lw' = lw_world lw \<and>
    ring_ok (lg_ring lg) lw' \<and>
    ring_items (open_ring (lg_ring lg) lw') = drop (unat (lco_drain_batch (lc_options c))) (ring_items (open_ring (lg_ring lg) lw)) \<and>
    record_max (ring_meta (open_ring (lg_ring lg) lw')) = record_max (ring_meta (open_ring (lg_ring lg) lw)) \<and>
    record_stride (ring_meta (open_ring (lg_ring lg) lw')) = record_stride (ring_meta (open_ring (lg_ring lg) lw))"
proof -
  have live: "\<not> segment_dead (header_at (lw_world lw) (hd_base (ar_handle ar)))"
    using st by (simp add: segment_dead_def)
  note view = other_view [OF ar(2,3)]
  have "ring_ok (ar_ring ar) lw"
    using ok view(1) by simp
  from drain_ring_items [OF this refl refl refl, of c s] live obtain lw' where
    d: "drain_ring c ar s lw = (of_nat (min (unat (lco_drain_batch (lc_options c))) (length records)), ar,
          fold (lc_sink c) (take (unat (lco_drain_batch (lc_options c))) records) s, lw')" "lw_world lw' = lw_world lw"
    and r: "ring_ok (ar_ring ar) lw'" "ring_frame (open_ring (ar_ring ar) lw') = ring_frame (open_ring (ar_ring ar) lw)"
      "ring_items (open_ring (ar_ring ar) lw') =
        drop (unat (lco_drain_batch (lc_options c))) (ring_items (open_ring (ar_ring ar) lw))"
    by (auto simp: view(2) view_records_def take_map records)
  show ?thesis
    using drain_once_single [OF c ar(1) live d(1), of env] d(2) r unfolding view by (auto simp: ring_frame_def view(3))
qed

section \<open>Logging\<close>

lemma try_push_frame: "ring_frame (snd (try_push weak ty fl us pl r)) = ring_frame r"
  by (auto simp: try_push_def Let_def split: option.splits prod.splits)

lemma publish_frame: "ring_frame (open_ring (lg_ring lg) (snd (publish le level flags payload lg lw))) = ring_frame (open_ring (lg_ring lg) lw)"
proof -
  have "ring_frame (open_ring v (snd (on_ring v f lw))) = ring_frame (open_ring v lw)"
    if "ring_frame (snd (f (open_ring v lw))) = ring_frame (open_ring v lw)" for v and f :: "MpscRing \<Rightarrow> 'x \<times> MpscRing"
    using that by (cases "f (open_ring v lw)") (simp add: on_ring_def close_ring_def ring_frame_def open_ring_def ring_meta_def)
  then show ?thesis
    unfolding publish_def using try_push_frame by blast
qed

lemma log_calls_frame: "ring_frame (open_ring (lg_ring lg) (snd (log_calls calls lg lw))) = ring_frame (open_ring (lg_ring lg) lw)"
proof (induction calls arbitrary: lw)
  case (Cons lc calls)
  obtain le call where lc: "lc = (le, call)"
    by fastforce
  have "ring_frame (open_ring (lg_ring lg) (snd (log_call_run le call lg lw))) = ring_frame (open_ring (lg_ring lg) lw)"
    by (cases "call_request le call") (simp_all add: call_run_error call_run_push publish_frame)
  then show ?case
    using Cons.IH by (simp add: lc split: prod.splits) (metis snd_conv)
qed simp

text \<open>Changes of the ring's content and of the user count leave a logger running.\<close>

lemma running_frame:
  assumes "running_logger opts name env lg e lw" "lw_world lw' = lw_world lw" "ring_ok (lg_ring lg) lw'"
    and "record_max (ring_meta (open_ring (lg_ring lg) lw')) = record_max (ring_meta (open_ring (lg_ring lg) lw))"
    and "record_stride (ring_meta (open_ring (lg_ring lg) lw')) = record_stride (ring_meta (open_ring (lg_ring lg) lw))"
  shows "running_logger opts name env lg e lw'"
  using assms unfolding running_logger_def Let_def assms(2) by (elim conjE, intro conjI) (assumption | simp)+

lemma running_calls:
  assumes f: "running_logger opts name env lg e lw" and l: "log_calls calls lg lw = (es, lw')" and ok: "ring_ok (lg_ring lg) lw'"
  shows "running_logger opts name env lg e lw'"
proof -
  have w: "lw_world lw' = lw_world lw"
    using log_calls_world [of calls lg lw] l by simp
  have "ring_frame (open_ring (lg_ring lg) lw') = ring_frame (open_ring (lg_ring lg) lw)"
    using log_calls_frame [of lg calls lw] l by simp
  then show ?thesis
    by (intro running_frame [OF f w ok]) (simp_all add: ring_frame_def)
qed

lemma running_attached:
  assumes f: "running_logger opts name env lg e lw" and rings: "lw_rings lw' = lw_rings lw"
    and w: "lw_world lw' = upd_header (hd_base (lg_handle lg)) (\<lambda>h. h\<lparr>h_ref_count := h_ref_count h + 1\<rparr>) (lw_world lw)"
  shows "running_logger opts name env lg e lw'"
proof -
  let ?k = "hd_base (lg_handle lg)" and ?w = "lw_world lw"
  have "world_ok (lw_world lw')"
    using f unfolding w running_logger_def Let_def by (intro world_ok_upd_header) (auto simp: world_ok_def)
  moreover have "verify_header_hmac ks (header_at (lw_world lw') ?k) = verify_header_hmac ks (header_at ?w ?k)" for ks
    by (rule verify_same_immutable) (simp add: w same_immutable_def)+
  moreover have "open_ring (lg_ring lg) lw' = open_ring (lg_ring lg) lw" "ring_ok (lg_ring lg) lw' = ring_ok (lg_ring lg) lw"
    by (simp_all add: open_ring_def ring_ok_def rings)
  moreover have "describes co po (header_at (lw_world lw') ?k) = describes co po (header_at ?w ?k)" for co po
    by (simp add: w describes_def)
  moreover have "w_names (lw_world lw') = w_names ?w" "reg_map (lw_world lw') = reg_map ?w" "ob_size (w_objects (lw_world lw') j) = ob_size (w_objects ?w j)" for j
    by (simp_all add: w)
  moreover have "h_flags (header_at (lw_world lw') ?k) = h_flags (header_at ?w ?k)" "h_state (header_at (lw_world lw') ?k) = h_state (header_at ?w ?k)"
      "h_name (header_at (lw_world lw') ?k) = h_name (header_at ?w ?k)" "h_owner_pid (header_at (lw_world lw') ?k) = h_owner_pid (header_at ?w ?k)"
      "h_heartbeat_last_ns (header_at (lw_world lw') ?k) = h_heartbeat_last_ns (header_at ?w ?k)"
      "h_owner_start_time (header_at (lw_world lw') ?k) = h_owner_start_time (header_at ?w ?k)"
      "h_payload_offset (header_at (lw_world lw') ?k) = h_payload_offset (header_at ?w ?k)"
      "h_payload_size (header_at (lw_world lw') ?k) = h_payload_size (header_at ?w ?k)"
    by (simp_all add: w)
  ultimately show ?thesis
    using f unfolding running_logger_def Let_def by (simp only:)
qed

text \<open>What a logger that has just started does with a list of calls.\<close>

lemma fresh_logger_calls:
  assumes f: "fresh_logger opts name env lg e lw" and opts: "unat (lo_max_payload opts) + 16 \<le> 4294967232"
    and lw2: "lw_rings lw2 = lw_rings lw"
    and calls: "length calls \<le> 2 ^ 62" "list_all (\<lambda>(le, _). env_live le) calls"
  shows "\<exists>lw3. log_calls calls lg lw2 = (call_results (unat (lo_record_max opts)) calls, lw3) \<and> ring_ok (lg_ring lg) lw3 \<and>
    lw_world lw3 = lw_world lw2 \<and>
    view_records name' n (lg_ring lg) lw3 = map (request_record name' n (unat (record_stride_for (lo_max_payload opts)) - 16))
      (take (unat (lo_record_max opts)) (requests calls))"
proof -
  note f' = f [unfolded fresh_logger_def Let_def]
  let ?v = "lg_ring lg"
  have "ring_ok ?v lw"
    using f' by blast
  then have o: "open_ring ?v lw2 = open_ring ?v lw" and ok: "ring_ok ?v lw2"
    by (simp_all add: open_ring_def ring_ok_def lw2)
  have r: "ring_items (open_ring ?v lw) = []" "tail_pos (open_ring ?v lw) = 0"
      "ring_meta (open_ring ?v lw) = fresh_meta (lo_record_max opts) (record_stride_for (lo_max_payload opts))"
    using f' by blast+
  have room: "view_room ?v lw2 = unat (lo_record_max opts)" "view_records name' n ?v lw2 = []"
    by (simp_all add: o ring_room_def r view_records_def) (simp add: fresh_meta_def)
  have mp: "view_max_payload ?v lw2 = unat (record_stride_for (lo_max_payload opts)) - 16"
    using record_stride_for_small [OF opts] by (simp add: o r max_payload_of_def fresh_meta_def shm_consts unat_sub)
  have "length calls \<le> view_life ?v lw2"
    using calls(1) unat_lt_32 [of "lo_record_max opts"] by (simp add: ring_life_def o r) (simp add: fresh_meta_def)
  from log_calls_records [OF ok this calls(2), of name' n] show ?thesis
    using log_calls_world [of calls lg lw2] unfolding room mp by auto
qed

section \<open>Polling\<close>

lemma running_ring:
  assumes "running_logger opts name env lg e lw"
  shows "ring_ok (lg_ring lg) lw" "h_state (header_at (lw_world lw) (hd_base (lg_handle lg))) = segment_state_code Active"
    "world_ok (lw_world lw)" "w_names (lw_world lw) name = Some (hd_base (lg_handle lg))"
    "re_segment_type e = segment_type_code RecordRing" "reg_map (lw_world lw) name = Some e"
  using assms unfolding running_logger_def Let_def by blast+

text \<open>A center that holds the ring of a logger, and nothing else.\<close>

definition watches :: "'s LogCenter \<Rightarrow> AttachedRing \<Rightarrow> string \<Rightarrow> Logger \<Rightarrow> bool" where
  "watches c ar name lg \<longleftrightarrow>
     lc_rings c = [ar] \<and> attached_ok ar \<and> ar_name ar = name \<and> hd_base (ar_handle ar) = hd_base (lg_handle lg) \<and>
     rv_segment (ar_ring ar) = rv_segment (lg_ring lg) \<and> rv_size (ar_ring ar) = rv_size (lg_ring lg)"

lemma watched_drain:
  assumes f: "running_logger opts name env lg e lw" and w: "watches c ar name lg"
    and records: "view_records name (unat (lco_scratch_bytes (lc_options c))) (lg_ring lg) lw = records"
      "length records \<le> unat (lco_drain_batch (lc_options c))"
  shows "\<exists>lw'. drain_once env2 c s lw = Some (of_nat (length records), c, fold (lc_sink c) records s, lw') \<and>
    lw_world lw' = lw_world lw \<and> running_logger opts name env lg e lw' \<and> ring_items (open_ring (lg_ring lg) lw') = []"
proof -
  note w' = w [unfolded watches_def]
  note r = running_ring [OF f]
  have st: "h_state (header_at (lw_world lw) (hd_base (ar_handle ar))) = segment_state_code Active"
    using r(2) w' by simp
  have few: "length (ring_items (open_ring (lg_ring lg) lw)) \<le> unat (lco_drain_batch (lc_options c))"
    using records by (auto simp: view_records_def)
  obtain lw' where d: "drain_once env2 c s lw = Some (of_nat (length records), c, fold (lc_sink c) records s, lw')"
      "lw_world lw' = lw_world lw" "ring_ok (lg_ring lg) lw'" "ring_items (open_ring (lg_ring lg) lw') = []"
      "record_max (ring_meta (open_ring (lg_ring lg) lw')) = record_max (ring_meta (open_ring (lg_ring lg) lw))"
      "record_stride (ring_meta (open_ring (lg_ring lg) lw')) = record_stride (ring_meta (open_ring (lg_ring lg) lw))"
    using drain_attached [OF r(1) _ _ _ _ st refl, of c env2 s] w' records few by (auto simp: min_absorb2)
  then show ?thesis
    using running_frame [OF f d(2,3,5,6)] by blast
qed

text \<open>The first pass of a center finds the ring and takes everything out of it.\<close>

lemma first_poll:
  assumes f: "running_logger opts name env lg e lw" and parse: "parse_and_validate_name name = Inr p" "name \<noteq> REGISTRY_NAME"
    and map: "reg_map (lw_world lw) = [name \<mapsto> e]"
    and c: "calm (denv 0) name" "calm (denv 1) name" and a: "owner_alive env (denv 0)" "owner_alive env (denv 1)"
    and keys: "os_keys (denv 1) = os_keys env" and pre: "name = lco_prefix (lc_options cen) @ rest" and addr: "page_aligned addr"
    and opts: "2 \<le> unat (lo_record_max opts)" "unat (lo_max_payload opts) + 16 \<le> 4294967232" and empty: "lc_rings cen = []"
    and records: "view_records name (unat (lco_scratch_bytes (lc_options cen))) (lg_ring lg) lw = records"
      "length records \<le> unat (lco_drain_batch (lc_options cen))"
  shows "\<exists>r cen' ar lw'. poll_once addr denv env2 cen s lw = Some (r, cen', fold (lc_sink cen) records s, lw') \<and>
    watches cen' ar name lg \<and> lc_options cen' = lc_options cen \<and> lc_sink cen' = lc_sink cen \<and>
    running_logger opts name env lg e lw' \<and> reg_map (lw_world lw') = [name \<mapsto> e] \<and> w_names (lw_world lw') = w_names (lw_world lw) \<and>
    ring_items (open_ring (lg_ring lg) lw') = []"
proof -
  obtain ar lw2 where d: "discover_once addr denv cen lw = Some (Ok, cen\<lparr>lc_rings := [ar]\<rparr>, lw2)" "attached_ok ar" "ar_name ar = name"
      "rv_segment (ar_ring ar) = rv_segment (lg_ring lg)" "rv_size (ar_ring ar) = rv_size (lg_ring lg)"
      "hd_base (ar_handle ar) = hd_base (lg_handle lg)" "lw_rings lw2 = lw_rings lw"
      "lw_world lw2 = upd_header (hd_base (lg_handle lg)) (\<lambda>h. h\<lparr>h_ref_count := h_ref_count h + 1\<rparr>) (lw_world lw)"
    using running_discover [where denv = denv, OF f parse map c a keys pre addr opts empty] by blast
  have w: "watches (cen\<lparr>lc_rings := [ar]\<rparr>) ar name lg"
    using d(2-6) by (simp add: watches_def)
  have "view_records name n (lg_ring lg) lw2 = view_records name n (lg_ring lg) lw" for n
    by (simp add: view_records_def open_ring_def d(7))
  then obtain lw' where k: "drain_once env2 (cen\<lparr>lc_rings := [ar]\<rparr>) s lw2 =
        Some (of_nat (length records), cen\<lparr>lc_rings := [ar]\<rparr>, fold (lc_sink cen) records s, lw')"
      "lw_world lw' = lw_world lw2" "running_logger opts name env lg e lw'" "ring_items (open_ring (lg_ring lg) lw') = []"
    using watched_drain [OF running_attached [OF f d(7,8)] w, of records env2 s] records by auto
  show ?thesis
    using w k(2-4) d(8) map by (auto simp: poll_once_def d(1) k(1) watches_def split: prod.splits)
qed

text \<open>Later passes find nothing new and, when nothing was logged, give the sink nothing.\<close>

lemma later_poll:
  assumes f: "running_logger opts name env lg e lw" and map: "reg_map (lw_world lw) = [name \<mapsto> e]"
    and c: "calm (denv 0) name" and a: "owner_alive env (denv 0)" and pre: "name = lco_prefix (lc_options cen) @ rest"
    and w: "watches cen ar name lg" and none: "ring_items (open_ring (lg_ring lg) lw) = []"
  shows "\<exists>r cen' lw'. poll_once addr denv env2 cen s lw = Some (r, cen', s, lw') \<and>
    watches cen' ar name lg \<and> lc_options cen' = lc_options cen \<and> running_logger opts name env lg e lw' \<and>
    lw_world lw' = lw_world lw \<and> ring_items (open_ring (lg_ring lg) lw') = []"
proof -
  note r = running_ring [OF f]
  have gc: "gc (denv 0) (lw_world lw) = Some (lw_world lw)"
    by (rule gc_live [OF r(3) running_live [OF f c a]]) (simp add: map)
  obtain e' where e': "listed (lco_prefix (lc_options cen)) (reg_payload (lw_world lw)) = [e']" "entry_key e' = name" "strip_seq e' = e"
    using listed_single [OF world_ok_registry [OF r(3)] map pre] by blast
  have te: "re_segment_type e' = segment_type_code RecordRing" "entry_name e' = name"
    using r(5) e'(2,3) by (auto simp: strip_seq_def entry_name_def)
  have d: "discover_once addr denv cen lw = Some (Ok, cen, lw)"
    using w by (simp add: discover_once_def world_instance [OF r(3)] gc registry_list_def world_list [OF r(3)] e'(1) te attach_ring_def watches_def)
  obtain lw' where k: "drain_once env2 cen s lw = Some (0, cen, s, lw')" "lw_world lw' = lw_world lw"
      "running_logger opts name env lg e lw'" "ring_items (open_ring (lg_ring lg) lw') = []"
    using watched_drain [OF f w, of "[]" env2 s] none by (auto simp: view_records_def)
  show ?thesis
    using w k(2-4) by (auto simp: poll_once_def d k(1) watches_def split: prod.splits)
qed

end
