(* ===== verification/Example_Programs.thy ===== *)
theory Example_Programs
  imports Log_Session
begin

text \<open>
  The example programs without threads, \<^verbatim>\<open>examples/raw_segment.cpp\<close> and
  \<^verbatim>\<open>apps/logging/examples/demo_producer.cpp\<close>, from the first line of \<^verbatim>\<open>main\<close> to the destructors at its
  end: exit code, lines of output and of error output, and the state they leave.
\<close>

section \<open>Programs\<close>

record run_result =
  rn_exit :: nat
  rn_out :: "string list"
  rn_err :: "string list"

text \<open>The conversion \<^verbatim>\<open>%d\<close> of the \<^verbatim>\<open>printf\<close> family.\<close>

definition int_text :: "int \<Rightarrow> string" where
  "int_text n = (if n < 0 then ''-'' @ decimal (nat (- n)) else decimal (nat n))"

fun expand_d :: "int list \<Rightarrow> string \<Rightarrow> string" where
  "expand_d args [] = []"
| "expand_d args [c] = [c]"
| "expand_d args (c # d # s) =
     (if c = CHR ''%'' \<and> d = CHR ''d'' \<and> args \<noteq> [] then int_text (hd args) @ expand_d (tl args) s
      else c # expand_d args (d # s))"

section \<open>A raw segment\<close>

definition raw_message :: string where
  "raw_message = ''hello from shmfx raw segment''"

definition raw_name :: "u32 \<Rightarrow> string" where
  "raw_name pid = ''/shmfx.app.raw_demo_'' @ int_text (sint pid)"

definition raw_options :: "u32 \<Rightarrow> CreateOptions" where
  "raw_options pid =
     \<lparr>co_name = raw_name pid, co_type = Raw,
      co_total_size = SHMFX_HEADER_SIZE + SHMFX_CACHE_LINE_BYTES + 4096, co_meta_size = SHMFX_CACHE_LINE_BYTES,
      co_perm = 0x180, co_flags = 0\<rparr>"

text \<open>The copy into the payload and the text up to the first null byte.\<close>

definition write_payload :: "ShmHandle \<Rightarrow> u8 list \<Rightarrow> log_world \<Rightarrow> log_world" where
  "write_payload h bs lw =
     lw\<lparr>lw_rings := (lw_rings lw)(hd_base h := (lw_rings lw (hd_base h))\<lparr>sg_bytes := store_bytes 0 bs (sg_bytes (lw_rings lw (hd_base h)))\<rparr>)\<rparr>"

definition payload_text :: "ShmHandle \<Rightarrow> log_world \<Rightarrow> string" where
  "payload_text h lw = byte_text (takeWhile (\<lambda>b. b \<noteq> 0) (sg_bytes (lw_rings lw (hd_base h))))"

text \<open>The answers of the system for the calls in turn; handles are destroyed in the opposite order of creation.\<close>

definition raw_segment_main :: "(nat \<Rightarrow> os_env) \<Rightarrow> u32 \<Rightarrow> log_world \<Rightarrow> (run_result \<times> log_world) option" where
  "raw_segment_main env pid lw = do {
     (_, w1) \<leftarrow> destroy (env 0) (raw_name pid) (lw_world lw);
     (created, lw2) \<leftarrow> create_segment (env 1) (raw_options pid) (lw\<lparr>lw_world := w1\<rparr>);
     case created of
       Inl e \<Rightarrow> Some (\<lparr>rn_exit = 1, rn_out = [], rn_err = [''create failed: '' @ to_string e]\<rparr>, lw2)
     | Inr h \<Rightarrow> do {
         let lw3 = write_payload h (text_bytes raw_message @ [0]) lw2;
         (attached, w4) \<leftarrow> attach (env 2) (raw_name pid) ReadOnly (lw_world lw3);
         let lw4 = lw3\<lparr>lw_world := w4\<rparr>;
         case attached of
           Inl e \<Rightarrow> do {
             lw5 \<leftarrow> drop_handle (env 4) h lw4;
             Some (\<lparr>rn_exit = 1, rn_out = [], rn_err = [''attach failed: '' @ to_string e]\<rparr>, lw5)
           }
         | Inr a \<Rightarrow> do {
             let out = payload_text a lw4;
             (_, w5) \<leftarrow> destroy (env 3) (raw_name pid) (lw_world lw4);
             lw6 \<leftarrow> drop_handle (env 4) a (lw4\<lparr>lw_world := w5\<rparr>);
             lw7 \<leftarrow> drop_handle (env 4) h lw6;
             Some (\<lparr>rn_exit = 0, rn_out = [out], rn_err = []\<rparr>, lw7)
           }
       }
   }"

section \<open>A producer with its own center\<close>

definition demo_segment :: "u32 \<Rightarrow> string" where
  "demo_segment pid = ''/shmfx.log.demo_'' @ int_text (sint pid)"

definition demo_producer_options :: "u32 \<Rightarrow> LoggerOptions" where
  "demo_producer_options pid = default_options\<lparr>lo_service_name := ''demo'', lo_segment_name := demo_segment pid\<rparr>"

definition demo_line :: "LogRecord \<Rightarrow> string" where
  "demo_line r = lr_source r @ '' level='' @ decimal (unat (log_level_code (lr_level r))) @ '' payload='' @ lr_payload r"

definition demo_producer_center :: "string list LogCenter" where
  "demo_producer_center =
     set_sink (Some (\<lambda>r out. out @ [demo_line r]))
       (LogCenter_of (default_center_options\<lparr>lco_prefix := ''/shmfx.log.demo_''\<rparr>))"

record demo_system_env =
  de_cleanup :: os_env
  de_init :: "nat \<Rightarrow> os_env"
  de_log :: "nat \<Rightarrow> log_env"
  de_poll :: "nat \<Rightarrow> os_env"
  de_end :: os_env

definition demo_producer_main ::
  "(nat \<Rightarrow> u64) \<Rightarrow> demo_system_env \<Rightarrow> u32 \<Rightarrow> log_world \<Rightarrow> (run_result \<times> log_world) option" where
  "demo_producer_main addr d pid lw = do {
     (_, w1) \<leftarrow> destroy (de_cleanup d) (demo_segment pid) (lw_world lw);
     (logger, lw2) \<leftarrow> logger_init addr (de_init d) (demo_producer_options pid) (lw\<lparr>lw_world := w1\<rparr>);
     case logger of
       Inl e \<Rightarrow> Some (\<lparr>rn_exit = 1, rn_out = [], rn_err = [''logger init failed: '' @ to_string e]\<rparr>, lw2)
     | Inr lg \<Rightarrow> do {
         let (_, lw3) = log_info (de_log d 0) (\<lambda>f. Some (expand_d [sint pid] f)) (Some ''demo producer pid=%d'') lg lw2;
         let (_, lw4) = log_warn (de_log d 1) (\<lambda>f. Some (expand_d [] f))
               (Some ''this record is drained by an in-process LogCenter demo'') lg lw3;
         (_, c, out, lw5) \<leftarrow> poll_once addr (de_poll d) (de_end d) demo_producer_center [] lw4;
         (_, w6) \<leftarrow> destroy (de_end d) (demo_segment pid) (lw_world lw5);
         lw7 \<leftarrow> center_close (de_end d) c (lw5\<lparr>lw_world := w6\<rparr>);
         lw8 \<leftarrow> logger_close (de_end d) lg lw7;
         Some (\<lparr>rn_exit = 0, rn_out = out, rn_err = []\<rparr>, lw8)
       }
   }"

section \<open>Removing names\<close>

lemma destroy_missing:
  assumes "parse_and_validate_name name = Inr p" "name \<notin> dom (w_names w)" "os_unlink_fail env name = None"
  shows "destroy env name w = Some (NotFound, w)"
  using assms by (simp add: destroy_def shm_unlink_def domIff)

lemma destroy_named:
  assumes w: "world_ok w" and parse: "parse_and_validate_name name = Inr p" "name \<noteq> REGISTRY_NAME"
    and name: "name \<in> dom (w_names w)" "os_unlink_fail env name = None"
  shows "\<exists>e w'. destroy env name w = Some (e, w') \<and> world_ok w' \<and> w_names w' = (w_names w)(name := None) \<and>
    reg_map w' = (reg_map w)(name := None) \<and> header_at w' = header_at w \<and> reg_id w' = reg_id w \<and> w_heartbeat w' = w_heartbeat w"
proof -
  let ?w = "w\<lparr>w_names := (w_names w)(name := None)\<rparr>"
  have u: "shm_unlink env name w = (None, ?w)"
    using name by (simp add: shm_unlink_def)
  have h: "header_at ?w = header_at w" "reg_payload ?w = reg_payload w" "reg_id ?w = reg_id w"
    by (simp_all add: header_at_def fun_eq_iff reg_payload_def reg_id_def)
  have ok: "world_ok ?w"
    using world_ok_unlink [OF w, of env name] by (simp add: u)
  obtain r q where q: "on_registry (unregister name) ?w = Some (r, set_payload q ?w)" "registry_ok q"
      "registry_map q = (reg_map ?w)(name := None)"
    using world_unregister [OF ok] by blast
  have "destroy env name w = Some (r, set_payload q ?w)"
    using parse by (simp add: destroy_def u world_instance [OF ok] q(1))
  then show ?thesis
    using q world_ok_set_payload [OF ok q(2)] by (simp add: h)
qed

text \<open>Removing a name that may be missing, where the registry lists no name without a segment.\<close>

lemma destroy_clears:
  assumes w: "world_ok w" and parse: "parse_and_validate_name name = Inr p" "name \<noteq> REGISTRY_NAME"
    and listed: "name \<in> dom (reg_map w) \<Longrightarrow> name \<in> dom (w_names w)" and env: "os_unlink_fail env name = None"
  shows "\<exists>e w'. destroy env name w = Some (e, w') \<and> world_ok w' \<and> w_names w' = (w_names w)(name := None) \<and>
    reg_map w' = (reg_map w)(name := None) \<and> header_at w' = header_at w"
proof (cases "name \<in> dom (w_names w)")
  case True
  then show ?thesis
    using destroy_named [OF w parse _ env] by blast
next
  case False
  then have "(w_names w)(name := None) = w_names w" "(reg_map w)(name := None) = reg_map w"
    using listed by (cases "reg_map w name"; simp add: fun_upd_idem domIff)+
  then show ?thesis
    using destroy_missing [OF parse(1) False env] w by simp
qed

text \<open>A segment that has just been created, the only registered one, can be attached at once.\<close>

lemma create_attach_fresh:
  assumes w: "world_ok w" "reg_map w = Map.empty" and parse: "parse_and_validate_name (co_name opts) = Inr p"
    and name: "co_name opts \<notin> dom (w_names w)" "co_name opts \<noteq> REGISTRY_NAME" and c: "calm env (co_name opts)"
    and sec: "validate_create_security opts [] = Ok" and meta: "unat (co_meta_size opts) < 2 ^ 63"
    and po: "po = align_up (SHMFX_HEADER_SIZE + co_meta_size opts) SHMFX_CACHE_LINE_BYTES" "po \<le> co_total_size opts"
    and key: "co_flags opts AND HmacEnabled = 0 \<or> load_hmac_key (os_keys env) \<noteq> None"
    and env2: "calm env2 (co_name opts)" "owner_alive env env2" "os_keys env2 = os_keys env"
  shows "\<exists>w1 e. create env opts w =
      Some (Inr \<lparr>hd_base = w_next w, hd_size = co_total_size opts, hd_fd = True, hd_mode = ReadWrite, hd_owner = True\<rparr>, w1) \<and>
    attach env2 (co_name opts) ReadOnly w1 =
      Some (Inr \<lparr>hd_base = w_next w, hd_size = co_total_size opts, hd_fd = True, hd_mode = ReadOnly, hd_owner = False\<rparr>, w1) \<and>
    world_ok w1 \<and> w_names w1 = (w_names w)(co_name opts \<mapsto> w_next w) \<and> reg_map w1 = [co_name opts \<mapsto> e] \<and>
    h_state (header_at w1 (w_next w)) = segment_state_code Active"
proof -
  have l: "listed [] (reg_payload w) = []"
    by (intro listed_empty world_ok_registry w)
  have sec': "validate_create_security opts (listed [] (reg_payload w)) = Ok" and room: "card (dom (reg_map w)) < MAX_REGISTRY_ENTRIES"
    using sec unfolding l by (simp_all add: w(2) shm_consts)
  obtain w1 e h where c1: "create env opts w =
        Some (Inr \<lparr>hd_base = w_next w, hd_size = co_total_size opts, hd_fd = True, hd_mode = ReadWrite, hd_owner = True\<rparr>, w1)"
      "world_ok w1" "w_names w1 = (w_names w)(co_name opts \<mapsto> w_next w)" "reg_map w1 = (reg_map w)(co_name opts \<mapsto> e)"
      "re_flags e = h_flags h" "header_at w1 (w_next w) = h" "ob_size (w_objects w1 (w_next w)) = co_total_size opts"
      "options_fit opts po" "describes opts po h" "h_state h = segment_state_code Active"
      "verify_header_hmac (os_keys env) h = Ok" "fixed_name_view (h_name h) = co_name opts"
      "h_owner_pid h = os_pid env" "h_heartbeat_last_ns h = monotonic_ns (os_clock env 1)"
      "read_proc_start_time (os_proc env) (os_pid env) \<in> {None, Some (h_owner_start_time h)}"
    using created_segment [OF w(1) parse name c sec' meta po key room] by (elim exE conjE) (rule that; assumption)
  have "\<not> owner_is_dead (os_proc env2) h (monotonic_ns (os_clock env2 0))"
    using env2(2) c1(13-15) by (intro owner_fresh_heartbeat) (simp_all add: owner_alive_def)
  then have live: "live_segment env2 (monotonic_ns (os_clock env2 0)) (co_name opts) (w_next w) w1"
    using c1(3,6-10) env2(1) by (intro created_live [where opts = opts and po = po]) simp_all
  have gc: "gc env2 w1 = Some w1"
    by (rule gc_live [OF c1(2) live]) (simp add: c1(4) w(2))
  have "validate_header h (co_total_size opts) = Ok"
    using describes_valid(1) [OF c1(9,8)] by simp
  then have "attach env2 (co_name opts) ReadOnly w1 =
      Some (Inr \<lparr>hd_base = w_next w, hd_size = co_total_size opts, hd_fd = True, hd_mode = ReadOnly, hd_owner = False\<rparr>, w1)"
    using attach_live(1) [OF c1(2) parse name(2) live _ gc, where mode = ReadOnly] env2(1,3) c1(4-7,11,12)
    by (simp add: calm_def)
  then show ?thesis
    using c1(1-4,6,10) w(2) by (intro exI [of _ w1] exI [of _ e]) simp
qed

text \<open>Releasing a handle of an active segment changes its user count and the heartbeats, nothing else.\<close>

lemma drop_active:
  assumes "h_state (header_at (lw_world lw) (hd_base h)) = segment_state_code Active"
  shows "\<exists>lw'. drop_handle env h lw = Some lw' \<and> w_names (lw_world lw') = w_names (lw_world lw) \<and>
    reg_payload (lw_world lw') = reg_payload (lw_world lw) \<and>
    (\<forall>k. h_state (header_at (lw_world lw') k) = h_state (header_at (lw_world lw) k))"
  using assms
  by (auto simp: drop_handle_def handle_reset_def Let_def remove_heartbeat_def reg_payload_def reg_id_def header_at_def
      upd_header_def upd_object_def)

lemma pid_text:
  assumes "unat (pid :: u32) < 2 ^ 31"
  shows "int_text (sint pid) = decimal (unat pid)"
proof -
  have "int (unat pid) < 2 ^ 31"
    using assms by (simp only: of_nat_less_iff [of _ "2 ^ 31", where 'a = int, symmetric] of_nat_power of_nat_numeral)
  then have "signed_take_bit 31 (int (unat pid)) = int (unat pid)"
    by (intro signed_take_bit_int_eq_self) (linarith, assumption)
  then have "sint pid = int (unat pid)"
    by (simp only: sint_uint uint_nat len_num1 len_num0 len_bit0) simp
  then show ?thesis
    by (simp add: int_text_def)
qed

lemma demo_segment_parse:
  assumes "unat pid < 2 ^ 31"
  shows "parse_and_validate_name (demo_segment pid) =
    Inr \<lparr>pn_ns = ''log'', pn_leaf = ''demo_'' @ decimal (unat pid), pn_bootstrap = False\<rparr>"
proof -
  have "valid_service_name ''demo''"
    by (simp add: valid_service_name_def is_service_tail_char_def char_between_def)
  then show ?thesis
    using default_name_parse [of "''demo''" pid] assms by (simp add: demo_segment_def pid_text default_segment_name_def)
qed

lemma raw_name_parse:
  assumes "unat pid < 2 ^ 31"
  shows "parse_and_validate_name (raw_name pid) =
    Inr \<lparr>pn_ns = ''app'', pn_leaf = ''raw_demo_'' @ decimal (unat pid), pn_bootstrap = False\<rparr>"
proof -
  have v: "valid_service_name ''raw_demo''"
    by (simp add: valid_service_name_def is_service_tail_char_def char_between_def)
  have "raw_name pid = name_prefix @ ''app'' @ CHR ''.'' # ''raw_demo'' @ ''_'' @ decimal (unat pid)"
    using assms by (simp add: raw_name_def name_prefix_def pid_text)
  then show ?thesis
    using service_leaf [OF v, of pid]
    by (simp only:, subst parse_namespaced) (simp_all add: kAllowedNamespaces_def)
qed

lemma raw_facts:
  "co_name (raw_options pid) = raw_name pid" "co_meta_size (raw_options pid) = 64" "co_total_size (raw_options pid) = 4416"
  "co_flags (raw_options pid) AND HmacEnabled = 0"
  "320 = align_up (SHMFX_HEADER_SIZE + co_meta_size (raw_options pid)) SHMFX_CACHE_LINE_BYTES"
  by (simp_all add: raw_options_def shm_consts align_up_def)

lemma raw_security:
  assumes "unat pid < 2 ^ 31"
  shows "validate_create_security (raw_options pid) [] = Ok"
  using raw_name_parse [OF assms]
  by (simp add: validate_create_security_def raw_options_def) (simp add: shm_consts kMaxNamespaceSegments_def push_bit_eq_mult)

lemma payload_written:
  assumes "hd_base a = hd_base h" "list_all (\<lambda>c. c \<noteq> CHR 0x00) s"
  shows "payload_text a (write_payload h (text_bytes s @ [0]) lw) = s"
proof -
  have "byte_of_char c \<noteq> 0" if "c \<noteq> CHR 0x00" for c
  proof
    assume "byte_of_char c = 0"
    then have "byte_text [0] = [c]"
      using byte_text_bytes [of "[c]"] by (simp add: text_bytes_def del: byte_text_bytes)
    then show False
      using that by (simp add: byte_text_def char_of_def)
  qed
  then have "\<forall>b \<in> set (text_bytes s). b \<noteq> 0"
    using assms(2) by (auto simp: text_bytes_def list_all_iff)
  then have "takeWhile (\<lambda>b. b \<noteq> 0) (text_bytes s @ 0 # m) = text_bytes s" for m
    by (subst takeWhile_append2) auto
  then show ?thesis
    using assms(1) by (simp add: payload_text_def write_payload_def store_bytes_def)
qed

text \<open>
  The raw segment example prints the message it wrote through the writable mapping and read through
  the read-only one and ends with exit code 0, also after a run that left its segment behind. It leaves neither the name
  nor a registry entry.
\<close>

theorem raw_segment_prints:
  assumes w: "world_ok (lw_world lw)" "dom (reg_map (lw_world lw)) \<subseteq> {raw_name pid} \<inter> dom (w_names (lw_world lw))"
    and pid: "unat pid < 2 ^ 31"
    and env: "os_unlink_fail (env 0) (raw_name pid) = None" "os_unlink_fail (env 3) (raw_name pid) = None"
      "calm (env 1) (raw_name pid)" "calm (env 2) (raw_name pid)" "owner_alive (env 1) (env 2)" "os_keys (env 2) = os_keys (env 1)"
  shows "\<exists>lw'. raw_segment_main env pid lw =
      Some (\<lparr>rn_exit = 0, rn_out = [''hello from shmfx raw segment''], rn_err = []\<rparr>, lw') \<and>
    w_names (lw_world lw') = (w_names (lw_world lw))(raw_name pid := None) \<and> reg_map (lw_world lw') = Map.empty"
proof -
  let ?n = "raw_name pid" and ?o = "raw_options pid"
  note parse = raw_name_parse [OF pid]
  have reg: "?n \<noteq> REGISTRY_NAME"
    using parse by (auto simp: parse_and_validate_name_def)
  obtain e0 w1 where d: "destroy (env 0) ?n (lw_world lw) = Some (e0, w1)" "world_ok w1"
      "w_names w1 = (w_names (lw_world lw))(?n := None)" "reg_map w1 = (reg_map (lw_world lw))(?n := None)"
    using destroy_clears [OF w(1) parse reg _ env(1)] w(2) by blast
  have empty: "reg_map w1 = Map.empty"
    using d(4) w(2) by (auto simp: fun_eq_iff domIff)
  let ?k = "w_next w1"
  let ?h = "\<lparr>hd_base = ?k, hd_size = co_total_size ?o, hd_fd = True, hd_mode = ReadWrite, hd_owner = True\<rparr>"
  let ?a = "\<lparr>hd_base = ?k, hd_size = co_total_size ?o, hd_fd = True, hd_mode = ReadOnly, hd_owner = False\<rparr>"
  obtain w2 e where c: "create (env 1) ?o w1 = Some (Inr ?h, w2)" "attach (env 2) ?n ReadOnly w2 = Some (Inr ?a, w2)"
      "world_ok w2" "w_names w2 = (w_names w1)(?n \<mapsto> ?k)" "reg_map w2 = [?n \<mapsto> e]" "h_state (header_at w2 ?k) = segment_state_code Active"
    using create_attach_fresh [OF d(2) empty _ _ _ _ raw_security [OF pid] _ raw_facts(5) _ _ _ env(5,6)] parse reg d(3) env(3,4)
    by (auto simp: raw_facts(1-4))
  have "?n \<in> dom (w_names w2)"
    by (simp add: c(4))
  from destroy_named [OF c(3) parse reg this env(2)] obtain e3 w3 where
    f: "destroy (env 3) ?n w2 = Some (e3, w3)" "w_names w3 = (w_names w2)(?n := None)" "reg_map w3 = (reg_map w2)(?n := None)"
      "header_at w3 = header_at w2"
    by blast
  obtain lw2 where s: "create_segment (env 1) ?o (lw\<lparr>lw_world := w1\<rparr>) = Some (Inr ?h, lw2)" "lw_world lw2 = w2"
    by (simp add: create_segment_def c(1) del: One_nat_def)
  let ?lw3 = "write_payload ?h (text_bytes raw_message @ [0]) lw2"
  have lw3: "lw_world ?lw3 = w2" "payload_text ?a (?lw3\<lparr>lw_world := w2\<rparr>) = raw_message"
    using payload_written [of ?a ?h raw_message lw2] by (simp_all add: s(2) write_payload_def payload_text_def raw_message_def)
  let ?lw5 = "?lw3\<lparr>lw_world := w3\<rparr>"
  have "h_state (header_at (lw_world ?lw5) (hd_base ?a)) = segment_state_code Active"
    by (simp add: f(4) c(6))
  from drop_active [OF this, of "env 4"] obtain lw6 where g: "drop_handle (env 4) ?a ?lw5 = Some lw6"
      "w_names (lw_world lw6) = w_names w3" "reg_payload (lw_world lw6) = reg_payload w3"
      "h_state (header_at (lw_world lw6) (hd_base ?h)) = segment_state_code Active"
    by (auto simp: f(4) c(6))
  from drop_active [OF g(4), of "env 4"] obtain lw7 where i: "drop_handle (env 4) ?h lw6 = Some lw7"
      "w_names (lw_world lw7) = w_names w3" "reg_payload (lw_world lw7) = reg_payload w3"
    using g(2,3) by auto
  have "raw_segment_main env pid lw = Some (\<lparr>rn_exit = 0, rn_out = [raw_message], rn_err = []\<rparr>, lw7)"
    unfolding raw_segment_main_def Let_def using d(1) s(1) c(2) f(1) g(1) i(1) by (simp add: lw3 del: One_nat_def)
  then show ?thesis
    using i(2,3) f(2,3) c(4,5) d(3) by (auto simp: raw_message_def)
qed

lemma demo_alive: "owner_alive demo_env demo_env" "os_unlink_fail demo_env name = None"
  by (simp_all add: owner_alive_def demo_env_def demo_proc_def)

theorem raw_segment_prints_witness:
  "\<exists>lw'. raw_segment_main (\<lambda>_. demo_env) 42 \<lparr>lw_world = demo_world, lw_rings = \<lambda>_. zero_ring 0\<rparr> =
      Some (\<lparr>rn_exit = 0, rn_out = [''hello from shmfx raw segment''], rn_err = []\<rparr>, lw') \<and>
    w_names (lw_world lw') ''/shmfx.app.raw_demo_42'' = None"
proof -
  have "raw_name 42 = ''/shmfx.app.raw_demo_42''"
    by (simp add: raw_name_def int_text_def demo_decimal)
  then show ?thesis
    using raw_segment_prints [of "\<lparr>lw_world = demo_world, lw_rings = \<lambda>_. zero_ring 0\<rparr>" 42 "\<lambda>_. demo_env"]
      demo_world_ok demo_calm demo_alive by fastforce
qed

section \<open>What the producer example prints\<close>

lemma demo_options_facts:
  "valid_service_name (lo_service_name (demo_producer_options pid))" "lo_segment_name (demo_producer_options pid) = demo_segment pid"
  "lo_record_max (demo_producer_options pid) = 4096" "lo_max_payload (demo_producer_options pid) = 1024"
  "lo_flags (demo_producer_options pid) = 0"
  by (simp_all add: demo_producer_options_def default_options_def valid_service_name_def is_service_tail_char_def char_between_def)

lemma stride_1024: "record_stride_for 1024 = 1088"
  by (simp add: record_stride_for_def align_up_def shm_consts)

lemma demo_security:
  assumes "unat pid < 2 ^ 31"
  shows "validate_create_security (make_create_options (demo_producer_options pid) (demo_segment pid)) [] = Ok"
  using demo_segment_parse [OF assms]
  by (simp add: validate_create_security_def make_create_options_def Let_def ring_payload_offset demo_options_facts stride_1024 payload_size_for_def
      record_area_offset_def slot_meta_offset_def align_up_def)
    (simp add: shm_consts kMaxNamespaceSegments_def push_bit_eq_mult)

definition demo_calls :: "demo_system_env \<Rightarrow> u32 \<Rightarrow> (log_env \<times> log_call) list" where
  "demo_calls d pid =
     [(de_log d 0, LogFormat (\<lambda>f. Some (expand_d [sint pid] f)) Info (Some ''demo producer pid=%d'')),
      (de_log d 1, LogFormat (\<lambda>f. Some (expand_d [] f)) Warn (Some ''this record is drained by an in-process LogCenter demo''))]"

lemma demo_calls_run:
  "log_info (de_log d 0) (\<lambda>f. Some (expand_d [sint pid] f)) (Some ''demo producer pid=%d'') lg lw = (e, lw1) \<Longrightarrow>
   log_warn (de_log d 1) (\<lambda>f. Some (expand_d [] f)) (Some ''this record is drained by an in-process LogCenter demo'') lg lw1 = (e', lw2) \<Longrightarrow>
   log_calls (demo_calls d pid) lg lw = ([e, e'], lw2)"
  by (simp add: demo_calls_def log_info_def log_warn_def log_fmt_def)

lemma demo_texts:
  "expand_d [n] ''demo producer pid=%d'' = ''demo producer pid='' @ int_text n"
  "expand_d [] ''this record is drained by an in-process LogCenter demo'' = ''this record is drained by an in-process LogCenter demo''"
  by simp_all

lemma digit_texts: "decimal 2 = ''2''" "decimal 3 = ''3''"
  by code_simp+

lemma demo_lines:
  assumes "unat pid < 2 ^ 31"
  shows "map (\<lambda>x. demo_line (request_record name 4096 1072 x)) (requests (demo_calls d pid)) =
    [name @ '' level=2 payload=demo producer pid='' @ decimal (unat pid),
     name @ '' level=3 payload=this record is drained by an in-process LogCenter demo'']"
proof -
  have "unat pid < 10 ^ Suc 9"
    using assms by simp
  from decimal_length [OF this] have len: "length (decimal (unat pid)) \<le> 10"
    by simp
  then show ?thesis
    unfolding requests_def demo_calls_def
    by (simp add: demo_texts pid_text [OF assms] request_record_def demo_line_def digit_texts del: expand_d.simps)
qed

lemma demo_center_facts:
  "lc_rings demo_producer_center = []" "lco_prefix (lc_options demo_producer_center) = ''/shmfx.log.demo_''"
  "unat (lco_drain_batch (lc_options demo_producer_center)) = 256"
  "unat (lco_scratch_bytes (lc_options demo_producer_center)) = 4096"
  by (simp_all add: demo_producer_center_def set_sink_def LogCenter_of_def default_center_options_def)

lemma demo_sink: "fold (lc_sink demo_producer_center) records out = out @ map demo_line records"
  by (induction records arbitrary: out) (simp_all add: demo_producer_center_def set_sink_def LogCenter_of_def)

text \<open>
  The end of the example: the segment is removed while the center and the logger still hold it, then the center and
  the logger let go of it.
\<close>

lemma session_ends:
  assumes w: "world_ok (lw_world lw)" and parse: "parse_and_validate_name name = Inr p" "name \<noteq> REGISTRY_NAME"
    and name: "name \<in> dom (w_names (lw_world lw))" "os_unlink_fail env name = None"
    and watch: "watches c ar name lg"
    and st: "h_state (header_at (lw_world lw) (hd_base (lg_handle lg))) = segment_state_code Active"
  shows "\<exists>e w1 lw1 lw2. destroy env name (lw_world lw) = Some (e, w1) \<and> center_close env c (lw\<lparr>lw_world := w1\<rparr>) = Some lw1 \<and>
    logger_close env lg lw1 = Some lw2 \<and> w_names (lw_world lw2) = (w_names (lw_world lw))(name := None) \<and>
    reg_map (lw_world lw2) = (reg_map (lw_world lw))(name := None)"
proof -
  have rings: "lc_rings c = [ar]" "hd_base (ar_handle ar) = hd_base (lg_handle lg)"
    using watch by (simp_all add: watches_def)
  obtain e w1 where d: "destroy env name (lw_world lw) = Some (e, w1)" "w_names w1 = (w_names (lw_world lw))(name := None)"
      "reg_map w1 = (reg_map (lw_world lw))(name := None)" "header_at w1 = header_at (lw_world lw)"
    using destroy_named [OF w parse name] by blast
  obtain lw1 where c: "drop_handle env (ar_handle ar) (lw\<lparr>lw_world := w1\<rparr>) = Some lw1" "w_names (lw_world lw1) = w_names w1"
      "reg_payload (lw_world lw1) = reg_payload w1" "h_state (header_at (lw_world lw1) (hd_base (lg_handle lg))) = segment_state_code Active"
    using drop_active [of "lw\<lparr>lw_world := w1\<rparr>" "ar_handle ar" env] st by (auto simp: d(4) rings(2))
  obtain lw2 where l: "drop_handle env (lg_handle lg) lw1 = Some lw2" "w_names (lw_world lw2) = w_names w1"
      "reg_payload (lw_world lw2) = reg_payload w1"
    using drop_active [OF c(4), of env] c(2,3) by auto
  show ?thesis
    using d(1-3) c(1) l by (auto simp: center_close_def rings(1) logger_close_def)
qed

text \<open>The logger of the example and its two calls.\<close>

lemma demo_logs:
  assumes lw1: "world_ok (lw_world lw1)" "reg_map (lw_world lw1) = Map.empty" "demo_segment pid \<notin> dom (w_names (lw_world lw1))"
    and pid: "unat pid < 2 ^ 31" and addr: "page_aligned addr" and env: "calm (de_init d 0) (demo_segment pid)"
    and live: "env_live (de_log d 0)" "env_live (de_log d 1)"
  shows "\<exists>lg e lw2 r3 lw3 r4 lw4. logger_init addr (de_init d) (demo_producer_options pid) lw1 = Some (Inr lg, lw2) \<and>
    log_info (de_log d 0) (\<lambda>f. Some (expand_d [sint pid] f)) (Some ''demo producer pid=%d'') lg lw2 = (r3, lw3) \<and>
    log_warn (de_log d 1) (\<lambda>f. Some (expand_d [] f)) (Some ''this record is drained by an in-process LogCenter demo'') lg lw3 = (r4, lw4) \<and>
    running_logger (demo_producer_options pid) (demo_segment pid) (de_init d 0) lg e lw4 \<and>
    w_names (lw_world lw4) = (w_names (lw_world lw1))(demo_segment pid \<mapsto> hd_base (lg_handle lg)) \<and>
    reg_map (lw_world lw4) = [demo_segment pid \<mapsto> e] \<and>
    view_records (demo_segment pid) 4096 (lg_ring lg) lw4 = map (request_record (demo_segment pid) 4096 1072) (requests (demo_calls d pid))"
proof -
  let ?n = "demo_segment pid" and ?o = "demo_producer_options pid"
  note parse = demo_segment_parse [OF pid]
  have l: "listed [] (reg_payload (lw_world lw1)) = []"
    by (intro listed_empty world_ok_registry lw1)
  have opts: "2 \<le> unat (lo_record_max ?o)" "lo_max_payload ?o \<noteq> 0" "unat (lo_max_payload ?o) + 16 \<le> 4294967232"
      "?n = (if lo_segment_name ?o = [] then default_segment_name (os_pid (de_init d 0)) (lo_service_name ?o) else lo_segment_name ?o)"
      "lo_flags ?o AND HmacEnabled = 0 \<or> load_hmac_key (os_keys (de_init d 0)) \<noteq> None"
      "card (dom (reg_map (lw_world lw1))) < MAX_REGISTRY_ENTRIES"
    unfolding demo_options_facts lw1(2) by (simp_all add: demo_segment_def shm_consts)
  obtain lg e lw2 where g: "logger_init addr (de_init d) ?o lw1 = Some (Inr lg, lw2)" "fresh_logger ?o ?n (de_init d 0) lg e lw2"
      "w_names (lw_world lw2) = (w_names (lw_world lw1))(?n \<mapsto> hd_base (lg_handle lg))" "reg_map (lw_world lw2) = [?n \<mapsto> e]"
    using logger_segment [where env = "de_init d", OF lw1(1) demo_options_facts(1) opts(1-4) lw1(3) parse _ env addr _ opts(5,6)]
      demo_security [OF pid] lw1(2) by (auto simp: l)
  obtain r3 lw3 r4 lw4 where y:
      "log_info (de_log d 0) (\<lambda>f. Some (expand_d [sint pid] f)) (Some ''demo producer pid=%d'') lg lw2 = (r3, lw3)"
      "log_warn (de_log d 1) (\<lambda>f. Some (expand_d [] f)) (Some ''this record is drained by an in-process LogCenter demo'') lg lw3 = (r4, lw4)"
    by (metis surj_pair)
  note run = demo_calls_run [OF y]
  let ?records = "map (request_record ?n 4096 1072) (requests (demo_calls d pid))"
  have two: "length (demo_calls d pid) = 2" "length (requests (demo_calls d pid)) = 2" "list_all (\<lambda>(le, _). env_live le) (demo_calls d pid)"
    using live by (simp_all add: demo_calls_def requests_def)
  have z: "ring_ok (lg_ring lg) lw4" "lw_world lw4 = lw_world lw2" "view_records ?n 4096 (lg_ring lg) lw4 = ?records"
    using fresh_logger_calls [OF g(2) opts(3) refl _ two(3), of ?n 4096] run two(1,2)
    by (auto simp: demo_options_facts stride_1024)
  show ?thesis
    using g(1,3,4) y running_calls [OF fresh_running [OF g(2)] run z(1)] z(2,3) by (auto simp del: One_nat_def)
qed

text \<open>
  C12. The producer example, from its first line to the destructors: it ends with exit code 0, and its
  center prints the two records the logger wrote, the first with the process id, each with the name of the segment, the
  severity and the text. Nothing of the segment is left, in the names or in the registry, whatever an earlier run with
  the same process id left behind.
\<close>

theorem demo_producer_prints:
  assumes w: "world_ok (lw_world lw)" "dom (reg_map (lw_world lw)) \<subseteq> {demo_segment pid} \<inter> dom (w_names (lw_world lw))"
    and pid: "unat pid < 2 ^ 31" and addr: "page_aligned addr"
    and env: "os_unlink_fail (de_cleanup d) (demo_segment pid) = None" "os_unlink_fail (de_end d) (demo_segment pid) = None"
      "calm (de_init d 0) (demo_segment pid)" "calm (de_poll d 0) (demo_segment pid)" "calm (de_poll d 1) (demo_segment pid)"
      "owner_alive (de_init d 0) (de_poll d 0)" "owner_alive (de_init d 0) (de_poll d 1)"
      "os_keys (de_poll d 1) = os_keys (de_init d 0)"
    and live: "env_live (de_log d 0)" "env_live (de_log d 1)"
  shows "\<exists>lw'. demo_producer_main addr d pid lw =
      Some (\<lparr>rn_exit = 0,
              rn_out = [demo_segment pid @ '' level=2 payload=demo producer pid='' @ decimal (unat pid),
                        demo_segment pid @ '' level=3 payload=this record is drained by an in-process LogCenter demo''],
              rn_err = []\<rparr>, lw') \<and>
    w_names (lw_world lw') = (w_names (lw_world lw))(demo_segment pid := None) \<and> reg_map (lw_world lw') = Map.empty"
proof -
  let ?n = "demo_segment pid" and ?o = "demo_producer_options pid"
  note parse = demo_segment_parse [OF pid]
  have reg: "?n \<noteq> REGISTRY_NAME"
    using parse by (auto simp: parse_and_validate_name_def)
  obtain e0 w1 where x: "destroy (de_cleanup d) ?n (lw_world lw) = Some (e0, w1)" "world_ok w1"
      "w_names w1 = (w_names (lw_world lw))(?n := None)" "reg_map w1 = (reg_map (lw_world lw))(?n := None)"
    using destroy_clears [OF w(1) parse reg _ env(1)] w(2) by blast
  define lw1 where "lw1 = lw\<lparr>lw_world := w1\<rparr>"
  have lw1: "world_ok (lw_world lw1)" "reg_map (lw_world lw1) = Map.empty" "?n \<notin> dom (w_names (lw_world lw1))"
    using x(2-4) w(2) by (auto simp: lw1_def fun_eq_iff domIff)
  let ?records = "map (request_record ?n 4096 1072) (requests (demo_calls d pid))"
  obtain lg e lw2 r3 lw3 r4 lw4 where g: "logger_init addr (de_init d) ?o lw1 = Some (Inr lg, lw2)"
      "log_info (de_log d 0) (\<lambda>f. Some (expand_d [sint pid] f)) (Some ''demo producer pid=%d'') lg lw2 = (r3, lw3)"
      "log_warn (de_log d 1) (\<lambda>f. Some (expand_d [] f)) (Some ''this record is drained by an in-process LogCenter demo'') lg lw3 = (r4, lw4)"
      "running_logger ?o ?n (de_init d 0) lg e lw4" "w_names (lw_world lw4) = (w_names (lw_world lw1))(?n \<mapsto> hd_base (lg_handle lg))"
      "reg_map (lw_world lw4) = [?n \<mapsto> e]" "view_records ?n 4096 (lg_ring lg) lw4 = ?records"
    using demo_logs [OF lw1 pid addr env(3) live] by (elim exE conjE) (rule that; assumption)
  have pre: "?n = lco_prefix (lc_options demo_producer_center) @ int_text (sint pid)"
      and few: "length ?records \<le> unat (lco_drain_batch (lc_options demo_producer_center))"
      and opts: "2 \<le> unat (lo_record_max ?o)" "unat (lo_max_payload ?o) + 16 \<le> 4294967232"
    by (simp_all add: demo_segment_def demo_calls_def requests_def demo_options_facts demo_center_facts)
  obtain m cen ar lw5 where p: "poll_once addr (de_poll d) (de_end d) demo_producer_center [] lw4 = Some (m, cen, map demo_line ?records, lw5)"
      "watches cen ar ?n lg" "running_logger ?o ?n (de_init d 0) lg e lw5" "reg_map (lw_world lw5) = [?n \<mapsto> e]"
      "w_names (lw_world lw5) = w_names (lw_world lw4)"
    using first_poll [where denv = "de_poll d", OF g(4) parse reg g(6) env(4-8) pre addr opts demo_center_facts(1) _ few, of "de_end d" "[]"]
      g(7) by (auto simp: demo_center_facts(4) demo_sink)
  note q = running_ring [OF p(3)]
  have name: "?n \<in> dom (w_names (lw_world lw5))"
    using q(4) by auto
  obtain e6 w6 lw7 lw8 where u: "destroy (de_end d) ?n (lw_world lw5) = Some (e6, w6)" "center_close (de_end d) cen (lw5\<lparr>lw_world := w6\<rparr>) = Some lw7"
      "logger_close (de_end d) lg lw7 = Some lw8" "w_names (lw_world lw8) = (w_names (lw_world lw5))(?n := None)"
      "reg_map (lw_world lw8) = (reg_map (lw_world lw5))(?n := None)"
    using session_ends [OF q(3) parse reg name env(2) p(2) q(2)] by blast
  have "demo_producer_main addr d pid lw = Some (\<lparr>rn_exit = 0, rn_out = map demo_line ?records, rn_err = []\<rparr>, lw8)"
    unfolding demo_producer_main_def Let_def by (simp add: x(1) lw1_def [symmetric] g(1-3) p(1) u(1-3) del: One_nat_def expand_d.simps)
  then show ?thesis
    using demo_lines [OF pid, of ?n d] u(4,5) x(3) g(5) p(4,5) by (auto simp: lw1_def comp_def)
qed

theorem demo_producer_prints_witness:
  "\<exists>lw'. demo_producer_main (\<lambda>_. 4096)
        \<lparr>de_cleanup = demo_env, de_init = \<lambda>_. demo_env, de_log = \<lambda>_. demo_log_env, de_poll = \<lambda>_. demo_env, de_end = demo_env\<rparr>
        42 \<lparr>lw_world = demo_world, lw_rings = \<lambda>_. zero_ring 0\<rparr> =
      Some (\<lparr>rn_exit = 0,
              rn_out = [''/shmfx.log.demo_42 level=2 payload=demo producer pid=42'',
                        ''/shmfx.log.demo_42 level=3 payload=this record is drained by an in-process LogCenter demo''],
              rn_err = []\<rparr>, lw')"
proof -
  let ?d = "\<lparr>de_cleanup = demo_env, de_init = \<lambda>_. demo_env, de_log = \<lambda>_. demo_log_env, de_poll = \<lambda>_. demo_env, de_end = demo_env\<rparr>"
  let ?lw = "\<lparr>lw_world = demo_world, lw_rings = \<lambda>_. zero_ring 0\<rparr>"
  have n: "demo_segment 42 = ''/shmfx.log.demo_42''" and u: "unat (42 :: u32) = 42"
    by (simp_all add: demo_segment_def int_text_def demo_decimal)
  have "world_ok (lw_world ?lw)" "dom (reg_map (lw_world ?lw)) \<subseteq> {demo_segment 42} \<inter> dom (w_names (lw_world ?lw))"
      "unat (42 :: u32) < 2 ^ 31" "page_aligned (\<lambda>_. 4096)"
    using demo_world_ok by (simp_all add: page_aligned_def)
  from demo_producer_prints [OF this, of ?d] show ?thesis
    using demo_calm demo_alive demo_env_live by (auto simp: n u demo_decimal)
qed

end
