(* ===== verification/Ring_Bytes.thy ===== *)
theory Ring_Bytes
  imports Ring_Queue
begin

text \<open>
  The bytes of a ring while pushes and a pop are in progress: what holds of the cursors, the sequence
  numbers and the records between the steps, and that each memory access of a push or a pop keeps it.
\<close>

section \<open>The raw bytes of a slot\<close>

definition raw_slot :: "RecordRingMeta \<Rightarrow> u64 \<Rightarrow> u8 list \<Rightarrow> u8 list" where
  "raw_slot meta i m = load_bytes (record_bytes meta i) (slot_bytes meta) m"

lemma load_from_raw:
  assumes "raw_slot meta i m = raw_slot meta i m'" "k + n \<le> slot_bytes meta"
  shows "load_bytes (record_bytes meta i + k) n m = load_bytes (record_bytes meta i + k) n m'"
  using assms load_bytes_sub [of k n "slot_bytes meta" "record_bytes meta i"]
  by (metis raw_slot_def)

lemma raw_slot_record:
  assumes "ring_fits meta m" "unat i < slot_count meta" "raw_slot meta i m' = raw_slot meta i m"
  shows "get_record meta i m' = get_record meta i m"
proof (rule get_record_cong [OF assms(1,2)])
  fix off n
  assume off: "record_bytes meta i \<le> off" "off + n \<le> record_bytes meta i + slot_bytes meta"
  then obtain k where k: "off = record_bytes meta i + k"
    using le_Suc_ex by blast
  then show "load_bytes off n m' = load_bytes off n m"
    using load_from_raw [OF assms(3), of k n] off by simp
qed

lemma raw_slot_header:
  assumes "valid_meta meta" "raw_slot meta (slot_of meta pos) m' = raw_slot meta (slot_of meta pos) m"
  shows "header_written meta pos ty fl us pl m' = header_written meta pos ty fl us pl m"
  using load_from_raw [OF assms(2), of 0 4] load_from_raw [OF assms(2), of 4 2]
    load_from_raw [OF assms(2), of 6 2] load_from_raw [OF assms(2), of 8 8] valid_metaD(2) [OF assms(1)]
  by (simp add: header_written_def Let_def load_le_def)

lemma raw_slot_store:
  assumes "ring_fits meta m" "unat i < slot_count meta"
  shows "raw_slot meta i (put_head v m) = raw_slot meta i m"
    "raw_slot meta i (put_tail v m) = raw_slot meta i m"
    "unat j < slot_count meta \<Longrightarrow> raw_slot meta i (put_seq j v m) = raw_slot meta i m"
proof -
  note inside = cells_inside [OF assms(1)]
  note disj = cells_disjoint [OF assms(1) _ assms(2)]
  show "raw_slot meta i (put_head v m) = raw_slot meta i m"
    "raw_slot meta i (put_tail v m) = raw_slot meta i m"
    using inside disj(5,6) [OF assms(2)]
    by (simp_all add: raw_slot_def cell_atomic load_bytes_store_le_disjoint)
  show "unat j < slot_count meta \<Longrightarrow> raw_slot meta i (put_seq j v m) = raw_slot meta i m"
    using inside(3) [of j] disj(4) [of j]
    by (simp add: raw_slot_def cell_atomic load_bytes_store_le_disjoint)
qed

lemma raw_slot_write:
  assumes "ring_fits meta m" "unat i < slot_count meta" "i \<noteq> slot_of meta pos"
  shows "raw_slot meta i (write_record_header meta pos ty fl us pl m) = raw_slot meta i m"
    "raw_slot meta i (write_record_body meta pos pl m) = raw_slot meta i m"
proof -
  have v: "valid_meta meta"
    using assms(1) by (simp add: ring_fits_def)
  note d = cells_disjoint(8) [OF assms(1,2) slot_of_less [OF v] assms(3)]
  show "raw_slot meta i (write_record_header meta pos ty fl us pl m) = raw_slot meta i m"
    unfolding raw_slot_def using d valid_metaD(2) [OF v]
    by (intro write_header_frame(2) [OF assms(1)]) auto
  show "raw_slot meta i (write_record_body meta pos pl m) = raw_slot meta i m"
    unfolding raw_slot_def using d by (intro write_body_frame(2) [OF assms(1)]) auto
qed

section \<open>The lost counter is apart\<close>

lemma lost_count_apart [simp]:
  "valid_meta (meta\<lparr>lost_count := x\<rparr>) = valid_meta meta"
  "max_payload_of (meta\<lparr>lost_count := x\<rparr>) = max_payload_of meta"
  "record_bytes (meta\<lparr>lost_count := x\<rparr>) = record_bytes meta"
  "ring_fits (meta\<lparr>lost_count := x\<rparr>) = ring_fits meta"
  "get_record (meta\<lparr>lost_count := x\<rparr>) = get_record meta"
  "stored_record (meta\<lparr>lost_count := x\<rparr>) = stored_record meta"
  "header_written (meta\<lparr>lost_count := x\<rparr>) = header_written meta"
  by (simp_all add: fun_eq_iff valid_meta_def max_payload_of_def record_bytes_def ring_fits_def
      get_record_def stored_record_def stored_flags_def header_written_def written_size_def)

section \<open>The bytes of a ring in use\<close>

text \<open>
  The positions below \<open>f\<close> are freed, those below \<open>h\<close> are copied out, those below \<open>t\<close> are claimed;
  \<open>pend\<close> are the claimed ones not yet published, and \<open>st p\<close> is the record of position \<open>p\<close>.
\<close>

definition ring_core ::
  "RecordRingMeta \<Rightarrow> u8 list \<Rightarrow> nat \<Rightarrow> nat \<Rightarrow> nat \<Rightarrow> (nat \<Rightarrow> bool) \<Rightarrow> (nat \<Rightarrow> slot_record) \<Rightarrow> bool" where
  "ring_core meta m f h t pend st \<longleftrightarrow>
     ring_fits meta m \<and> 2 \<le> slot_count meta \<and> t + slot_count meta < 2 ^ 63 \<and>
     f \<le> h \<and> h \<le> Suc f \<and> h \<le> t \<and> t \<le> f + slot_count meta \<and> get_tail m = of_nat t \<and>
     (\<forall>p. f \<le> p \<and> p < f + slot_count meta \<longrightarrow>
        get_seq (slot_at meta p) m = of_nat (if p < t \<and> \<not> pend p then Suc p else p)) \<and>
     (\<forall>p. pend p \<longrightarrow> h \<le> p \<and> p < t) \<and>
     (\<forall>p. h \<le> p \<and> p < t \<and> \<not> pend p \<longrightarrow> get_record meta (slot_at meta p) m = st p)"

lemma ring_coreD:
  assumes "ring_core meta m f h t pend st"
  shows "ring_fits meta m" "valid_meta meta" "2 \<le> slot_count meta" "t + slot_count meta < 2 ^ 63"
    "f \<le> h" "h \<le> Suc f" "h \<le> t" "t \<le> f + slot_count meta" "get_tail m = of_nat t"
    "f \<le> p \<Longrightarrow> p < f + slot_count meta \<Longrightarrow>
       get_seq (slot_at meta p) m = of_nat (if p < t \<and> \<not> pend p then Suc p else p)"
    "pend p \<Longrightarrow> h \<le> p" "pend p \<Longrightarrow> p < t"
    "h \<le> p \<Longrightarrow> p < t \<Longrightarrow> \<not> pend p \<Longrightarrow> get_record meta (slot_at meta p) m = st p"
    "unat (slot_at meta p) < slot_count meta"
    "f \<le> p \<Longrightarrow> p < f + slot_count meta \<Longrightarrow> f \<le> q \<Longrightarrow> q < f + slot_count meta \<Longrightarrow>
       slot_at meta p = slot_at meta q \<longleftrightarrow> p = q"
proof -
  show fit: "ring_fits meta m" and b: "t + slot_count meta < 2 ^ 63" "f \<le> h" "h \<le> t"
    and "2 \<le> slot_count meta" "h \<le> Suc f" "t \<le> f + slot_count meta" "get_tail m = of_nat t"
    "f \<le> p \<Longrightarrow> p < f + slot_count meta \<Longrightarrow>
       get_seq (slot_at meta p) m = of_nat (if p < t \<and> \<not> pend p then Suc p else p)"
    "pend p \<Longrightarrow> h \<le> p" "pend p \<Longrightarrow> p < t"
    "h \<le> p \<Longrightarrow> p < t \<Longrightarrow> \<not> pend p \<Longrightarrow> get_record meta (slot_at meta p) m = st p"
    using assms by (simp_all add: ring_core_def)
  from fit show v: "valid_meta meta"
    by (simp add: ring_fits_def)
  then show "unat (slot_at meta p) < slot_count meta"
    by (rule slot_of_less)
  show "f \<le> p \<Longrightarrow> p < f + slot_count meta \<Longrightarrow> f \<le> q \<Longrightarrow> q < f + slot_count meta \<Longrightarrow>
       slot_at meta p = slot_at meta q \<longleftrightarrow> p = q"
    using b by (intro slot_at_window [OF v, of f]) simp_all
qed

lemma core_lost [simp]:
  "ring_core (meta\<lparr>lost_count := x\<rparr>) m f h t pend st = ring_core meta m f h t pend st"
  by (simp add: ring_core_def)

lemma core_claim:
  assumes "ring_core meta m f h t pend st" "t < f + slot_count meta" "Suc t + slot_count meta < 2 ^ 63"
    and "\<And>p. p < t \<Longrightarrow> st' p = st p"
  shows "ring_core meta (put_tail (of_nat t + 1) m) f h (Suc t) (pend(t := True)) st'"
proof -
  note c = ring_coreD [OF assms(1)]
  note laws = put_tail_laws [OF c(1)] get_record_store(2) [OF c(1)]
  show ?thesis
    unfolding ring_core_def using c(3,5-7) assms(2-4)
    by (auto simp: laws c(10,14,13) less_Suc_eq dest: c(11,12))
qed

lemma core_write:
  assumes "ring_core meta m f h t pend st" "pend p"
  shows "ring_core meta (write_record_header meta (of_nat p) ty fl us pl m) f h t pend st"
    "ring_core meta (write_record_body meta (of_nat p) pl m) f h t pend st"
proof -
  note c = ring_coreD [OF assms(1)]
  have other: "slot_at meta q \<noteq> slot_at meta p" if "h \<le> q" "q < t" "\<not> pend q" for q
    using c(15) [of q p] c(5,8) c(11,12) [OF assms(2)] that assms(2) by auto
  show "ring_core meta (write_record_header meta (of_nat p) ty fl us pl m) f h t pend st"
    unfolding ring_core_def using c(3-9)
    by (auto simp: write_header_laws [OF c(1)] c(10,13,14) other dest: c(11,12))
  show "ring_core meta (write_record_body meta (of_nat p) pl m) f h t pend st"
    unfolding ring_core_def using c(3-9)
    by (auto simp: write_body_laws [OF c(1)] c(10,13,14) other dest: c(11,12))
qed

lemma core_publish:
  assumes "ring_core meta m f h t pend st" "pend p" "get_record meta (slot_at meta p) m = st p"
  shows "ring_core meta (put_seq (slot_at meta p) (of_nat p + 1) m) f h t (pend(p := False)) st"
proof -
  note c = ring_coreD [OF assms(1)]
  have p: "f \<le> p" "p < f + slot_count meta" "h \<le> p" "p < t"
    using c(5,8) c(11,12) [OF assms(2)] by linarith+
  have "get_seq (slot_at meta q) (put_seq (slot_at meta p) (of_nat p + 1) m) =
      of_nat (if q < t \<and> \<not> (pend(p := False)) q then Suc q else q)"
    if "f \<le> q" "q < f + slot_count meta" for q
    using that p by (simp add: put_seq_laws(4) [OF c(1,14,14)] c(10,15))
  then show ?thesis
    unfolding ring_core_def using c(3-9) assms(3)
    by (auto simp: put_seq_laws [OF c(1,14)] get_record_store(3) [OF c(1,14,14)] c(13)
        dest: c(11,12))
qed

lemma core_copy:
  assumes "ring_core meta m h h t pend st" "h < t" "\<not> pend h"
  shows "ring_core meta m h (Suc h) t pend st"
proof -
  note c = ring_coreD [OF assms(1)]
  have "Suc h \<le> p" if "pend p" for p
    using c(11) [OF that] assms(3) that by (metis Suc_leI le_neq_implies_less)
  then show ?thesis
    unfolding ring_core_def using c(1,3-9) assms(2)
    by (auto simp: c(10,13) dest: c(12))
qed

lemma core_free:
  assumes "ring_core meta m f (Suc f) t pend st"
  shows "ring_core meta (put_seq (slot_at meta f) (of_nat f + ucast (record_max meta)) m)
    (Suc f) (Suc f) t pend st"
proof -
  note c = ring_coreD [OF assms]
  let ?m = "put_seq (slot_at meta f) (of_nat f + ucast (record_max meta)) m"
  have n: "of_nat f + ucast (record_max meta) = (of_nat (f + slot_count meta) :: u64)"
    by simp
  have last: "slot_at meta (f + slot_count meta) = slot_at meta f"
    using c(4,5,7) by (intro slot_at_shift [OF c(2)]) simp
  have "get_seq (slot_at meta q) ?m = of_nat (if q < t \<and> \<not> pend q then Suc q else q)"
    if "Suc f \<le> q" "q < Suc f + slot_count meta" for q
  proof (cases "q = f + slot_count meta")
    case True
    then show ?thesis
      unfolding True last n using c(8) put_seq_laws(4) [OF c(1,14,14)] by simp
  next
    case False
    then show ?thesis
      using that c(15) [of q f] c(10) [of q] put_seq_laws(4) [OF c(1,14,14)] by simp
  qed
  then show ?thesis
    unfolding ring_core_def using c(3-9)
    by (auto simp: put_seq_laws [OF c(1,14)] get_record_store(3) [OF c(1,14,14)] c(13)
        dest: c(11,12))
qed

lemma core_head:
  assumes "ring_core meta m f h t pend st"
  shows "ring_core meta (put_head v m) f h t pend st"
proof -
  note c = ring_coreD [OF assms]
  show ?thesis
    unfolding ring_core_def using c(3-9)
    by (auto simp: put_head_laws [OF c(1)] get_record_store(1) [OF c(1)] c(10,13,14) dest: c(11,12))
qed

text \<open>A producer that sees a free slot at a position not after the tail can only claim inside the window.\<close>

lemma core_free_slot:
  assumes "ring_core meta m f h t pend st" "p \<le> t"
    and "seq_diff (get_seq (slot_at meta p) m) (of_nat p) = 0"
  shows "p < f + slot_count meta"
proof (rule ccontr)
  note c = ring_coreD [OF assms(1)]
  assume "\<not> p < f + slot_count meta"
  then have p: "p = f + slot_count meta" "t = f + slot_count meta"
    using c(8) assms(2) by linarith+
  then have "slot_at meta p = slot_at meta f"
    unfolding p(1) using c(4) p(2) by (intro slot_at_shift [OF c(2)]) simp
  moreover have "get_seq (slot_at meta f) m = of_nat (if pend f then f else Suc f)"
    using c(3) p by (subst c(10)) simp_all
  ultimately have "seq_diff (of_nat (if pend f then f else Suc f)) (of_nat p) = 0"
    using assms(3) by simp
  moreover have "(if pend f then f else Suc f) < 2 ^ 63" "p < 2 ^ 63"
    using p c(3,4) by simp_all
  ultimately have "int (if pend f then f else Suc f) - int p = 0"
    by (simp only: seq_diff_of_nat)
  then have "(if pend f then f else Suc f) = p"
    by linarith
  then show False
    using p(1) c(3) by (auto split: if_splits)
qed

end
