(* ===== verification/Ring_Concurrent.thy ===== *)
theory Ring_Concurrent
  imports Ring_Bytes
begin

text \<open>
  The ring shared by any number of producers and one consumer. A push and a pop are cut into the
  atomic accesses of the source, each thread keeps the local variables of its call, and the steps of
  all threads interleave freely over the same bytes. The memory is sequentially consistent: the
  acquire and release orders of the source are not weakened further.
\<close>

section \<open>A push in steps\<close>

record push_args =
  pa_type :: u16
  pa_flags :: u16
  pa_user :: u64
  pa_payload :: "u8 list"

text \<open>
  Where a producer is in \<^verbatim>\<open>try_push\<close>, with its local variables: the position, and the retries
  left of the budget.
\<close>

datatype producer =
  PIdle
| PStart push_args
| PLoad push_args u64 nat
| PReload push_args nat
| PCas push_args u64 nat
| PHeader push_args u64
| PBody push_args u64
| PPublish push_args u64
| PLost push_args
| PDone push_args ErrorCode

fun producer_step ::
  "bool \<Rightarrow> RecordRingMeta \<Rightarrow> u8 list \<Rightarrow> producer \<Rightarrow> producer \<times> RecordRingMeta \<times> u8 list" where
  "producer_step weak meta m (PStart a) =
     (if \<not> valid_meta meta then (PDone a CorruptedHeader, meta, m)
      else (PLoad a (atomic_load_u64 tail_cursor m) MPSC_CAS_RETRY_BUDGET, meta, m))"
| "producer_step weak meta m (PLoad a pos 0) = (PLost a, meta, m)"
| "producer_step weak meta m (PLoad a pos (Suc k)) =
     (let diff = seq_diff (atomic_load_u64 (slot_header (pos mod ucast (record_max meta))) m) pos
      in (if diff = 0 then PCas a pos k else if diff < 0 then PLost a else PReload a k, meta, m))"
| "producer_step weak meta m (PReload a k) = (PLoad a (atomic_load_u64 tail_cursor m) k, meta, m)"
| "producer_step weak meta m (PCas a pos k) =
     (case atomic_compare_exchange_weak_u64 weak tail_cursor pos (pos + 1) m of
        (True, _, m') \<Rightarrow> (PHeader a pos, meta, m')
      | (False, expected, m') \<Rightarrow> (PLoad a expected k, meta, m'))"
| "producer_step weak meta m (PHeader a pos) =
     (PBody a pos, meta,
      write_record_header meta pos (pa_type a) (pa_flags a) (pa_user a) (pa_payload a) m)"
| "producer_step weak meta m (PBody a pos) =
     (PPublish a pos, meta, write_record_body meta pos (pa_payload a) m)"
| "producer_step weak meta m (PPublish a pos) =
     (PDone a Ok, meta, atomic_store_u64 (slot_header (pos mod ucast (record_max meta))) (pos + 1) m)"
| "producer_step weak meta m (PLost a) =
     (PDone a RingFull, meta\<lparr>lost_count := snd (atomic_fetch_add_u64 (lost_count meta) 1)\<rparr>, m)"
| "producer_step weak meta m (PDone a e) = (PDone a e, meta, m)"
| "producer_step weak meta m PIdle = (PIdle, meta, m)"

fun running :: "producer \<Rightarrow> bool" where
  "running PIdle = False"
| "running (PDone a e) = False"
| "running _ = True"

section \<open>A pop in steps\<close>

datatype consumer =
  CIdle
| CStart "u8 list"
| CCheck "u8 list" u64
| CCopy "u8 list" u64
| CFree "u8 list" PoppedRecord u64
| CHead "u8 list" PoppedRecord u64
| CDone "(u8 list \<times> PoppedRecord) option"

fun consumer_step :: "RecordRingMeta \<Rightarrow> u8 list \<Rightarrow> consumer \<Rightarrow> consumer \<times> u8 list" where
  "consumer_step meta m (CStart out) =
     (if \<not> valid_meta meta then (CDone None, m)
      else (CCheck out (atomic_load_u64 head_cursor m), m))"
| "consumer_step meta m (CCheck out pos) =
     (if atomic_load_u64 (slot_header (pos mod ucast (record_max meta))) m \<noteq> pos + 1 then (CDone None, m)
      else (CCopy out pos, m))"
| "consumer_step meta m (CCopy out pos) =
     (case copy_record meta pos out m of (out', popped) \<Rightarrow> (CFree out' popped pos, m))"
| "consumer_step meta m (CFree out popped pos) =
     (CHead out popped pos,
      atomic_store_u64 (slot_header (pos mod ucast (record_max meta))) (pos + ucast (record_max meta)) m)"
| "consumer_step meta m (CHead out popped pos) =
     (CDone (Some (out, popped)), atomic_store_u64 head_cursor (pos + 1) m)"
| "consumer_step meta m (CDone res) = (CDone res, m)"
| "consumer_step meta m CIdle = (CIdle, m)"

fun consuming :: "consumer \<Rightarrow> bool" where
  "consuming CIdle = False"
| "consuming (CDone res) = False"
| "consuming _ = True"

section \<open>The shared ring\<close>

text \<open>
  The shared metadata and bytes, the producers by number, the consumer, and four logs that only
  record what happens: the claims in order of the claimed positions, the pushes given up, the
  records delivered (the size of the caller's buffer, the metadata, the bytes), and the pushes that
  returned with their results.
\<close>

record ring_system =
  rs_meta :: RecordRingMeta
  rs_mem :: "u8 list"
  rs_prod :: "nat \<Rightarrow> producer"
  rs_cons :: consumer
  rs_claimed :: "(nat \<times> push_args) list"
  rs_dropped :: "(nat \<times> push_args) list"
  rs_popped :: "(nat \<times> PoppedRecord \<times> u8 list) list"
  rs_returned :: "(nat \<times> push_args \<times> ErrorCode) list"

fun claim_event :: "producer \<Rightarrow> producer \<Rightarrow> push_args list" where
  "claim_event (PCas a pos k) (PHeader b pos') = [a]"
| "claim_event _ _ = []"

fun drop_event :: "producer \<Rightarrow> push_args list" where
  "drop_event (PLost a) = [a]"
| "drop_event _ = []"

fun pop_event :: "consumer \<Rightarrow> consumer \<Rightarrow> (nat \<times> PoppedRecord \<times> u8 list) list" where
  "pop_event (CCopy out pos) (CFree out' popped pos') =
     [(length out, popped, take (unat (pr_copied_size popped)) out')]"
| "pop_event _ _ = []"

inductive ring_step :: "ring_system \<Rightarrow> ring_system \<Rightarrow> bool" where
  begin_push: "rs_prod s i = PIdle \<Longrightarrow> ring_step s (s\<lparr>rs_prod := (rs_prod s)(i := PStart a)\<rparr>)"
| producer: "running (rs_prod s i) \<Longrightarrow>
    producer_step weak (rs_meta s) (rs_mem s) (rs_prod s i) = (p', meta', m') \<Longrightarrow>
    ring_step s (s\<lparr>rs_meta := meta', rs_mem := m', rs_prod := (rs_prod s)(i := p'),
      rs_claimed := rs_claimed s @ map (Pair i) (claim_event (rs_prod s i) p'),
      rs_dropped := rs_dropped s @ map (Pair i) (drop_event (rs_prod s i))\<rparr>)"
| end_push: "rs_prod s i = PDone a e \<Longrightarrow>
    ring_step s (s\<lparr>rs_prod := (rs_prod s)(i := PIdle), rs_returned := rs_returned s @ [(i, a, e)]\<rparr>)"
| begin_pop: "rs_cons s = CIdle \<Longrightarrow> ring_step s (s\<lparr>rs_cons := CStart out\<rparr>)"
| consumer: "consuming (rs_cons s) \<Longrightarrow>
    consumer_step (rs_meta s) (rs_mem s) (rs_cons s) = (c', m') \<Longrightarrow>
    ring_step s (s\<lparr>rs_mem := m', rs_cons := c', rs_popped := rs_popped s @ pop_event (rs_cons s) c'\<rparr>)"
| end_pop: "rs_cons s = CDone res \<Longrightarrow> ring_step s (s\<lparr>rs_cons := CIdle\<rparr>)"

inductive_cases ring_stepE: "ring_step s t"

text \<open>The system starts from a ring fresh from \<^verbatim>\<open>initialize\<close>.\<close>

definition system_of :: "MpscRing \<Rightarrow> ring_system" where
  "system_of r = \<lparr>rs_meta = ring_meta r, rs_mem = ring_bytes r, rs_prod = (\<lambda>_. PIdle),
     rs_cons = CIdle, rs_claimed = [], rs_dropped = [], rs_popped = [], rs_returned = []\<rparr>"

definition ring_start :: "ring_system \<Rightarrow> bool" where
  "ring_start s \<longleftrightarrow> (\<exists>sp rmax mp r. ring_initialize sp rmax mp = Inr r \<and> 2 \<le> unat rmax \<and>
     unat mp + 16 \<le> 4294967232 \<and> s = system_of r)"

abbreviation ring_reachable :: "ring_system \<Rightarrow> bool" where
  "ring_reachable \<equiv> reachable ring_start ring_step"

text \<open>As long as fewer than about \<open>2 ^ 63\<close> positions have been claimed, the counters cannot wrap.\<close>

definition counters_left :: "ring_system \<Rightarrow> bool" where
  "counters_left s \<longleftrightarrow> length (rs_claimed s) + slot_count (rs_meta s) < 2 ^ 63"

section \<open>The steps and the calls\<close>

text \<open>A thread that runs without interruption does what the call does.\<close>

fun push_alone ::
  "(nat \<Rightarrow> bool) \<Rightarrow> nat \<Rightarrow> RecordRingMeta \<Rightarrow> u8 list \<Rightarrow> producer \<Rightarrow> producer \<times> RecordRingMeta \<times> u8 list" where
  "push_alone weak 0 meta m p = (p, meta, m)"
| "push_alone weak (Suc n) meta m p =
     (case producer_step (case p of PCas a pos k \<Rightarrow> weak k | _ \<Rightarrow> False) meta m p of
        (p', meta', m') \<Rightarrow> push_alone weak n meta' m' p')"

fun pop_alone :: "nat \<Rightarrow> RecordRingMeta \<Rightarrow> u8 list \<Rightarrow> consumer \<Rightarrow> consumer \<times> u8 list" where
  "pop_alone 0 meta m c = (c, m)"
| "pop_alone (Suc n) meta m c = (case consumer_step meta m c of (c', m') \<Rightarrow> pop_alone n meta m' c')"

text \<open>An upper bound of the steps a push has left, whatever the other threads do.\<close>

fun push_rank :: "producer \<Rightarrow> nat" where
  "push_rank PIdle = 0"
| "push_rank (PStart a) = 3 * MPSC_CAS_RETRY_BUDGET + 6"
| "push_rank (PLoad a pos k) = 3 * k + 5"
| "push_rank (PReload a k) = 3 * k + 6"
| "push_rank (PCas a pos k) = 3 * k + 6"
| "push_rank (PHeader a pos) = 3"
| "push_rank (PBody a pos) = 2"
| "push_rank (PPublish a pos) = 1"
| "push_rank (PLost a) = 1"
| "push_rank (PDone a e) = 0"

lemma push_rank_decreases:
  assumes "producer_step weak meta m p = (p', meta', m')" "running p"
  shows "push_rank p' < push_rank p"
  using assms
  by (cases "(weak, meta, m, p)" rule: producer_step.cases)
    (auto simp: Let_def atomic_compare_exchange_weak_u64_def split: if_splits)

lemma push_alone_done [simp]: "push_alone weak n meta m (PDone a e) = (PDone a e, meta, m)"
  by (induction n) simp_all

lemma push_alone_loop:
  "push_alone weak (3 * k + 5 + n) meta m (PLoad a pos k) =
    (case claim_loop weak meta k pos m of
       (None, m') \<Rightarrow> (PDone a RingFull,
          meta\<lparr>lost_count := snd (atomic_fetch_add_u64 (lost_count meta) 1)\<rparr>, m')
     | (Some pos', m') \<Rightarrow> (PDone a Ok, meta,
          put_seq (slot_of meta pos') (pos' + 1) (write_record meta pos' (pa_type a) (pa_flags a) (pa_user a) (pa_payload a) m')))"
proof (induction k arbitrary: n pos m)
  case 0
  obtain n' where n: "3 * 0 + 5 + n = Suc (Suc n')"
    by simp
  show ?case
    unfolding n by simp
next
  case (Suc k)
  define q where "q = 3 * k + 5 + Suc n"
  obtain q' where q': "q = Suc (Suc (Suc q'))"
    by (simp add: q_def)
  have n: "3 * Suc k + 5 + n = Suc (Suc q)"
    by (simp add: q_def)
  have ih: "push_alone weak q meta m (PLoad a x k) =
    (case claim_loop weak meta k x m of
       (None, m') \<Rightarrow> (PDone a RingFull,
          meta\<lparr>lost_count := snd (atomic_fetch_add_u64 (lost_count meta) 1)\<rparr>, m')
     | (Some pos', m') \<Rightarrow> (PDone a Ok, meta,
          put_seq (slot_of meta pos') (pos' + 1) (write_record meta pos' (pa_type a) (pa_flags a) (pa_user a) (pa_payload a) m')))" for x m
    unfolding q_def by (rule Suc.IH)
  consider "seq_diff (get_seq (slot_of meta pos) m) pos < 0" |
    "seq_diff (get_seq (slot_of meta pos) m) pos > 0" |
    "seq_diff (get_seq (slot_of meta pos) m) pos = 0" "get_tail m = pos" "\<not> weak k" |
    "seq_diff (get_seq (slot_of meta pos) m) pos = 0" "get_tail m \<noteq> pos \<or> weak k"
    by fastforce
  then show ?case
  proof cases
    case 1
    then show ?thesis unfolding n by (simp add: Let_def)
  next
    case 2
    then show ?thesis unfolding n by (simp add: Let_def ih)
  next
    case 3
    then show ?thesis
      unfolding n by (simp add: Let_def atomic_compare_exchange_weak_u64_def q' write_record_def)
  next
    case 4
    then show ?thesis
      unfolding n by (auto simp: Let_def atomic_compare_exchange_weak_u64_def ih)
  qed
qed

lemma push_alone_try_push:
  assumes "mr_meta r = Some meta" "try_push weak (pa_type a) (pa_flags a) (pa_user a) (pa_payload a) r = (e, r')"
  shows "\<exists>meta'. mr_meta r' = Some meta' \<and>
    push_alone weak (push_rank (PStart a)) meta (ring_bytes r) (PStart a) =
      (PDone a e, meta', ring_bytes r')"
proof -
  have n: "push_rank (PStart a) = Suc (3 * MPSC_CAS_RETRY_BUDGET + 5)"
    by simp
  show ?thesis
    unfolding n push_alone.simps using assms
    by (auto simp: push_alone_loop [where n = 0, unfolded add_0_right] try_push_def Let_def
        bump_lost_def ring_bytes_def set_bytes_def
        split: if_splits prod.splits option.splits)
qed

lemma pop_alone_try_pop:
  assumes "mr_meta r = Some meta"
  shows "pop_alone 5 meta (ring_bytes r) (CStart out) =
    (case try_pop out r of
       None \<Rightarrow> (CDone None, ring_bytes r)
     | Some (out', popped, r') \<Rightarrow> (CDone (Some (out', popped)), ring_bytes r'))"
  using assms by (auto simp: eval_nat_numeral try_pop_def Let_def copy_record_def)

end
