(* ===== verification/Ring_Interleaving.thy ===== *)
theory Ring_Interleaving
  imports Ring_Concurrent
begin

text \<open>
  The invariant of the shared ring under every interleaving, proved step by step and collected in
  two interpretations of the invariant interfaces: \<open>ring_conc\<close> for the bytes, the slot holders and
  the delivered records (as long as the counters do not wrap), \<open>ring_log\<close> for the results of the
  calls.
\<close>

section \<open>The invariant\<close>

fun busy :: "producer \<Rightarrow> (push_args \<times> u64) option" where
  "busy (PHeader a pos) = Some (a, pos)"
| "busy (PBody a pos) = Some (a, pos)"
| "busy (PPublish a pos) = Some (a, pos)"
| "busy _ = None"

definition pending :: "(nat \<Rightarrow> producer) \<Rightarrow> nat \<Rightarrow> bool" where
  "pending ps p \<longleftrightarrow> (\<exists>i a pos. busy (ps i) = Some (a, pos) \<and> unat pos = p)"

definition args_record :: "RecordRingMeta \<Rightarrow> push_args \<Rightarrow> slot_record" where
  "args_record meta a = stored_record meta (pa_type a) (pa_flags a) (pa_user a) (pa_payload a)"

definition claimed_record :: "RecordRingMeta \<Rightarrow> (nat \<times> push_args) list \<Rightarrow> nat \<Rightarrow> slot_record" where
  "claimed_record meta claimed p = args_record meta (snd (claimed ! p))"

text \<open>How many slots are freed, when \<open>h\<close> records have been copied out.\<close>

fun freed :: "consumer \<Rightarrow> nat \<Rightarrow> nat" where
  "freed (CFree out popped pos) h = h - 1"
| "freed _ h = h"

text \<open>What a producer knows: \<open>t\<close> is the number of claims, \<open>w\<close> the end of the window.\<close>

fun producer_ok :: "RecordRingMeta \<Rightarrow> u8 list \<Rightarrow> nat \<Rightarrow> nat \<Rightarrow> producer \<Rightarrow> bool" where
  "producer_ok meta m t w (PLoad a pos k) = (unat pos \<le> t)"
| "producer_ok meta m t w (PCas a pos k) = (unat pos \<le> t \<and> unat pos < w)"
| "producer_ok meta m t w (PBody a pos) =
     header_written meta pos (pa_type a) (pa_flags a) (pa_user a) (pa_payload a) m"
| "producer_ok meta m t w (PPublish a pos) = (get_record meta (slot_of meta pos) m = args_record meta a)"
| "producer_ok meta m t w _ = True"

text \<open>What the consumer knows, when \<open>h\<close> records have been copied out of \<open>t\<close> claimed ones.\<close>

fun consumer_ok :: "u8 list \<Rightarrow> nat \<Rightarrow> nat \<Rightarrow> (nat \<Rightarrow> bool) \<Rightarrow> consumer \<Rightarrow> bool" where
  "consumer_ok m h t pend (CCheck out pos) = (pos = of_nat h \<and> get_head m = of_nat h)"
| "consumer_ok m h t pend (CCopy out pos) =
     (pos = of_nat h \<and> get_head m = of_nat h \<and> h < t \<and> \<not> pend h)"
| "consumer_ok m h t pend (CFree out popped pos) = (0 < h \<and> pos = of_nat (h - 1))"
| "consumer_ok m h t pend (CHead out popped pos) = (0 < h \<and> pos = of_nat (h - 1))"
| "consumer_ok m h t pend _ = (get_head m = of_nat h)"

definition delivery_ok :: "nat \<times> PoppedRecord \<times> u8 list \<Rightarrow> slot_record \<Rightarrow> bool" where
  "delivery_ok d a = (case d of (n, popped, bytes) \<Rightarrow> popped = popped_of n a \<and> bytes = take n (sr_data a))"

definition system_inv :: "ring_system \<Rightarrow> bool" where
  "system_inv s \<longleftrightarrow>
     (let meta = rs_meta s; m = rs_mem s; h = length (rs_popped s); t = length (rs_claimed s);
          f = freed (rs_cons s) h; pend = pending (rs_prod s); st = claimed_record meta (rs_claimed s)
      in ring_core meta m f h t pend st \<and>
         (\<forall>i a pos. busy (rs_prod s i) = Some (a, pos) \<longrightarrow> rs_claimed s ! unat pos = (i, a)) \<and>
         (\<forall>i. producer_ok meta m t (f + slot_count meta) (rs_prod s i)) \<and>
         consumer_ok m h t pend (rs_cons s) \<and>
         list_all2 delivery_ok (rs_popped s) (map st [0..<h]))"

abbreviation sys_freed :: "ring_system \<Rightarrow> nat" where
  "sys_freed s \<equiv> freed (rs_cons s) (length (rs_popped s))"

lemma producer_ok_mono:
  "producer_ok meta m t w p \<Longrightarrow> t \<le> t' \<Longrightarrow> w \<le> w' \<Longrightarrow> producer_ok meta m t' w' p"
  by (cases "(meta, m, t, w, p)" rule: producer_ok.cases) auto

lemma args_record_lost [simp]: "args_record (meta\<lparr>lost_count := x\<rparr>) = args_record meta"
  by (simp add: args_record_def fun_eq_iff)

lemma producer_ok_lost [simp]: "producer_ok (meta\<lparr>lost_count := x\<rparr>) m t w p = producer_ok meta m t w p"
  by (cases "(meta, m, t, w, p)" rule: producer_ok.cases) auto

text \<open>A producer that holds a slot is not affected by accesses to other cells.\<close>

lemma producer_ok_frame:
  assumes "producer_ok meta m t w p" "ring_fits meta m"
    and raw: "\<And>a pos. busy p = Some (a, pos) \<Longrightarrow>
      raw_slot meta (slot_of meta pos) m' = raw_slot meta (slot_of meta pos) m"
  shows "producer_ok meta m' t w p"
proof -
  have v: "valid_meta meta"
    using assms(2) by (simp add: ring_fits_def)
  show ?thesis
  proof (cases p)
    case (PBody a pos)
    then show ?thesis
      using assms(1) raw_slot_header [OF v raw] by simp
  next
    case (PPublish a pos)
    then show ?thesis
      using assms(1) raw_slot_record [OF assms(2) slot_of_less [OF v] raw] by simp
  qed (use assms(1) in simp_all)
qed

lemma consumer_ok_frame:
  "consumer_ok m h t pend c \<Longrightarrow> get_head m' = get_head m \<Longrightarrow> t \<le> t' \<Longrightarrow>
     (h < t \<Longrightarrow> pend' h \<Longrightarrow> pend h) \<Longrightarrow> consumer_ok m' h t' pend' c"
  by (cases c) auto

lemma system_invD:
  assumes "system_inv s"
  shows "ring_core (rs_meta s) (rs_mem s) (sys_freed s) (length (rs_popped s)) (length (rs_claimed s))
       (pending (rs_prod s)) (claimed_record (rs_meta s) (rs_claimed s))"
    "busy (rs_prod s i) = Some (a, pos) \<Longrightarrow> rs_claimed s ! unat pos = (i, a)"
    "busy (rs_prod s i) = Some (a, pos) \<Longrightarrow> pending (rs_prod s) (unat pos)"
    "producer_ok (rs_meta s) (rs_mem s) (length (rs_claimed s)) (sys_freed s + slot_count (rs_meta s)) (rs_prod s i)"
    "consumer_ok (rs_mem s) (length (rs_popped s)) (length (rs_claimed s)) (pending (rs_prod s)) (rs_cons s)"
    "list_all2 delivery_ok (rs_popped s)
       (map (claimed_record (rs_meta s) (rs_claimed s)) [0..<length (rs_popped s)])"
  using assms by (auto simp: system_inv_def pending_def Let_def)

text \<open>Two producers never hold the same slot.\<close>

lemma busy_window:
  assumes "system_inv s" "pending (rs_prod s) p"
  shows "sys_freed s \<le> p" "p < sys_freed s + slot_count (rs_meta s)"
    "length (rs_popped s) \<le> p" "p < length (rs_claimed s)"
  using ring_coreD(5,8) [OF system_invD(1) [OF assms(1)]]
    ring_coreD(11,12) [OF system_invD(1) [OF assms(1)] assms(2)] by linarith+

lemma busy_slots_differ:
  assumes "system_inv s" "busy (rs_prod s i) = Some (a, pos)" "busy (rs_prod s j) = Some (b, pos')" "i \<noteq> j"
  shows "slot_of (rs_meta s) pos \<noteq> slot_of (rs_meta s) pos'"
proof -
  note c = ring_coreD [OF system_invD(1) [OF assms(1)]]
  have "unat pos \<noteq> unat pos'"
    using system_invD(2) [OF assms(1,2)] system_invD(2) [OF assms(1,3)] assms(4) by auto
  then show ?thesis
    using c(15) [of "unat pos" "unat pos'"] busy_window [OF assms(1) system_invD(3) [OF assms(1,2)]]
      busy_window [OF assms(1) system_invD(3) [OF assms(1,3)]] by auto
qed

section \<open>The steps of a producer keep it\<close>

lemma pending_claim:
  assumes "busy (ps i) = None" "busy p' = Some (a, pos)"
  shows "pending (ps(i := p')) = (pending ps)(unat pos := True)"
proof
  fix q
  have "j \<noteq> i" if "busy (ps j) = Some (b, x)" for j b x
    using assms(1) that by auto
  then show "pending (ps(i := p')) q = ((pending ps)(unat pos := True)) q"
    unfolding pending_def using assms(2) by (auto simp: fun_upd_apply)
qed

lemma pending_release:
  assumes "busy (ps i) = Some (a, pos)" "busy p' = None"
    and "\<And>j b x. j \<noteq> i \<Longrightarrow> busy (ps j) = Some (b, x) \<Longrightarrow> unat x \<noteq> unat pos"
  shows "pending (ps(i := p')) = (pending ps)(unat pos := False)"
proof
  fix q
  show "pending (ps(i := p')) q = ((pending ps)(unat pos := False)) q"
    unfolding pending_def using assms by (auto simp: fun_upd_apply split: if_splits) (metis option.inject prod.inject)+
qed

lemma pending_same:
  assumes "busy p' = busy (ps i)"
  shows "pending (ps(i := p')) = pending ps"
proof -
  have "busy ((ps(i := p')) j) = busy (ps j)" for j
    using assms by simp
  then show ?thesis
    by (simp add: pending_def fun_eq_iff del: fun_upd_apply)
qed

lemma claimed_record_lost [simp]:
  "claimed_record (meta\<lparr>lost_count := x\<rparr>) = claimed_record meta"
  by (simp add: claimed_record_def fun_eq_iff)

lemma claimed_record_append:
  "p < length claimed \<Longrightarrow> claimed_record meta (claimed @ xs) p = claimed_record meta claimed p"
  by (simp add: claimed_record_def nth_append)

text \<open>A step that changes no byte and no slot holder.\<close>

lemma inv_local:
  assumes "system_inv s" "busy p' = busy (rs_prod s i)"
    and "producer_ok (rs_meta s) (rs_mem s) (length (rs_claimed s)) (sys_freed s + slot_count (rs_meta s)) p'"
  shows "system_inv (s\<lparr>rs_meta := (rs_meta s)\<lparr>lost_count := x\<rparr>, rs_prod := (rs_prod s)(i := p'),
    rs_dropped := d, rs_returned := r\<rparr>)"
  using assms(1,3)
  by (auto simp: system_inv_def Let_def pending_same [where ps = "rs_prod s" and i = i, OF assms(2)] assms(2))

text \<open>
  A step of producer \<open>i\<close> that changes bytes, and perhaps claims a position: it is enough that the
  bytes are right, that its own obligations hold and that no slot of another producer is touched.
\<close>

lemma inv_producer:
  assumes inv: "system_inv s"
    and core: "ring_core (rs_meta s) m' (sys_freed s) (length (rs_popped s)) (length (rs_claimed s @ xs))
      (pending ((rs_prod s)(i := p'))) (claimed_record (rs_meta s) (rs_claimed s @ xs))"
    and head: "get_head m' = get_head (rs_mem s)"
    and own: "\<And>a pos. busy p' = Some (a, pos) \<Longrightarrow> (rs_claimed s @ xs) ! unat pos = (i, a)"
      "producer_ok (rs_meta s) m' (length (rs_claimed s @ xs)) (sys_freed s + slot_count (rs_meta s)) p'"
    and frame: "\<And>j a pos. j \<noteq> i \<Longrightarrow> busy (rs_prod s j) = Some (a, pos) \<Longrightarrow>
      raw_slot (rs_meta s) (slot_of (rs_meta s) pos) m' = raw_slot (rs_meta s) (slot_of (rs_meta s) pos) (rs_mem s)"
    and pend: "\<And>p. p < length (rs_claimed s) \<Longrightarrow> pending ((rs_prod s)(i := p')) p \<Longrightarrow> pending (rs_prod s) p"
  shows "system_inv (s\<lparr>rs_mem := m', rs_prod := (rs_prod s)(i := p'), rs_claimed := rs_claimed s @ xs\<rparr>)"
proof -
  note c = ring_coreD [OF system_invD(1) [OF inv]]
  have "busy (((rs_prod s)(i := p')) j) = Some (a, pos) \<Longrightarrow> (rs_claimed s @ xs) ! unat pos = (j, a)" for j a pos
    using own(1) system_invD(2) [OF inv] busy_window(4) [OF inv system_invD(3) [OF inv]]
    by (auto simp: nth_append split: if_splits)
  moreover have "producer_ok (rs_meta s) m' (length (rs_claimed s @ xs)) (sys_freed s + slot_count (rs_meta s))
      (((rs_prod s)(i := p')) j)" for j
  proof (cases "j = i")
    case False
    then show ?thesis
      using producer_ok_frame [OF producer_ok_mono [OF system_invD(4) [OF inv, of j]] c(1) frame [OF False]]
      by simp
  qed (use own(2) in simp)
  moreover have "consumer_ok m' (length (rs_popped s)) (length (rs_claimed s @ xs))
      (pending ((rs_prod s)(i := p'))) (rs_cons s)"
    using consumer_ok_frame [OF system_invD(5) [OF inv] head] pend by simp
  moreover have "map (claimed_record (rs_meta s) (rs_claimed s @ xs)) [0..<length (rs_popped s)] =
      map (claimed_record (rs_meta s) (rs_claimed s)) [0..<length (rs_popped s)]"
    using c(7) by (simp add: claimed_record_append)
  then have "list_all2 delivery_ok (rs_popped s)
      (map (claimed_record (rs_meta s) (rs_claimed s @ xs)) [0..<length (rs_popped s)])"
    using system_invD(6) [OF inv] by (simp only:)
  ultimately show ?thesis
    using core by (simp add: system_inv_def Let_def)
qed

text \<open>Claiming the position at the tail.\<close>

lemma inv_claim:
  assumes inv: "system_inv s" and p: "rs_prod s i = PCas a pos k" and tail: "get_tail (rs_mem s) = pos"
    and room: "Suc (length (rs_claimed s)) + slot_count (rs_meta s) < 2 ^ 63"
  shows "system_inv (s\<lparr>rs_mem := put_tail (pos + 1) (rs_mem s),
    rs_prod := (rs_prod s)(i := PHeader a pos), rs_claimed := rs_claimed s @ [(i, a)]\<rparr>)"
proof -
  let ?t = "length (rs_claimed s)"
  note c = ring_coreD [OF system_invD(1) [OF inv]]
  have pos: "pos = of_nat ?t" "unat pos = ?t"
    using c(9) tail room by (simp_all add: unat_of_nat_64)
  have lt: "?t < sys_freed s + slot_count (rs_meta s)"
    using system_invD(4) [OF inv, of i] pos(2) by (simp add: p)
  have pend: "pending ((rs_prod s)(i := PHeader a pos)) = (pending (rs_prod s))(?t := True)"
    using pending_claim [of "rs_prod s" i "PHeader a pos" a pos] p pos(2) by simp
  have "ring_core (rs_meta s) (put_tail (pos + 1) (rs_mem s)) (sys_freed s) (length (rs_popped s))
      (length (rs_claimed s @ [(i, a)])) (pending ((rs_prod s)(i := PHeader a pos)))
      (claimed_record (rs_meta s) (rs_claimed s @ [(i, a)]))"
    using core_claim [OF system_invD(1) [OF inv] lt room, folded pos(1),
        of "claimed_record (rs_meta s) (rs_claimed s @ [(i, a)])"]
    by (simp add: claimed_record_append pend)
  then show ?thesis
    by (rule inv_producer [OF inv])
      (use pos(2) in \<open>auto simp: pend put_tail_laws [OF c(1)] raw_slot_store(2) [OF c(1) slot_of_less [OF c(2)]]\<close>)
qed

text \<open>Writing the record into the claimed slot, and publishing it.\<close>

lemma busy_pos:
  assumes "system_inv s" "busy (rs_prod s i) = Some (a, pos)"
  shows "pos = of_nat (unat pos)" "pending (rs_prod s) (unat pos)"
    "claimed_record (rs_meta s) (rs_claimed s) (unat pos) = args_record (rs_meta s) a"
  using system_invD(2,3) [OF assms] by (simp_all add: claimed_record_def)

lemma inv_write:
  assumes inv: "system_inv s" and p: "busy (rs_prod s i) = Some (a, pos)" "busy p' = Some (a, pos)"
    and core: "ring_core (rs_meta s) m' (sys_freed s) (length (rs_popped s)) (length (rs_claimed s))
      (pending (rs_prod s)) (claimed_record (rs_meta s) (rs_claimed s))"
    and head: "get_head m' = get_head (rs_mem s)"
    and ok: "producer_ok (rs_meta s) m' (length (rs_claimed s)) (sys_freed s + slot_count (rs_meta s)) p'"
    and frame: "\<And>i. unat i < slot_count (rs_meta s) \<Longrightarrow> i \<noteq> slot_of (rs_meta s) pos \<Longrightarrow>
      raw_slot (rs_meta s) i m' = raw_slot (rs_meta s) i (rs_mem s)"
  shows "system_inv (s\<lparr>rs_mem := m', rs_prod := (rs_prod s)(i := p')\<rparr>)"
proof -
  note c = ring_coreD [OF system_invD(1) [OF inv]]
  have pend: "pending ((rs_prod s)(i := p')) = pending (rs_prod s)"
    using p by (intro pending_same) simp
  have "raw_slot (rs_meta s) (slot_of (rs_meta s) pos') m' =
      raw_slot (rs_meta s) (slot_of (rs_meta s) pos') (rs_mem s)"
    if "j \<noteq> i" "busy (rs_prod s j) = Some (b, pos')" for j b pos'
    using busy_slots_differ [OF inv p(1) that(2)] that(1) frame [OF slot_of_less [OF c(2)]] by auto
  then show ?thesis
    using inv_producer [OF inv, of m' "[]" i p'] core head ok p system_invD(2) [OF inv p(1)]
    by (simp add: pend)
qed

lemma inv_header:
  assumes inv: "system_inv s" and p: "rs_prod s i = PHeader a pos"
  shows "system_inv (s\<lparr>rs_mem := write_record_header (rs_meta s) pos (pa_type a) (pa_flags a) (pa_user a)
    (pa_payload a) (rs_mem s), rs_prod := (rs_prod s)(i := PBody a pos)\<rparr>)"
proof -
  have b: "busy (rs_prod s i) = Some (a, pos)"
    by (simp add: p)
  note c = ring_coreD [OF system_invD(1) [OF inv]]
  show ?thesis
    using core_write(1) [OF system_invD(1) [OF inv] busy_pos(2) [OF inv b]]
    by (intro inv_write [OF inv b])
      (simp_all add: write_header_laws [OF c(1)] header_written_write [OF c(1)] raw_slot_write(1) [OF c(1)])
qed

lemma inv_body:
  assumes inv: "system_inv s" and p: "rs_prod s i = PBody a pos"
  shows "system_inv (s\<lparr>rs_mem := write_record_body (rs_meta s) pos (pa_payload a) (rs_mem s),
    rs_prod := (rs_prod s)(i := PPublish a pos)\<rparr>)"
proof -
  have b: "busy (rs_prod s i) = Some (a, pos)"
    by (simp add: p)
  note c = ring_coreD [OF system_invD(1) [OF inv]]
  have "header_written (rs_meta s) pos (pa_type a) (pa_flags a) (pa_user a) (pa_payload a) (rs_mem s)"
    using system_invD(4) [OF inv, of i] by (simp add: p)
  then show ?thesis
    using core_write(2) [OF system_invD(1) [OF inv] busy_pos(2) [OF inv b]]
    by (intro inv_write [OF inv b])
      (simp_all add: write_body_laws [OF c(1)] get_record_written [OF c(1)] raw_slot_write(2) [OF c(1)]
        args_record_def)
qed

lemma inv_publish:
  assumes inv: "system_inv s" and p: "rs_prod s i = PPublish a pos"
  shows "system_inv (s\<lparr>rs_mem := put_seq (slot_of (rs_meta s) pos) (pos + 1) (rs_mem s),
    rs_prod := (rs_prod s)(i := PDone a Ok)\<rparr>)"
proof -
  have b: "busy (rs_prod s i) = Some (a, pos)"
    by (simp add: p)
  note c = ring_coreD [OF system_invD(1) [OF inv]]
  have pend: "pending ((rs_prod s)(i := PDone a Ok)) = (pending (rs_prod s))(unat pos := False)"
  proof (rule pending_release [where ps = "rs_prod s", OF b])
    show "unat x \<noteq> unat pos" if "j \<noteq> i" "busy (rs_prod s j) = Some (b', x)" for j b' x
      using system_invD(2) [OF inv b] system_invD(2) [OF inv that(2)] that(1) by auto
  qed simp
  have "get_record (rs_meta s) (slot_of (rs_meta s) pos) (rs_mem s) =
      claimed_record (rs_meta s) (rs_claimed s) (unat pos)"
    using system_invD(4) [OF inv, of i] by (simp add: p busy_pos(3) [OF inv b])
  then have "ring_core (rs_meta s) (put_seq (slot_of (rs_meta s) pos) (pos + 1) (rs_mem s)) (sys_freed s)
      (length (rs_popped s)) (length (rs_claimed s)) (pending ((rs_prod s)(i := PDone a Ok)))
      (claimed_record (rs_meta s) (rs_claimed s))"
    using core_publish [OF system_invD(1) [OF inv] busy_pos(2) [OF inv b]] by (simp add: pend)
  then show ?thesis
    using inv_producer [OF inv, of "put_seq (slot_of (rs_meta s) pos) (pos + 1) (rs_mem s)" "[]" i "PDone a Ok"]
    by (simp add: pend put_seq_laws [OF c(1) slot_of_less [OF c(2)]]
        raw_slot_store(3) [OF c(1) slot_of_less [OF c(2)] slot_of_less [OF c(2)]] split: if_splits)
qed

section \<open>The steps of the consumer keep it\<close>

lemma inv_consumer:
  assumes inv: "system_inv s"
    and core: "ring_core (rs_meta s) m' (freed c' (length (rs_popped s @ ds)))
      (length (rs_popped s @ ds)) (length (rs_claimed s)) (pending (rs_prod s))
      (claimed_record (rs_meta s) (rs_claimed s))"
    and more: "sys_freed s \<le> freed c' (length (rs_popped s @ ds))"
    and frame: "\<And>i. unat i < slot_count (rs_meta s) \<Longrightarrow> raw_slot (rs_meta s) i m' = raw_slot (rs_meta s) i (rs_mem s)"
    and ok: "consumer_ok m' (length (rs_popped s @ ds)) (length (rs_claimed s)) (pending (rs_prod s)) c'"
    and del: "list_all2 delivery_ok ds (map (claimed_record (rs_meta s) (rs_claimed s))
      [length (rs_popped s)..<length (rs_popped s @ ds)])"
  shows "system_inv (s\<lparr>rs_mem := m', rs_cons := c', rs_popped := rs_popped s @ ds\<rparr>)"
proof -
  note c = ring_coreD [OF system_invD(1) [OF inv]]
  have "producer_ok (rs_meta s) m' (length (rs_claimed s))
      (freed c' (length (rs_popped s @ ds)) + slot_count (rs_meta s)) (rs_prod s i)" for i
    using producer_ok_frame [OF producer_ok_mono [OF system_invD(4) [OF inv, of i]] c(1) frame [OF slot_of_less [OF c(2)]]]
      more by simp
  moreover have "list_all2 delivery_ok (rs_popped s @ ds)
      (map (claimed_record (rs_meta s) (rs_claimed s)) [0..<length (rs_popped s @ ds)])"
    using list_all2_appendI [OF system_invD(6) [OF inv] del]
    by (simp add: upt_add_eq_append [of 0] flip: map_append)
  ultimately show ?thesis
    using core ok system_invD(2) [OF inv] by (simp add: system_inv_def Let_def)
qed

lemma inv_consumer_local:
  assumes inv: "system_inv s" and f: "freed c' (length (rs_popped s)) = sys_freed s"
    and ok: "consumer_ok (rs_mem s) (length (rs_popped s)) (length (rs_claimed s)) (pending (rs_prod s)) c'"
  shows "system_inv (s\<lparr>rs_cons := c'\<rparr>)"
  using inv_consumer [OF inv, of "rs_mem s" c' "[]"] system_invD(1) [OF inv] f ok by simp

lemma inv_check:
  assumes inv: "system_inv s" and c: "rs_cons s = CCheck out pos"
    and ready: "get_seq (slot_of (rs_meta s) pos) (rs_mem s) = pos + 1"
  shows "system_inv (s\<lparr>rs_cons := CCopy out pos\<rparr>)"
proof -
  let ?h = "length (rs_popped s)"
  note d = ring_coreD [OF system_invD(1) [OF inv]]
  have pos: "pos = of_nat ?h" "get_head (rs_mem s) = of_nat ?h"
    using system_invD(5) [OF inv] by (simp_all add: c)
  have "?h < length (rs_claimed s) \<and> \<not> pending (rs_prod s) ?h"
  proof (rule ccontr)
    assume "\<not> ?thesis"
    then have "get_seq (slot_at (rs_meta s) ?h) (rs_mem s) = of_nat ?h"
      using d(3) by (subst d(10)) (auto simp: c)
    then show False
      using ready pos by simp
  qed
  then show ?thesis
    using inv c pos by (intro inv_consumer_local) simp_all
qed

lemma inv_copy:
  assumes inv: "system_inv s" and c: "rs_cons s = CCopy out pos"
    and copy: "copy_record (rs_meta s) pos out (rs_mem s) = (out', popped)"
  shows "system_inv (s\<lparr>rs_cons := CFree out' popped pos,
    rs_popped := rs_popped s @ [(length out, popped, take (unat (pr_copied_size popped)) out')]\<rparr>)"
proof -
  let ?h = "length (rs_popped s)" and ?a = "claimed_record (rs_meta s) (rs_claimed s) (length (rs_popped s))"
  note d = ring_coreD [OF system_invD(1) [OF inv]]
  have pos: "pos = of_nat ?h" and h: "?h < length (rs_claimed s)" "\<not> pending (rs_prod s) ?h"
    using system_invD(5) [OF inv] by (simp_all add: c)
  have a: "get_record (rs_meta s) (slot_of (rs_meta s) pos) (rs_mem s) = ?a"
    using d(13) [OF order_refl h] by (simp add: pos)
  have out': "out' = store_bytes 0 (take (length out) (sr_data ?a)) out" "popped = popped_of (length out) ?a"
    using copy by (simp_all add: copy_record_get [OF d(1)] a)
  have "length (sr_data ?a) < 4294967296"
    using get_record_data(1) [OF d(1) slot_of_less [OF d(2)], of pos] unat_lt_32 by (simp add: a)
  then have "unat (pr_copied_size popped) = min (length out) (length (sr_data ?a))"
    by (simp add: out' popped_of_def unat_of_nat_32)
  then have "delivery_ok (length out, popped, take (unat (pr_copied_size popped)) out') ?a"
    by (auto simp: delivery_ok_def out' store_bytes_def min_def)
  moreover have "ring_core (rs_meta s) (rs_mem s) ?h (Suc ?h) (length (rs_claimed s)) (pending (rs_prod s))
      (claimed_record (rs_meta s) (rs_claimed s))"
    using system_invD(1) [OF inv] h by (intro core_copy) (simp_all add: c)
  ultimately show ?thesis
    using inv_consumer [OF inv, of "rs_mem s" "CFree out' popped pos" "[(length out, popped, take (unat (pr_copied_size popped)) out')]"]
    by (simp add: c pos)
qed

lemma inv_free:
  assumes inv: "system_inv s" and c: "rs_cons s = CFree out popped pos"
  shows "system_inv (s\<lparr>rs_mem := put_seq (slot_of (rs_meta s) pos) (pos + ucast (record_max (rs_meta s))) (rs_mem s),
    rs_cons := CHead out popped pos\<rparr>)"
proof -
  let ?h = "length (rs_popped s)"
  note d = ring_coreD [OF system_invD(1) [OF inv]]
  have pos: "pos = of_nat (?h - 1)" "0 < ?h"
    using system_invD(5) [OF inv] by (simp_all add: c)
  then obtain f where f: "?h = Suc f" "pos = of_nat f"
    by (cases ?h) simp_all
  have "ring_core (rs_meta s) (put_seq (slot_of (rs_meta s) pos) (pos + ucast (record_max (rs_meta s))) (rs_mem s))
      ?h ?h (length (rs_claimed s)) (pending (rs_prod s)) (claimed_record (rs_meta s) (rs_claimed s))"
    unfolding f using core_free system_invD(1) [OF inv] by (simp add: c f(1))
  then show ?thesis
    using inv_consumer [OF inv, of "put_seq (slot_of (rs_meta s) pos) (pos + ucast (record_max (rs_meta s))) (rs_mem s)"
        "CHead out popped pos" "[]"] pos
    by (simp add: c raw_slot_store(3) [OF d(1) _ slot_of_less [OF d(2)]])
qed

lemma inv_head:
  assumes inv: "system_inv s" and c: "rs_cons s = CHead out popped pos"
  shows "system_inv (s\<lparr>rs_mem := put_head (pos + 1) (rs_mem s), rs_cons := CDone (Some (out, popped))\<rparr>)"
proof -
  let ?h = "length (rs_popped s)"
  note d = ring_coreD [OF system_invD(1) [OF inv]]
  have "0 < ?h" "pos = of_nat (?h - 1)"
    using system_invD(5) [OF inv] by (simp_all add: c)
  then have pos: "pos + 1 = of_nat ?h"
    by (cases ?h) simp_all
  show ?thesis
    using inv_consumer [OF inv, of "put_head (pos + 1) (rs_mem s)" "CDone (Some (out, popped))" "[]"]
      core_head [OF system_invD(1) [OF inv], of "pos + 1"]
    by (simp add: c raw_slot_store(1) [OF d(1)] put_head_laws(2) [OF d(1)] pos)
qed

section \<open>Every step keeps it\<close>

lemma inv_start_system:
  assumes "ring_start s"
  shows "system_inv s"
proof -
  from assms obtain sp rmax mp r where init: "ring_initialize sp rmax mp = Inr r" "2 \<le> unat rmax"
      "unat mp + 16 \<le> 4294967232" and s: "s = system_of r"
    by (auto simp: ring_start_def)
  note r = ring_initialize_state [OF init]
  from r(1,4,5) obtain meta m where "ring_meta r = meta" "ring_bytes r = m" "ring_fits meta m"
      "2 \<le> slot_count meta" "window meta 0 0 m"
    by (elim ring_invE) simp
  then show ?thesis
    by (auto simp: s system_of_def system_inv_def Let_def ring_core_def window_def pending_def)
qed

lemma inv_producer_step:
  assumes inv: "system_inv s" and run: "running (rs_prod s i)"
    and step: "producer_step weak (rs_meta s) (rs_mem s) (rs_prod s i) = (p', meta', m')"
    and t: "t = s\<lparr>rs_meta := meta', rs_mem := m', rs_prod := (rs_prod s)(i := p'),
      rs_claimed := rs_claimed s @ map (Pair i) (claim_event (rs_prod s i) p'),
      rs_dropped := rs_dropped s @ map (Pair i) (drop_event (rs_prod s i))\<rparr>"
    and left: "counters_left t"
  shows "system_inv t"
proof -
  note c = ring_coreD [OF system_invD(1) [OF inv]]
  have tail: "unat (get_tail (rs_mem s)) = length (rs_claimed s)"
    using c(4,9) by (simp add: unat_of_nat_64)
  note local = inv_local [OF inv, where x = "lost_count (rs_meta s)" and r = "rs_returned s", simplified]
  show ?thesis
  proof (cases "rs_prod s i")
    case (PStart a)
    then show ?thesis
      using step c(2) local [of p' i "rs_dropped s"] by (auto simp: t tail)
  next
    case (PLoad a pos k)
    show ?thesis
    proof (cases k)
      case 0
      then show ?thesis
        using step PLoad local [of p' i "rs_dropped s"] by (auto simp: t)
    next
      case (Suc k')
      have pos: "unat pos \<le> length (rs_claimed s)"
        using system_invD(4) [OF inv, of i] by (simp add: PLoad)
      show ?thesis
        using step PLoad Suc pos local [of p' i "rs_dropped s"]
          core_free_slot [OF system_invD(1) [OF inv] pos]
        by (auto simp: t Let_def split: if_splits)
    qed
  next
    case (PReload a k)
    then show ?thesis
      using step local [of p' i "rs_dropped s"] by (auto simp: t tail)
  next
    case (PCas a pos k)
    show ?thesis
    proof (cases "get_tail (rs_mem s) = pos \<and> \<not> weak")
      case True
      then show ?thesis
        using step PCas left inv_claim [OF inv PCas]
        by (auto simp: t atomic_compare_exchange_weak_u64_def counters_left_def)
    next
      case False
      then show ?thesis
        using step PCas local [of p' i "rs_dropped s"]
        by (auto simp: t atomic_compare_exchange_weak_u64_def tail split: if_splits)
    qed
  next
    case (PHeader a pos)
    then show ?thesis
      using step inv_header [OF inv PHeader] by (auto simp: t)
  next
    case (PBody a pos)
    then show ?thesis
      using step inv_body [OF inv PBody] by (auto simp: t)
  next
    case (PPublish a pos)
    then show ?thesis
      using step inv_publish [OF inv PPublish] by (auto simp: t)
  next
    case (PLost a)
    then show ?thesis
      using step inv_local [OF inv, where p' = "PDone a RingFull" and i = i and r = "rs_returned s" and
          x = "snd (atomic_fetch_add_u64 (lost_count (rs_meta s)) 1)" and d = "rs_dropped s @ [(i, a)]"]
      by (auto simp: t)
  qed (use run in simp_all)
qed

lemma inv_consumer_step:
  assumes inv: "system_inv s" and run: "consuming (rs_cons s)"
    and step: "consumer_step (rs_meta s) (rs_mem s) (rs_cons s) = (c', m')"
  shows "system_inv (s\<lparr>rs_mem := m', rs_cons := c', rs_popped := rs_popped s @ pop_event (rs_cons s) c'\<rparr>)"
proof -
  note c = ring_coreD [OF system_invD(1) [OF inv]]
  note ok = system_invD(5) [OF inv]
  show ?thesis
  proof (cases "rs_cons s")
    case (CStart out)
    then show ?thesis
      using step c(2) ok inv_consumer_local [OF inv, of c'] by auto
  next
    case (CCheck out pos)
    then show ?thesis
      using step ok inv_consumer_local [OF inv, of c'] inv_check [OF inv CCheck] by (auto split: if_splits)
  next
    case (CCopy out pos)
    then show ?thesis
      using step inv_copy [OF inv CCopy] by (auto split: prod.splits)
  next
    case (CFree out popped pos)
    then show ?thesis
      using step inv_free [OF inv CFree] by auto
  next
    case (CHead out popped pos)
    then show ?thesis
      using step inv_head [OF inv CHead] by auto
  qed (use run in simp_all)
qed

interpretation ring_conc: bounded_invariant ring_start ring_step counters_left system_inv
proof
  show "system_inv s" if "ring_start s" for s
    using that by (rule inv_start_system)
next
  fix s t
  assume inv: "system_inv s" and left: "counters_left t" and step: "ring_step s t"
  note ok = system_invD(5) [OF inv]
  from step show "system_inv t"
  proof (cases rule: ring_step.cases)
    case (begin_push i a)
    then show ?thesis
      using inv_local [OF inv, where p' = "PStart a" and i = i and x = "lost_count (rs_meta s)" and
          d = "rs_dropped s" and r = "rs_returned s"] by simp
  next
    case (producer i weak p' meta' m')
    then show ?thesis
      using inv_producer_step [OF inv _ _ _ left] by blast
  next
    case (end_push i a e)
    then show ?thesis
      using inv_local [OF inv, where p' = PIdle and i = i and x = "lost_count (rs_meta s)" and
          d = "rs_dropped s" and r = "rs_returned s @ [(i, a, e)]"]
      by simp
  next
    case (begin_pop out)
    then show ?thesis
      using ok by (auto intro!: inv_consumer_local [OF inv])
  next
    case (consumer c' m')
    then show ?thesis
      using inv_consumer_step [OF inv] by blast
  next
    case (end_pop res)
    then show ?thesis
      using ok by (auto intro!: inv_consumer_local [OF inv])
  qed
next
  fix s t
  assume "ring_step s t" "counters_left t"
  then show "counters_left s"
  proof (cases rule: ring_step.cases)
    case (producer i weak p' meta' m')
    then have "record_max meta' = record_max (rs_meta s)"
      by (cases "(weak, rs_meta s, rs_mem s, rs_prod s i)" rule: producer_step.cases)
        (auto simp: Let_def split: if_splits prod.splits bool.splits)
    then show ?thesis
      using producer \<open>counters_left t\<close> by (simp add: counters_left_def)
  qed (simp_all add: counters_left_def)
qed

section \<open>The logs\<close>

definition claims_of :: "nat \<Rightarrow> (nat \<times> push_args) list \<Rightarrow> push_args list" where
  "claims_of i xs = map snd (filter (\<lambda>x. fst x = i) xs)"

definition returns_of :: "nat \<Rightarrow> ErrorCode \<Rightarrow> (nat \<times> push_args \<times> ErrorCode) list \<Rightarrow> push_args list" where
  "returns_of i e xs = map (fst \<circ> snd) (filter (\<lambda>x. fst x = i \<and> snd (snd x) = e) xs)"

lemma logs_append [simp]:
  "claims_of i (xs @ ys) = claims_of i xs @ claims_of i ys" "claims_of i [] = []"
  "claims_of i ((j, a) # zs) = (if j = i then a # claims_of i zs else claims_of i zs)"
  "returns_of i e (us @ vs) = returns_of i e us @ returns_of i e vs" "returns_of i e [] = []"
  "returns_of i e ((j, a, e') # ws) = (if j = i \<and> e' = e then a # returns_of i e ws else returns_of i e ws)"
  by (simp_all add: claims_of_def returns_of_def)

text \<open>The push a producer has decided to make, or to give up, and not returned from.\<close>

fun in_flight :: "ErrorCode \<Rightarrow> producer \<Rightarrow> push_args list" where
  "in_flight e (PDone a e') = (if e' = e then [a] else [])"
| "in_flight e p = (case busy p of Some (a, pos) \<Rightarrow> if e = Ok then [a] else [] | None \<Rightarrow> [])"

definition log_inv :: "ring_system \<Rightarrow> bool" where
  "log_inv s \<longleftrightarrow>
     (\<forall>i. claims_of i (rs_claimed s) = returns_of i Ok (rs_returned s) @ in_flight Ok (rs_prod s i)) \<and>
     (\<forall>i. claims_of i (rs_dropped s) = returns_of i RingFull (rs_returned s) @ in_flight RingFull (rs_prod s i)) \<and>
     lost_count (rs_meta s) = of_nat (length (rs_dropped s))"

interpretation ring_log: step_invariant ring_start ring_step log_inv
proof
  fix s
  assume "ring_start s"
  then show "log_inv s"
    by (auto simp: ring_start_def log_inv_def system_of_def fresh_meta_def ring_initialize_state(3))
next
  fix s t
  assume inv: "log_inv s" and "ring_step s t"
  from this(2) show "log_inv t"
  proof (cases rule: ring_step.cases)
    case (producer i weak p' meta' m')
    then show ?thesis
      using inv
      by (cases "(weak, rs_meta s, rs_mem s, rs_prod s i)" rule: producer_step.cases)
        (auto simp: log_inv_def Let_def atomic_compare_exchange_weak_u64_def atomic_fetch_add_u64_def
          split: if_splits)
  qed (use inv in \<open>auto simp: log_inv_def\<close>)
qed

end
