(* ===== verification/Ring_Mpsc.thy ===== *)
theory Ring_Mpsc
  imports Ring_Interleaving Ring_Theorems
begin

text \<open>
  What many producers and one consumer can rely on: delivery in claim order, honest results, exclusive
  slots, wait-freedom, and the correspondence of the steps with the calls.
\<close>

section \<open>A concrete interleaving\<close>

text \<open>From a free slot at the tail, an idle producer can run up to its claim.\<close>

lemma claim_run:
  assumes reach: "ring_reachable s" and idle: "rs_prod s i = PIdle" and v: "valid_meta (rs_meta s)"
    and tail: "get_tail (rs_mem s) = pos" and slot: "get_seq (slot_of (rs_meta s) pos) (rs_mem s) = pos"
  shows "ring_reachable (s\<lparr>rs_mem := put_tail (pos + 1) (rs_mem s),
    rs_prod := (rs_prod s)(i := PHeader a pos), rs_claimed := rs_claimed s @ [(i, a)]\<rparr>)"
proof -
  obtain k where k: "MPSC_CAS_RETRY_BUDGET = Suc k"
    by (simp add: shm_consts)
  let ?at = "\<lambda>p. s\<lparr>rs_prod := (rs_prod s)(i := p)\<rparr>"
  have "ring_reachable (?at (PStart a))"
    using reach_step [OF reach begin_push [OF idle]] .
  then have "ring_reachable (?at (PLoad a pos (Suc k)))"
    using producer [of "?at (PStart a)" i False "PLoad a pos (Suc k)" "rs_meta s" "rs_mem s"] v tail k
    by (auto intro: reach_step)
  then have "ring_reachable (?at (PCas a pos k))"
    using producer [of "?at (PLoad a pos (Suc k))" i False "PCas a pos k" "rs_meta s" "rs_mem s"] slot
    by (auto intro: reach_step simp: seq_diff_def)
  then show ?thesis
    using producer [of "?at (PCas a pos k)" i False "PHeader a pos" "rs_meta s" "put_tail (pos + 1) (rs_mem s)"] tail
    by (auto intro: reach_step simp: atomic_compare_exchange_weak_u64_def)
qed

definition demo_args :: push_args where
  "demo_args = \<lparr>pa_type = 7, pa_flags = 0, pa_user = 5, pa_payload = [1, 2, 3]\<rparr>"

text \<open>Two producers that both hold a slot of the ring of the examples.\<close>

definition demo_system :: ring_system where
  "demo_system = (system_of demo_ring)\<lparr>rs_mem := put_tail 2 (put_tail 1 (ring_bytes demo_ring)),
     rs_prod := (\<lambda>_. PIdle)(0 := PHeader demo_args 0, 1 := PHeader demo_args 1),
     rs_claimed := [(0, demo_args), (1, demo_args)]\<rparr>"

lemma demo_start: "ring_reachable (system_of demo_ring)"
  using demo_ring_inv(1) by (intro reach_start) (auto simp: ring_start_def intro!: exI)

lemma demo_system_reachable: "ring_reachable demo_system" "counters_left demo_system"
proof -
  from demo_ring_inv(2) obtain meta m where r: "ring_meta demo_ring = meta" "ring_bytes demo_ring = m"
      "ring_fits meta m" "valid_meta meta" "window meta 0 0 m"
    using ring_initialize_state(4,5) [OF demo_ring_inv(1)] by (elim ring_invE) simp
  have n: "slot_count meta = 2"
    using demo_ring_life(2) r(1) by simp
  have rm: "record_max meta = 2"
    using demo_ring_inv(4) r(1) by (simp add: fresh_meta_def)
  note w = windowD [OF r(5,4)]
  have seq: "get_seq 0 m = 0" "get_seq 1 m = 1"
    using w(9) [of 0] w(9) [of 1] n by (simp_all add: rm)
  let ?s = "system_of demo_ring"
  let ?s1 = "?s\<lparr>rs_mem := put_tail 1 m, rs_prod := (rs_prod ?s)(0 := PHeader demo_args 0),
      rs_claimed := [(0, demo_args)]\<rparr>"
  have "ring_reachable ?s1"
    using claim_run [OF demo_start, of 0 0 demo_args] r seq w(5) by (simp add: system_of_def rm)
  then have "ring_reachable (?s1\<lparr>rs_mem := put_tail 2 (put_tail 1 m),
      rs_prod := (rs_prod ?s1)(1 := PHeader demo_args 1), rs_claimed := [(0, demo_args), (1, demo_args)]\<rparr>)"
    using claim_run [of ?s1 1 1 demo_args] r seq
    by (simp add: system_of_def put_tail_laws [OF r(3)] rm)
  then show "ring_reachable demo_system"
    by (simp add: demo_system_def system_of_def r)
  show "counters_left demo_system"
    by (simp add: counters_left_def demo_system_def system_of_def r(1) n)
qed

section \<open>Properties under every interleaving\<close>

text \<open>
  C1. Any number of producers and one consumer, in every interleaving of their steps, as long as the
  position counters do not wrap: the records delivered to the consumer are exactly the first claimed
  ones, in the order of the claims, none lost, duplicated or mixed; and the ring never holds more
  claims than it has slots.
\<close>

theorem mpsc_delivery:
  assumes "ring_reachable s" "counters_left s"
  shows "list_all2 delivery_ok (rs_popped s)
      (map (args_record (rs_meta s) \<circ> snd) (take (length (rs_popped s)) (rs_claimed s))) \<and>
    length (rs_popped s) \<le> length (rs_claimed s) \<and>
    length (rs_claimed s) \<le> length (rs_popped s) + slot_count (rs_meta s)"
proof -
  note inv = ring_conc.reachable_inv [OF assms]
  note c = ring_coreD [OF system_invD(1) [OF inv]]
  have "map (claimed_record (rs_meta s) (rs_claimed s)) [0..<length (rs_popped s)] =
      map (args_record (rs_meta s) \<circ> snd) (take (length (rs_popped s)) (rs_claimed s))"
    using c(7) by (intro nth_equalityI) (simp_all add: claimed_record_def)
  then show ?thesis
    using system_invD(6) [OF inv] c(5,7,8) by simp
qed

theorem mpsc_delivery_witness:
  "list_all2 delivery_ok (rs_popped demo_system)
     (map (args_record (rs_meta demo_system) \<circ> snd) (take (length (rs_popped demo_system)) (rs_claimed demo_system))) \<and>
   length (rs_claimed demo_system) = 2"
  using mpsc_delivery [OF demo_system_reachable] by (simp add: demo_system_def)

text \<open>
  C17. The results are honest, per producer and in program order: the pushes a producer has claimed
  are those that returned success and the one it is in the middle of; the pushes it has given up are
  those that returned RingFull and the one it is about to return from; and the lost counter is the
  number of given-up pushes of all producers.
\<close>

theorem mpsc_results:
  assumes "ring_reachable s"
  shows "claims_of i (rs_claimed s) = returns_of i Ok (rs_returned s) @ in_flight Ok (rs_prod s i) \<and>
    claims_of i (rs_dropped s) = returns_of i RingFull (rs_returned s) @ in_flight RingFull (rs_prod s i) \<and>
    lost_count (rs_meta s) = of_nat (length (rs_dropped s))"
  using ring_log.unbounded.reachable_inv [OF assms] by (simp add: log_inv_def)

theorem mpsc_results_witness:
  "claims_of 1 (rs_claimed demo_system) = [demo_args] \<and> in_flight Ok (rs_prod demo_system 1) = [demo_args] \<and>
   lost_count (rs_meta demo_system) = 0"
  using mpsc_results [OF demo_system_reachable(1), of 1] by (simp add: demo_system_def system_of_def)

text \<open>
  Freedom from data races on the records: in every reachable state, the slots two producers are
  writing are disjoint ranges of bytes, the slot the consumer is copying is disjoint from every slot
  a producer is writing, and all of them lie inside the payload.
\<close>

theorem mpsc_exclusive_slots:
  assumes reach: "ring_reachable s" "counters_left s"
    and busy: "busy (rs_prod s i) = Some (a, pos)"
    and other: "(\<exists>j b. j \<noteq> i \<and> busy (rs_prod s j) = Some (b, pos')) \<or> (\<exists>out. rs_cons s = CCopy out pos')"
  defines "at \<equiv> \<lambda>p. record_bytes (rs_meta s) (slot_of (rs_meta s) p)"
  shows "(at pos + slot_bytes (rs_meta s) \<le> at pos' \<or> at pos' + slot_bytes (rs_meta s) \<le> at pos) \<and>
    at pos + slot_bytes (rs_meta s) \<le> length (rs_mem s)"
proof -
  note inv = ring_conc.reachable_inv [OF reach]
  note c = ring_coreD [OF system_invD(1) [OF inv]]
  have "slot_of (rs_meta s) pos \<noteq> slot_of (rs_meta s) pos'"
    using other
  proof
    assume "\<exists>out. rs_cons s = CCopy out pos'"
    then obtain out where cc: "rs_cons s = CCopy out pos'" ..
    note w = busy_window [OF inv system_invD(3) [OF inv busy]]
    have "pos' = of_nat (length (rs_popped s))" "\<not> pending (rs_prod s) (length (rs_popped s))"
      using system_invD(5) [OF inv] by (simp_all add: cc)
    then show ?thesis
      using c(3) c(15) [of "unat pos" "length (rs_popped s)"] w system_invD(3) [OF inv busy] by (auto simp: cc)
  qed (use busy_slots_differ [OF inv busy] in blast)
  then show ?thesis
    using cells_disjoint(8) [OF c(1) slot_of_less [OF c(2)] slot_of_less [OF c(2)], of pos pos']
      cells_inside(4) [OF c(1) slot_of_less [OF c(2)], of pos] by (simp add: at_def)
qed

theorem mpsc_exclusive_slots_witness:
  "let meta = rs_meta demo_system in
   record_bytes meta (slot_of meta 0) + slot_bytes meta \<le> record_bytes meta (slot_of meta 1) \<or>
   record_bytes meta (slot_of meta 1) + slot_bytes meta \<le> record_bytes meta (slot_of meta 0)"
proof -
  have b: "busy (rs_prod demo_system 0) = Some (demo_args, 0)"
      "\<exists>j b. j \<noteq> 0 \<and> busy (rs_prod demo_system j) = Some (b, 1)"
    by (auto simp: demo_system_def)
  show ?thesis
    using mpsc_exclusive_slots [OF demo_system_reachable b(1) disjI1 [OF b(2)]] unfolding Let_def by blast
qed

text \<open>
  C18. A push is wait-free: from the call on, every step of the producer brings it closer to its
  return whatever the other threads do, and at most \<open>3 * 64 + 6\<close> steps are needed.
\<close>

theorem push_wait_free:
  assumes "producer_step weak meta m p = (p', meta', m')" "running p"
  shows "push_rank p' < push_rank p \<and> push_rank (PStart a) = 198"
  using push_rank_decreases [OF assms] by (simp add: shm_consts)

theorem push_wait_free_witness:
  "push_rank (fst (producer_step False (fresh_meta 2 64) [] (PLost demo_args))) < push_rank (PLost demo_args)"
  using push_wait_free [of False "fresh_meta 2 64" "[]" "PLost demo_args"] by simp



text \<open>
  Progress of the consumer: in every reachable state, the consumer's check of the slot at the head
  succeeds exactly if the next position is claimed and its producer has published it.
\<close>

theorem pop_finds_published:
  assumes "ring_reachable s" "counters_left s" "rs_cons s = CCheck out pos"
  shows "fst (consumer_step (rs_meta s) (rs_mem s) (rs_cons s)) = CCopy out pos \<longleftrightarrow>
    length (rs_popped s) < length (rs_claimed s) \<and> \<not> pending (rs_prod s) (length (rs_popped s))"
proof -
  note inv = ring_conc.reachable_inv [OF assms(1,2)]
  note c = ring_coreD [OF system_invD(1) [OF inv]]
  have pos: "pos = of_nat (length (rs_popped s))"
    using system_invD(5) [OF inv] by (simp add: assms(3))
  have "get_seq (slot_of (rs_meta s) pos) (rs_mem s) =
      of_nat (if length (rs_popped s) < length (rs_claimed s) \<and> \<not> pending (rs_prod s) (length (rs_popped s))
              then Suc (length (rs_popped s)) else length (rs_popped s))"
    unfolding pos using c(3) by (intro c(10)) (simp_all add: assms(3))
  then show ?thesis
    by (simp add: assms(3) pos add.commute)
qed

theorem pop_finds_published_witness:
  "fst (consumer_step (rs_meta demo_system) (rs_mem demo_system) (CCheck [0] 0)) \<noteq> CCopy [0] 0"
proof -
  let ?s = "demo_system\<lparr>rs_cons := CCheck [0] 0\<rparr>"
  note inv = ring_conc.reachable_inv [OF demo_system_reachable]
  have v: "valid_meta (rs_meta demo_system)" and h: "get_head (rs_mem demo_system) = 0"
    using ring_coreD(2) [OF system_invD(1) [OF inv]] system_invD(5) [OF inv]
    by (simp_all add: demo_system_def system_of_def)
  have "ring_reachable (demo_system\<lparr>rs_cons := CStart [0]\<rparr>)"
    using reach_step [OF demo_system_reachable(1) begin_pop] by (simp add: demo_system_def system_of_def)
  then have "ring_reachable ?s"
    using consumer [of "demo_system\<lparr>rs_cons := CStart [0]\<rparr>" "CCheck [0] 0" "rs_mem demo_system"] v h
    by (auto intro: reach_step)
  moreover have "counters_left ?s"
    using demo_system_reachable(2) by (simp add: counters_left_def)
  moreover have "pending (rs_prod ?s) 0"
    unfolding pending_def by (rule exI [of _ 0]) (simp add: demo_system_def)
  ultimately show ?thesis
    using pop_finds_published [of ?s "[0]" 0] by (simp add: demo_system_def system_of_def)
qed

end
