(* ===== verification/Ring_Clients.thy ===== *)
theory Ring_Clients
  imports Ring_Mpsc
begin

text \<open>
  The threads of the programs that use a ring directly, \<^verbatim>\<open>examples/ring_mpsc.cpp\<close> and
  \<^verbatim>\<open>benchmark/ring_benchmark.cpp\<close>: every producer thread pushes its list of records and tries again until a
  push succeeds; the consumer pops until it has as many records as all threads together push.
\<close>

section \<open>Clients of a ring\<close>

text \<open>
  What the loops keep besides the ring: the records a producer thread has still to push, the
  consumer's buffer, and the records it has taken.
\<close>

record client_state =
  cs_sys :: ring_system
  cs_todo :: "nat \<Rightarrow> push_args list"
  cs_scratch :: "u8 list"
  cs_got :: "(PoppedRecord \<times> u8 list) list"

definition popped_bytes :: "u8 list \<Rightarrow> PoppedRecord \<Rightarrow> PoppedRecord \<times> u8 list" where
  "popped_bytes out popped = (popped, take (unat (pr_copied_size popped)) out)"

inductive client_step :: "nat \<Rightarrow> client_state \<Rightarrow> client_state \<Rightarrow> bool" for wanted where
  start_push: "cs_todo s i = a # as \<Longrightarrow> rs_prod (cs_sys s) i = PIdle \<Longrightarrow>
    client_step wanted s (s\<lparr>cs_sys := (cs_sys s)\<lparr>rs_prod := (rs_prod (cs_sys s))(i := PStart a)\<rparr>\<rparr>)"
| push_access: "sys = cs_sys s \<Longrightarrow> running (rs_prod sys i) \<Longrightarrow>
    producer_step weak (rs_meta sys) (rs_mem sys) (rs_prod sys i) = (p', meta', m') \<Longrightarrow>
    client_step wanted s (s\<lparr>cs_sys := sys\<lparr>rs_meta := meta', rs_mem := m', rs_prod := (rs_prod sys)(i := p'),
      rs_claimed := rs_claimed sys @ map (Pair i) (claim_event (rs_prod sys i) p'),
      rs_dropped := rs_dropped sys @ map (Pair i) (drop_event (rs_prod sys i))\<rparr>\<rparr>)"
| push_returns: "sys = cs_sys s \<Longrightarrow> rs_prod sys i = PDone a e \<Longrightarrow>
    client_step wanted s (s\<lparr>cs_sys := sys\<lparr>rs_prod := (rs_prod sys)(i := PIdle), rs_returned := rs_returned sys @ [(i, a, e)]\<rparr>,
      cs_todo := (cs_todo s)(i := if is_ok e then tl (cs_todo s i) else cs_todo s i)\<rparr>)"
| start_pop: "length (cs_got s) < wanted \<Longrightarrow> rs_cons (cs_sys s) = CIdle \<Longrightarrow>
    client_step wanted s (s\<lparr>cs_sys := (cs_sys s)\<lparr>rs_cons := CStart (cs_scratch s)\<rparr>\<rparr>)"
| pop_access: "sys = cs_sys s \<Longrightarrow> consuming (rs_cons sys) \<Longrightarrow>
    consumer_step (rs_meta sys) (rs_mem sys) (rs_cons sys) = (c', m') \<Longrightarrow>
    client_step wanted s (s\<lparr>cs_sys := sys\<lparr>rs_mem := m', rs_cons := c', rs_popped := rs_popped sys @ pop_event (rs_cons sys) c'\<rparr>\<rparr>)"
| pop_fails: "rs_cons (cs_sys s) = CDone None \<Longrightarrow>
    client_step wanted s (s\<lparr>cs_sys := (cs_sys s)\<lparr>rs_cons := CIdle\<rparr>\<rparr>)"
| pop_returns: "rs_cons (cs_sys s) = CDone (Some (out, popped)) \<Longrightarrow>
    client_step wanted s (s\<lparr>cs_sys := (cs_sys s)\<lparr>rs_cons := CIdle\<rparr>, cs_scratch := out,
      cs_got := cs_got s @ [popped_bytes out popped]\<rparr>)"

inductive_cases client_stepE: "client_step wanted s t"

definition client_of :: "MpscRing \<Rightarrow> (nat \<Rightarrow> push_args list) \<Rightarrow> nat \<Rightarrow> client_state" where
  "client_of r jobs n = \<lparr>cs_sys = system_of r, cs_todo = jobs, cs_scratch = replicate n 0, cs_got = []\<rparr>"

definition client_start :: "(nat \<Rightarrow> push_args list) \<Rightarrow> nat \<Rightarrow> client_state \<Rightarrow> bool" where
  "client_start jobs n s \<longleftrightarrow> ring_start (cs_sys s) \<and> cs_todo s = jobs \<and> cs_got s = [] \<and> length (cs_scratch s) = n"

text \<open>The number of records of the first \<open>p\<close> threads.\<close>

definition job_count :: "nat \<Rightarrow> (nat \<Rightarrow> 'a list) \<Rightarrow> nat" where
  "job_count p jobs = (\<Sum>i<p. length (jobs i))"

section \<open>Invariant\<close>

fun call_args :: "producer \<Rightarrow> push_args option" where
  "call_args PIdle = None"
| "call_args (PStart a) = Some a"
| "call_args (PLoad a pos k) = Some a"
| "call_args (PReload a k) = Some a"
| "call_args (PCas a pos k) = Some a"
| "call_args (PHeader a pos) = Some a"
| "call_args (PBody a pos) = Some a"
| "call_args (PPublish a pos) = Some a"
| "call_args (PLost a) = Some a"
| "call_args (PDone a e) = Some a"

text \<open>The record the consumer has copied out and not counted yet.\<close>

fun in_hand :: "consumer \<Rightarrow> (PoppedRecord \<times> u8 list) list" where
  "in_hand (CFree out popped pos) = [popped_bytes out popped]"
| "in_hand (CHead out popped pos) = [popped_bytes out popped]"
| "in_hand (CDone (Some (out, popped))) = [popped_bytes out popped]"
| "in_hand _ = []"

fun buffer_of :: "consumer \<Rightarrow> u8 list option" where
  "buffer_of (CStart out) = Some out"
| "buffer_of (CCheck out pos) = Some out"
| "buffer_of (CCopy out pos) = Some out"
| "buffer_of (CFree out popped pos) = Some out"
| "buffer_of (CHead out popped pos) = Some out"
| "buffer_of (CDone (Some (out, popped))) = Some out"
| "buffer_of _ = None"

definition client_inv :: "(nat \<Rightarrow> push_args list) \<Rightarrow> nat \<Rightarrow> client_state \<Rightarrow> bool" where
  "client_inv jobs n s \<longleftrightarrow>
     ring_reachable (cs_sys s) \<and>
     (\<forall>i. jobs i = returns_of i Ok (rs_returned (cs_sys s)) @ cs_todo s i) \<and>
     (\<forall>i a. call_args (rs_prod (cs_sys s) i) = Some a \<longrightarrow> (\<exists>as. cs_todo s i = a # as)) \<and>
     map snd (rs_popped (cs_sys s)) = cs_got s @ in_hand (rs_cons (cs_sys s)) \<and>
     (\<forall>d \<in> set (rs_popped (cs_sys s)). fst d = n) \<and> length (cs_scratch s) = n \<and>
     (\<forall>out. buffer_of (rs_cons (cs_sys s)) = Some out \<longrightarrow> length out = n)"

lemma copy_record_length:
  assumes "copy_record meta pos out m = (out', popped)"
  shows "length out' = length out"
proof -
  obtain off k where out': "out' = store_bytes 0 (load_bytes off (unat (of_nat (min (length out) k) :: u32)) m) out"
    using assms by (auto simp: copy_record_def Let_def)
  have "unat (of_nat (min (length out) k) :: u32) \<le> length out"
    by (rule order_trans [where y = "min (length out) k"]) (simp_all only: unat_of_nat mod_less_eq_dividend min.cobounded1)
  then have "length (load_bytes off (unat (of_nat (min (length out) k) :: u32)) m) \<le> length out"
    unfolding load_bytes_def length_take by (rule min.coboundedI2)
  then show ?thesis
    unfolding out' store_bytes_def by simp
qed

lemma producer_step_args:
  "producer_step weak meta m p = (p', meta', m') \<Longrightarrow> call_args p' = call_args p"
  by (cases "(weak, meta, m, p)" rule: producer_step.cases)
    (auto simp: Let_def atomic_compare_exchange_weak_u64_def split: if_splits)

text \<open>A push changes the lost counter of the metadata and nothing else of it.\<close>

lemma producer_step_meta:
  "producer_step weak meta m p = (p', meta', m') \<Longrightarrow> meta'\<lparr>lost_count := 0\<rparr> = meta\<lparr>lost_count := 0\<rparr>"
  by (cases "(weak, meta, m, p)" rule: producer_step.cases) (auto simp: Let_def split: if_splits prod.splits bool.splits)

lemma consumer_step_hand:
  assumes "consumer_step meta m c = (c', m')" "consuming c"
  shows "in_hand c' = in_hand c @ map snd (pop_event c c')"
    "map fst (pop_event c c') \<noteq> [] \<Longrightarrow> \<exists>out. buffer_of c = Some out \<and> map fst (pop_event c c') = [length out]"
    "buffer_of c' = Some out' \<Longrightarrow> \<exists>out. buffer_of c = Some out \<and> length out = length out'"
  using assms copy_record_length
  by (cases "(meta, m, c)" rule: consumer_step.cases; force simp: popped_bytes_def split: if_splits prod.splits)+

text \<open>Every step of the programs is a step of the ring.\<close>

lemma client_ring_step: "client_step wanted s t \<Longrightarrow> ring_step (cs_sys s) (cs_sys t)"
  by (induction rule: client_step.induct) (auto intro: ring_step.intros)

interpretation clients: step_invariant "client_start jobs n" "client_step wanted" "client_inv jobs n" for jobs n wanted
proof
  fix s
  assume "client_start jobs n s"
  then have "ring_start (cs_sys s)" "ring_reachable (cs_sys s)" "cs_todo s = jobs" "cs_got s = []" "length (cs_scratch s) = n"
    by (auto simp: client_start_def intro: reach_start)
  then show "client_inv jobs n s"
    by (auto simp: client_inv_def ring_start_def system_of_def)
next
  fix s t
  assume inv: "client_inv jobs n s" and step: "client_step wanted s t"
  have reach: "ring_reachable (cs_sys t)"
    using inv client_ring_step [OF step] by (auto simp: client_inv_def intro: reach_step)
  from step show "client_inv jobs n t"
  proof (cases rule: client_step.cases)
    case (push_access sys i weak p' meta' m')
    then show ?thesis
      using inv reach producer_step_args [OF push_access(4)] by (simp add: client_inv_def)
  next
    case (push_returns sys i a e)
    then obtain as where "cs_todo s i = a # as"
      using inv by (auto simp: client_inv_def) (metis call_args.simps(10))
    then show ?thesis
      using inv reach push_returns by (auto simp: client_inv_def is_ok_def)
  next
    case (pop_access sys c' m')
    note h = consumer_step_hand [OF pop_access(4,3)]
    have "\<forall>d \<in> set (pop_event (rs_cons sys) c'). fst d = n"
    proof
      fix d
      assume "d \<in> set (pop_event (rs_cons sys) c')"
      then show "fst d = n"
        using h(2) inv pop_access(2) by (cases "pop_event (rs_cons sys) c'") (auto simp: client_inv_def)
    qed
    then show ?thesis
      using inv reach pop_access h(1,3) by (auto simp: client_inv_def)
  qed (use inv reach in \<open>auto simp: client_inv_def\<close>)
qed

section \<open>Counting\<close>

lemma claims_count:
  assumes "\<forall>x \<in> set xs. fst x < p"
  shows "(\<Sum>i<p. length (claims_of i xs)) = length xs"
  using assms
proof (induction xs)
  case (Cons x xs)
  obtain j a where x: "x = (j, a)"
    by fastforce
  have "(\<Sum>i<p. length (claims_of i (x # xs))) = (\<Sum>i<p. length (claims_of i xs) + (if i = j then 1 else 0))"
    by (intro sum.cong) (auto simp: x)
  then show ?case
    using Cons x by (simp add: sum.distrib)
qed simp

text \<open>What a thread has claimed is the beginning of its list; the claims of all threads are no more than the lists.\<close>

lemma client_claims:
  assumes "client_inv jobs n s"
  shows "\<exists>rest. jobs i = claims_of i (rs_claimed (cs_sys s)) @ rest"
proof -
  have "claims_of i (rs_claimed (cs_sys s)) = returns_of i Ok (rs_returned (cs_sys s)) @ in_flight Ok (rs_prod (cs_sys s) i)"
    using ring_log.unbounded.reachable_inv [of "cs_sys s"] assms by (simp add: client_inv_def log_inv_def)
  moreover have "\<exists>rest. cs_todo s i = in_flight Ok (rs_prod (cs_sys s) i) @ rest"
    using assms by (cases "rs_prod (cs_sys s) i") (auto simp: client_inv_def split: if_splits; metis call_args.simps append_Cons append_Nil)+
  ultimately show ?thesis
    using assms by (auto simp: client_inv_def)
qed

lemma client_claimants:
  assumes inv: "client_inv jobs n s" and none: "\<forall>i \<ge> p. jobs i = []"
  shows "\<forall>x \<in> set (rs_claimed (cs_sys s)). fst x < p"
proof
  fix x
  assume "x \<in> set (rs_claimed (cs_sys s))"
  then have "claims_of (fst x) (rs_claimed (cs_sys s)) \<noteq> []"
    by (auto simp: claims_of_def filter_empty_conv)
  then show "fst x < p"
    using client_claims [OF inv, of "fst x"] none by (metis Nil_is_append_conv not_le)
qed

lemma client_counts:
  assumes inv: "client_inv jobs n s" and none: "\<forall>i \<ge> p. jobs i = []"
  shows "length (rs_claimed (cs_sys s)) \<le> job_count p jobs"
    "length (rs_claimed (cs_sys s)) = job_count p jobs \<Longrightarrow> claims_of i (rs_claimed (cs_sys s)) = jobs i"
proof -
  let ?xs = "rs_claimed (cs_sys s)"
  have le: "length (claims_of i ?xs) \<le> length (jobs i)" for i
    using client_claims [OF inv, of i] by auto
  note count = claims_count [OF client_claimants [OF inv none]]
  show "length ?xs \<le> job_count p jobs"
    unfolding job_count_def count [symmetric] by (intro sum_mono le)
  assume "length ?xs = job_count p jobs"
  then have "(\<Sum>i<p. length (claims_of i ?xs)) = (\<Sum>i<p. length (jobs i))"
    using count by (simp add: job_count_def)
  from sum_mono_inv [OF this le] have "length (claims_of i ?xs) = length (jobs i)" if "i < p"
    using that by simp
  moreover have "length (claims_of i ?xs) = length (jobs i)" if "\<not> i < p"
    using that none le [of i] by simp
  ultimately have "length (claims_of i ?xs) = length (jobs i)"
    by blast
  then show "claims_of i ?xs = jobs i"
    using client_claims [OF inv, of i] by auto
qed

text \<open>The record of a push as a buffer of \<open>n\<close> bytes gets it.\<close>

definition received :: "nat \<Rightarrow> RecordRingMeta \<Rightarrow> push_args \<Rightarrow> PoppedRecord \<times> u8 list" where
  "received n meta a = (popped_of n (args_record meta a), take n (sr_data (args_record meta a)))"

lemma received_records:
  assumes "ring_reachable sys" "counters_left sys" "\<forall>d \<in> set (rs_popped sys). fst d = n"
  shows "map snd (rs_popped sys) = map (received n (rs_meta sys) \<circ> snd) (take (length (rs_popped sys)) (rs_claimed sys))"
    "length (rs_popped sys) \<le> length (rs_claimed sys)"
proof -
  note inv = ring_conc.reachable_inv [OF assms(1,2)]
  show le: "length (rs_popped sys) \<le> length (rs_claimed sys)"
    using ring_coreD [OF system_invD(1) [OF inv]] by simp
  have "snd (rs_popped sys ! k) = received n (rs_meta sys) (snd (rs_claimed sys ! k))" if "k < length (rs_popped sys)" for k
  proof -
    have "fst (rs_popped sys ! k) = n"
      using assms(3) nth_mem [OF that] by blast
    then show ?thesis
      using list_all2_nthD [OF system_invD(6) [OF inv] that] that
      by (auto simp: delivery_ok_def received_def claimed_record_def split: prod.splits)
  qed
  then show "map snd (rs_popped sys) = map (received n (rs_meta sys) \<circ> snd) (take (length (rs_popped sys)) (rs_claimed sys))"
    using le by (intro nth_equalityI) simp_all
qed

lemma client_counters:
  assumes "client_inv jobs n s" "\<forall>i \<ge> p. jobs i = []" "job_count p jobs < 2 ^ 62"
  shows "counters_left (cs_sys s)"
  using client_counts(1) [OF assms(1,2)] assms(3) unat_lt_32 [of "record_max (rs_meta (cs_sys s))"] by (simp add: counters_left_def)

lemma client_got:
  assumes "client_inv jobs n s" "\<forall>i \<ge> p. jobs i = []" "job_count p jobs < 2 ^ 62"
  shows "cs_got s = map (received n (rs_meta (cs_sys s)) \<circ> snd) (take (length (cs_got s)) (rs_claimed (cs_sys s)))"
    "length (cs_got s) \<le> length (rs_claimed (cs_sys s))"
proof -
  let ?sys = "cs_sys s"
  have r: "ring_reachable ?sys" and popped: "map snd (rs_popped ?sys) = cs_got s @ in_hand (rs_cons ?sys)"
      and n: "\<forall>d \<in> set (rs_popped ?sys). fst d = n"
    using assms(1) by (simp_all add: client_inv_def)
  note d = received_records [OF r client_counters [OF assms] n]
  have le: "length (cs_got s) \<le> length (rs_popped ?sys)"
    using arg_cong [OF popped, of length] by simp
  then show "length (cs_got s) \<le> length (rs_claimed ?sys)"
    using d(2) by simp
  have "cs_got s = take (length (cs_got s)) (map snd (rs_popped ?sys))"
    by (simp add: popped)
  also have "\<dots> = map (received n (rs_meta ?sys) \<circ> snd) (take (length (cs_got s)) (rs_claimed ?sys))"
    unfolding d(1) using le by (simp add: take_map min_def)
  finally show "cs_got s = map (received n (rs_meta ?sys) \<circ> snd) (take (length (cs_got s)) (rs_claimed ?sys))" .
qed

text \<open>
  C15. The programs that share a ring between threads deliver every record exactly once: in every
  interleaving, the consumer has the first records in the order of the claims, and what each
  producer has claimed is the beginning of its list, in order. When the consumer's loop ends, it has
  all records of all producers.
\<close>

theorem clients_deliver:
  assumes reach: "reachable (client_start jobs n) (client_step (job_count p jobs)) s"
    and jobs: "\<forall>i \<ge> p. jobs i = []" "job_count p jobs < 2 ^ 62"
  shows "\<exists>order. cs_got s = map (received n (rs_meta (cs_sys s)) \<circ> snd) (take (length (cs_got s)) order) \<and>
    length (cs_got s) \<le> length order \<and> (\<forall>i. \<exists>rest. jobs i = claims_of i order @ rest) \<and>
    (length (cs_got s) = job_count p jobs \<longrightarrow> length order = length (cs_got s) \<and> (\<forall>i. claims_of i order = jobs i))"
proof -
  note inv = clients.unbounded.reachable_inv [OF reach TrueI]
  show ?thesis
    using client_got [OF inv jobs] client_counts [OF inv jobs(1)] client_claims [OF inv]
    by (intro exI [of _ "rs_claimed (cs_sys s)"]) auto
qed

section \<open>The programs can always end\<close>

abbreviation client_steps :: "nat \<Rightarrow> client_state \<Rightarrow> client_state \<Rightarrow> bool" where
  "client_steps wanted \<equiv> (client_step wanted)\<^sup>*\<^sup>*"

lemma client_steps_inv: "client_steps wanted s t \<Longrightarrow> client_inv jobs n s \<Longrightarrow> client_inv jobs n t"
  by (induction rule: rtranclp_induct) (auto intro: clients.step_inv)

lemma call_args_done: "call_args p = Some a \<Longrightarrow> \<not> running p \<Longrightarrow> \<exists>e. p = PDone a e"
  by (cases p) auto

lemma push_finishes:
  assumes "call_args (rs_prod (cs_sys s) i) = Some a"
  shows "\<exists>t. client_steps wanted s t \<and> rs_prod (cs_sys t) = (rs_prod (cs_sys s))(i := PIdle) \<and>
    rs_cons (cs_sys t) = rs_cons (cs_sys s) \<and> cs_got t = cs_got s \<and> length (rs_claimed (cs_sys s)) \<le> length (rs_claimed (cs_sys t))"
  using assms
proof (induction "push_rank (rs_prod (cs_sys s) i)" arbitrary: s rule: less_induct)
  case less
  let ?sys = "cs_sys s"
  show ?case
  proof (cases "running (rs_prod ?sys i)")
    case True
    obtain p' meta' m' where p: "producer_step False (rs_meta ?sys) (rs_mem ?sys) (rs_prod ?sys i) = (p', meta', m')"
      by (metis prod_cases3)
    let ?t = "s\<lparr>cs_sys := ?sys\<lparr>rs_meta := meta', rs_mem := m', rs_prod := (rs_prod ?sys)(i := p'),
      rs_claimed := rs_claimed ?sys @ map (Pair i) (claim_event (rs_prod ?sys i) p'),
      rs_dropped := rs_dropped ?sys @ map (Pair i) (drop_event (rs_prod ?sys i))\<rparr>\<rparr>"
    have step: "client_step wanted s ?t"
      by (rule push_access [OF refl True p])
    obtain t where t: "client_steps wanted ?t t" "rs_prod (cs_sys t) = (rs_prod (cs_sys ?t))(i := PIdle)"
        "rs_cons (cs_sys t) = rs_cons (cs_sys ?t)" "cs_got t = cs_got ?t"
        "length (rs_claimed (cs_sys ?t)) \<le> length (rs_claimed (cs_sys t))"
      using less(1) [of ?t] push_rank_decreases [OF p True] producer_step_args [OF p] less(2) by auto
    show ?thesis
      using converse_rtranclp_into_rtranclp [of "client_step wanted", OF step t(1)] t(2-5) by (intro exI [of _ t]) simp
  next
    case False
    then obtain e where d: "rs_prod ?sys i = PDone a e"
      using call_args_done less(2) by blast
    show ?thesis
      using push_returns [OF refl d, of wanted] by (intro exI conjI, rule r_into_rtranclp) auto
  qed
qed

lemma pushes_finish:
  "\<exists>t. client_steps wanted s t \<and> (\<forall>i. rs_prod (cs_sys t) i = (if i < p then PIdle else rs_prod (cs_sys s) i)) \<and>
    rs_cons (cs_sys t) = rs_cons (cs_sys s) \<and> cs_got t = cs_got s \<and> length (rs_claimed (cs_sys s)) \<le> length (rs_claimed (cs_sys t))"
proof (induction p)
  case (Suc p)
  then obtain t where t: "client_steps wanted s t" "\<forall>i. rs_prod (cs_sys t) i = (if i < p then PIdle else rs_prod (cs_sys s) i)"
    "rs_cons (cs_sys t) = rs_cons (cs_sys s)" "cs_got t = cs_got s" "length (rs_claimed (cs_sys s)) \<le> length (rs_claimed (cs_sys t))"
    by blast
  show ?case
  proof (cases "call_args (rs_prod (cs_sys t) p)")
    case None
    then have "rs_prod (cs_sys t) p = PIdle"
      by (cases "rs_prod (cs_sys t) p") simp_all
    then show ?thesis
      using t by (intro exI [of _ t]) (auto simp: less_Suc_eq)
  next
    case (Some a)
    obtain u where u: "client_steps wanted t u" "rs_prod (cs_sys u) = (rs_prod (cs_sys t))(p := PIdle)"
      "rs_cons (cs_sys u) = rs_cons (cs_sys t)" "cs_got u = cs_got t" "length (rs_claimed (cs_sys t)) \<le> length (rs_claimed (cs_sys u))"
      using push_finishes [OF Some] by blast
    show ?thesis
      using rtranclp_trans [of "client_step wanted", OF t(1) u(1)] t(2-5) u(2-5) by (intro exI [of _ u]) (auto simp: less_Suc_eq)
  qed
qed auto

fun pop_rank :: "consumer \<Rightarrow> nat" where
  "pop_rank (CStart out) = 5"
| "pop_rank (CCheck out pos) = 4"
| "pop_rank (CCopy out pos) = 3"
| "pop_rank (CFree out popped pos) = 2"
| "pop_rank (CHead out popped pos) = 1"
| "pop_rank _ = 0"

lemma pop_rank_decreases: "consumer_step meta m c = (c', m') \<Longrightarrow> consuming c \<Longrightarrow> pop_rank c' < pop_rank c"
  by (cases "(meta, m, c)" rule: consumer_step.cases) (auto split: if_splits prod.splits)

lemma pop_finishes:
  "\<exists>t. client_steps wanted s t \<and> rs_cons (cs_sys t) = CIdle \<and> rs_prod (cs_sys t) = rs_prod (cs_sys s) \<and>
    rs_claimed (cs_sys t) = rs_claimed (cs_sys s) \<and> length (cs_got s) + length (in_hand (rs_cons (cs_sys s))) \<le> length (cs_got t)"
proof (induction "pop_rank (rs_cons (cs_sys s))" arbitrary: s rule: less_induct)
  case less
  let ?sys = "cs_sys s"
  consider "consuming (rs_cons ?sys)" | "rs_cons ?sys = CIdle" | "rs_cons ?sys = CDone None" |
    out popped where "rs_cons ?sys = CDone (Some (out, popped))"
    by (cases "rs_cons ?sys" rule: consuming.cases) (auto, metis option.exhaust surj_pair)
  then show ?case
  proof cases
    case 1
    obtain c' m' where c: "consumer_step (rs_meta ?sys) (rs_mem ?sys) (rs_cons ?sys) = (c', m')"
      by fastforce
    let ?t = "s\<lparr>cs_sys := ?sys\<lparr>rs_mem := m', rs_cons := c', rs_popped := rs_popped ?sys @ pop_event (rs_cons ?sys) c'\<rparr>\<rparr>"
    have step: "client_step wanted s ?t"
      by (rule pop_access [OF refl 1 c])
    obtain t where t: "client_steps wanted ?t t" "rs_cons (cs_sys t) = CIdle" "rs_prod (cs_sys t) = rs_prod (cs_sys ?t)"
        "rs_claimed (cs_sys t) = rs_claimed (cs_sys ?t)" "length (cs_got ?t) + length (in_hand (rs_cons (cs_sys ?t))) \<le> length (cs_got t)"
      using less(1) [of ?t] pop_rank_decreases [OF c 1] by auto
    show ?thesis
      using converse_rtranclp_into_rtranclp [of "client_step wanted", OF step t(1)] t(2-5) consumer_step_hand(1) [OF c 1]
      by (intro exI [of _ t]) simp
  next
    case 2
    then show ?thesis by (intro exI [of _ s]) simp
  next
    case 3
    show ?thesis
      using pop_fails [OF 3, of wanted] by (intro exI conjI, rule r_into_rtranclp) (auto simp: 3)
  next
    case 4
    show ?thesis
      using pop_returns [OF 4, of wanted] by (intro exI conjI, rule r_into_rtranclp) (auto simp: 4)
  qed
qed

text \<open>No call in progress.\<close>

definition quiet :: "client_state \<Rightarrow> bool" where
  "quiet s \<longleftrightarrow> rs_cons (cs_sys s) = CIdle \<and> (\<forall>i. rs_prod (cs_sys s) i = PIdle)"

lemma becomes_quiet:
  assumes inv: "client_inv jobs n s" and jobs: "\<forall>i \<ge> p. jobs i = []"
  shows "\<exists>t. client_steps wanted s t \<and> quiet t \<and> length (cs_got s) + length (in_hand (rs_cons (cs_sys s))) \<le> length (cs_got t) \<and>
    length (rs_claimed (cs_sys s)) \<le> length (rs_claimed (cs_sys t))"
proof -
  obtain t where t: "client_steps wanted s t" "rs_cons (cs_sys t) = CIdle" "rs_prod (cs_sys t) = rs_prod (cs_sys s)"
      "rs_claimed (cs_sys t) = rs_claimed (cs_sys s)" "length (cs_got s) + length (in_hand (rs_cons (cs_sys s))) \<le> length (cs_got t)"
    using pop_finishes by blast
  obtain u where u: "client_steps wanted t u" "\<forall>i. rs_prod (cs_sys u) i = (if i < p then PIdle else rs_prod (cs_sys t) i)"
      "rs_cons (cs_sys u) = rs_cons (cs_sys t)" "cs_got u = cs_got t" "length (rs_claimed (cs_sys t)) \<le> length (rs_claimed (cs_sys u))"
    using pushes_finish by blast
  have "rs_prod (cs_sys s) i = PIdle" if "p \<le> i" for i
  proof -
    have "cs_todo s i = []"
      using inv jobs that by (auto simp: client_inv_def)
    then have "call_args (rs_prod (cs_sys s) i) = None"
      using inv by (cases "call_args (rs_prod (cs_sys s) i)") (auto simp: client_inv_def, fastforce)
    then show ?thesis
      by (cases "rs_prod (cs_sys s) i") simp_all
  qed
  then show ?thesis
    using rtranclp_trans [of "client_step wanted", OF t(1) u(1)] t(2-5) u(2-5) by (intro exI [of _ u]) (simp add: quiet_def)
qed

text \<open>From a quiet state with records left to take, the consumer can take one.\<close>

lemma quiet_pops:
  assumes inv: "client_inv jobs n s" and quiet: "quiet s" and c: "counters_left (cs_sys s)"
    and more: "length (cs_got s) < length (rs_claimed (cs_sys s))" "length (cs_got s) < wanted"
  shows "\<exists>t. client_steps wanted s t \<and> in_hand (rs_cons (cs_sys t)) \<noteq> [] \<and> cs_got t = cs_got s"
proof -
  let ?sys = "cs_sys s" and ?h = "length (rs_popped (cs_sys s))"
  let ?at = "\<lambda>c. s\<lparr>cs_sys := ?sys\<lparr>rs_cons := c\<rparr>\<rparr>"
  have idle: "rs_cons ?sys = CIdle" and none: "\<not> pending (rs_prod ?sys) k" for k
    using quiet by (auto simp: quiet_def pending_def)
  have reach: "ring_reachable ?sys" and got: "map snd (rs_popped ?sys) = cs_got s"
    using inv by (simp_all add: client_inv_def idle)
  have h: "?h < length (rs_claimed ?sys)"
    using more(1) arg_cong [OF got, of length] by simp
  note sinv = ring_conc.reachable_inv [OF reach c]
  note core = ring_coreD [OF system_invD(1) [OF sinv]]
  have head: "get_head (rs_mem ?sys) = of_nat ?h"
    using system_invD(5) [OF sinv] by (simp add: idle)
  have seq: "get_seq (slot_of (rs_meta ?sys) (of_nat ?h)) (rs_mem ?sys) = of_nat (Suc ?h)"
    using core(10) [of ?h] core(3) h none by (simp add: idle)
  obtain out' popped where copy: "copy_record (rs_meta ?sys) (of_nat ?h) (cs_scratch s) (rs_mem ?sys) = (out', popped)"
    by fastforce
  have "client_step wanted s (?at (CStart (cs_scratch s)))"
    using start_pop [OF more(2) idle] .
  moreover have "client_step wanted (?at (CStart (cs_scratch s))) (?at (CCheck (cs_scratch s) (of_nat ?h)))"
    using pop_access [OF refl, of "?at (CStart (cs_scratch s))" "CCheck (cs_scratch s) (of_nat ?h)" "rs_mem ?sys" wanted] core(2) head by simp
  moreover have "client_step wanted (?at (CCheck (cs_scratch s) (of_nat ?h))) (?at (CCopy (cs_scratch s) (of_nat ?h)))"
    using pop_access [OF refl, of "?at (CCheck (cs_scratch s) (of_nat ?h))" "CCopy (cs_scratch s) (of_nat ?h)" "rs_mem ?sys" wanted] seq by simp
  moreover have "\<exists>t. client_step wanted (?at (CCopy (cs_scratch s) (of_nat ?h))) t \<and> rs_cons (cs_sys t) = CFree out' popped (of_nat ?h) \<and> cs_got t = cs_got s"
    using pop_access [OF refl, of "?at (CCopy (cs_scratch s) (of_nat ?h))" "CFree out' popped (of_nat ?h)" "rs_mem ?sys" wanted] copy by fastforce
  ultimately show ?thesis
    by (metis (no_types, lifting) converse_rtranclp_into_rtranclp rtranclp.rtrancl_refl in_hand.simps(1) list.distinct(1))
qed

text \<open>From a quiet state with an empty ring, a producer with records left can claim a slot.\<close>

lemma quiet_claims:
  assumes inv: "client_inv jobs n s" and quiet: "quiet s" and c: "counters_left (cs_sys s)"
    and empty: "length (cs_got s) = length (rs_claimed (cs_sys s))" and todo: "cs_todo s i = a # as"
  shows "\<exists>t. client_steps wanted s t \<and> length (rs_claimed (cs_sys s)) < length (rs_claimed (cs_sys t)) \<and> cs_got t = cs_got s"
proof -
  let ?sys = "cs_sys s" and ?t = "length (rs_claimed (cs_sys s))"
  define pos :: u64 where "pos = of_nat ?t"
  let ?at = "\<lambda>p. s\<lparr>cs_sys := ?sys\<lparr>rs_prod := (rs_prod ?sys)(i := p)\<rparr>\<rparr>"
  let ?u = "s\<lparr>cs_sys := ?sys\<lparr>rs_mem := put_tail (pos + 1) (rs_mem ?sys), rs_prod := (rs_prod ?sys)(i := PHeader a pos),
    rs_claimed := rs_claimed ?sys @ [(i, a)]\<rparr>\<rparr>"
  have idle: "rs_cons ?sys = CIdle" "rs_prod ?sys i = PIdle"
    using quiet by (auto simp: quiet_def)
  have reach: "ring_reachable ?sys" and got: "map snd (rs_popped ?sys) = cs_got s"
    using inv by (simp_all add: client_inv_def idle)
  have h: "length (rs_popped ?sys) = ?t"
    using empty arg_cong [OF got, of length] by simp
  note core = ring_coreD [OF system_invD(1) [OF ring_conc.reachable_inv [OF reach c]]]
  have seq: "get_seq (slot_of (rs_meta ?sys) pos) (rs_mem ?sys) = pos"
    using core(10) [of ?t] core(3) h by (simp add: idle pos_def)
  have tail: "get_tail (rs_mem ?sys) = pos"
    using core(9) by (simp add: pos_def)
  obtain k where k: "MPSC_CAS_RETRY_BUDGET = Suc k"
    by (simp add: shm_consts)
  have "client_step wanted s (?at (PStart a))"
    using start_push [OF todo idle(2)] .
  moreover have "client_step wanted (?at (PStart a)) (?at (PLoad a pos (Suc k)))"
    using push_access [OF refl, of "?at (PStart a)" i False "PLoad a pos (Suc k)" "rs_meta ?sys" "rs_mem ?sys" wanted] core(2) tail k by simp
  moreover have "client_step wanted (?at (PLoad a pos (Suc k))) (?at (PCas a pos k))"
    using push_access [OF refl, of "?at (PLoad a pos (Suc k))" i False "PCas a pos k" "rs_meta ?sys" "rs_mem ?sys" wanted] seq
    by (simp add: seq_diff_def)
  moreover have "client_step wanted (?at (PCas a pos k)) ?u"
    using push_access [OF refl, of "?at (PCas a pos k)" i False "PHeader a pos" "rs_meta ?sys" "put_tail (pos + 1) (rs_mem ?sys)" wanted] tail
    by (simp add: atomic_compare_exchange_weak_u64_def)
  moreover have "length (rs_claimed (cs_sys ?u)) = Suc ?t" "cs_got ?u = cs_got s"
    by simp_all
  ultimately show ?thesis
    by (metis (no_types, lifting) converse_rtranclp_into_rtranclp rtranclp.rtrancl_refl lessI)
qed

text \<open>Some thread has records left as long as not all are claimed.\<close>

lemma client_work_left:
  assumes inv: "client_inv jobs n s" and jobs: "\<forall>i \<ge> p. jobs i = []" and less: "length (rs_claimed (cs_sys s)) < job_count p jobs"
  shows "\<exists>i a as. cs_todo s i = a # as"
proof (rule ccontr)
  assume "\<not> ?thesis"
  then have none: "cs_todo s i = []" for i
    by (metis neq_Nil_conv)
  have "length (jobs i) \<le> length (claims_of i (rs_claimed (cs_sys s)))" for i
  proof -
    have "claims_of i (rs_claimed (cs_sys s)) = returns_of i Ok (rs_returned (cs_sys s)) @ in_flight Ok (rs_prod (cs_sys s) i)"
      using ring_log.unbounded.reachable_inv [of "cs_sys s"] inv by (simp add: client_inv_def log_inv_def)
    moreover have "jobs i = returns_of i Ok (rs_returned (cs_sys s))"
      using inv none [of i] by (auto simp: client_inv_def)
    ultimately show ?thesis
      by simp
  qed
  then have "job_count p jobs \<le> (\<Sum>i<p. length (claims_of i (rs_claimed (cs_sys s))))"
    unfolding job_count_def by (intro sum_mono)
  then show False
    using less claims_count [OF client_claimants [OF inv jobs]] by simp
qed

lemma quiet_advances:
  assumes inv: "client_inv jobs n s" and quiet: "quiet s" and jobs: "\<forall>i \<ge> p. jobs i = []" "job_count p jobs < 2 ^ 62"
    and more: "length (cs_got s) < job_count p jobs"
  shows "\<exists>t. client_steps (job_count p jobs) s t \<and> quiet t \<and> length (cs_got s) < length (cs_got t)"
proof -
  let ?w = "job_count p jobs"
  have claimed: "\<exists>u. client_steps ?w s u \<and> quiet u \<and> length (cs_got s) \<le> length (cs_got u) \<and> length (cs_got s) < length (rs_claimed (cs_sys u))"
  proof (cases "length (cs_got s) < length (rs_claimed (cs_sys s))")
    case False
    then have empty: "length (cs_got s) = length (rs_claimed (cs_sys s))"
      using client_got(2) [OF inv jobs] by simp
    obtain i a as where "cs_todo s i = a # as"
      using client_work_left [OF inv jobs(1)] more empty by auto
    from quiet_claims [OF inv quiet client_counters [OF inv jobs] empty this] obtain t where
      t: "client_steps ?w s t" "length (rs_claimed (cs_sys s)) < length (rs_claimed (cs_sys t))" "cs_got t = cs_got s"
      by blast
    obtain u where "client_steps ?w t u" "quiet u" "length (cs_got t) \<le> length (cs_got u)" "length (rs_claimed (cs_sys t)) \<le> length (rs_claimed (cs_sys u))"
      using becomes_quiet [OF client_steps_inv [OF t(1) inv] jobs(1)] by (meson add_leE)
    then show ?thesis
      using t empty by (intro exI [of _ u]) (auto intro: rtranclp_trans)
  qed (use quiet in blast)
  then obtain u where u: "client_steps ?w s u" "quiet u" "length (cs_got s) \<le> length (cs_got u)" "length (cs_got s) < length (rs_claimed (cs_sys u))"
    by blast
  note uinv = client_steps_inv [OF u(1) inv]
  show ?thesis
  proof (cases "length (cs_got s) < length (cs_got u)")
    case False
    then have "length (cs_got u) < length (rs_claimed (cs_sys u))" "length (cs_got u) < ?w"
      using u(3,4) more by simp_all
    from quiet_pops [OF uinv u(2) client_counters [OF uinv jobs] this] obtain t where
      t: "client_steps ?w u t" "in_hand (rs_cons (cs_sys t)) \<noteq> []" "cs_got t = cs_got u"
      by blast
    obtain v where v: "client_steps ?w t v" "quiet v" "length (cs_got t) + length (in_hand (rs_cons (cs_sys t))) \<le> length (cs_got v)"
      using becomes_quiet [OF client_steps_inv [OF t(1) uinv] jobs(1)] by blast
    have "client_steps ?w s v"
      using u(1) t(1) v(1) by (meson rtranclp_trans)
    then show ?thesis
      using v(2,3) t(2,3) u(3) by (intro exI [of _ v]) (cases "in_hand (rs_cons (cs_sys t))"; simp)
  qed (use u in blast)
qed

lemma clients_finish:
  assumes inv: "client_inv jobs n s" and jobs: "\<forall>i \<ge> p. jobs i = []" "job_count p jobs < 2 ^ 62"
  shows "\<exists>t. client_steps (job_count p jobs) s t \<and> quiet t \<and> length (cs_got t) = job_count p jobs"
proof -
  let ?w = "job_count p jobs"
  obtain s1 where s1: "client_steps ?w s s1" "quiet s1"
    using becomes_quiet [OF inv jobs(1)] by blast
  have "client_inv jobs n s1 \<Longrightarrow> quiet s1 \<Longrightarrow> \<exists>t. client_steps ?w s1 t \<and> quiet t \<and> length (cs_got t) = ?w"
  proof (induction "?w - length (cs_got s1)" arbitrary: s1 rule: less_induct)
    case less
    show ?case
    proof (cases "length (cs_got s1) < ?w")
      case True
      obtain t where t: "client_steps ?w s1 t" "quiet t" "length (cs_got s1) < length (cs_got t)"
        using quiet_advances [OF less(2,3) jobs True] by blast
      have "?w - length (cs_got t) < ?w - length (cs_got s1)"
        using t(3) True by (rule diff_less_mono2)
      from less(1) [OF this client_steps_inv [OF t(1) less(2)] t(2)] show ?thesis
        using t(1) by (meson rtranclp_trans)
    next
      case False
      then show ?thesis
        using less(3) client_got(2) [OF less(2) jobs] client_counts(1) [OF less(2) jobs(1)] by (intro exI [of _ s1]) simp
    qed
  qed
  then show ?thesis
    using s1 client_steps_inv [OF s1(1) inv] by (meson rtranclp_trans)
qed

text \<open>When the consumer has everything and no call is in progress, no thread has records left.\<close>

lemma finished_todo:
  assumes inv: "client_inv jobs n s" and jobs: "\<forall>i \<ge> p. jobs i = []" "job_count p jobs < 2 ^ 62"
    and fin: "quiet s" "length (cs_got s) = job_count p jobs"
  shows "cs_todo s i = []"
proof -
  have "length (rs_claimed (cs_sys s)) = job_count p jobs"
    using client_got(2) [OF inv jobs] client_counts(1) [OF inv jobs(1)] fin(2) by simp
  then have "claims_of i (rs_claimed (cs_sys s)) = jobs i"
    by (rule client_counts(2) [OF inv jobs(1)])
  moreover have "claims_of i (rs_claimed (cs_sys s)) = returns_of i Ok (rs_returned (cs_sys s))"
    using ring_log.unbounded.reachable_inv [of "cs_sys s"] inv fin(1) by (simp add: client_inv_def log_inv_def quiet_def)
  moreover have "jobs i = returns_of i Ok (rs_returned (cs_sys s)) @ cs_todo s i"
    using inv by (simp add: client_inv_def)
  ultimately show ?thesis
    by simp
qed

text \<open>
  C16. The programs cannot get stuck: from every state they can reach, some continuation brings the
  consumer all the records its loop waits for, and then every thread has returned from its last
  push.
\<close>

theorem clients_can_finish:
  assumes reach: "reachable (client_start jobs n) (client_step (job_count p jobs)) s"
    and jobs: "\<forall>i \<ge> p. jobs i = []" "job_count p jobs < 2 ^ 62"
  shows "\<exists>t. client_steps (job_count p jobs) s t \<and> length (cs_got t) = job_count p jobs \<and>
    (\<forall>i. cs_todo t i = [] \<and> rs_prod (cs_sys t) i = PIdle)"
proof -
  note inv = clients.unbounded.reachable_inv [OF reach TrueI]
  obtain t where t: "client_steps (job_count p jobs) s t" "quiet t" "length (cs_got t) = job_count p jobs"
    using clients_finish [OF inv jobs] by blast
  then show ?thesis
    using finished_todo [OF client_steps_inv [OF t(1) inv] jobs t(2,3)] by (auto simp: quiet_def)
qed

section \<open>A run with two threads\<close>

lemma reachable_steps: "reachable start step s \<Longrightarrow> step\<^sup>*\<^sup>* s t \<Longrightarrow> reachable start step t"
  by (rotate_tac, induction rule: rtranclp_induct) (auto intro: reach_step)

definition demo_jobs :: "nat \<Rightarrow> push_args list" where
  "demo_jobs = (\<lambda>_. [])(0 := [demo_args], 1 := [demo_args, demo_args\<lparr>pa_user := 7\<rparr>])"

lemma demo_jobs_laws: "\<forall>i \<ge> 2. demo_jobs i = []" "job_count 2 demo_jobs = 3" "job_count 2 demo_jobs < 2 ^ 62"
  "demo_jobs 0 = [demo_args]" "demo_jobs 1 = [demo_args, demo_args\<lparr>pa_user := 7\<rparr>]"
proof -
  show c: "job_count 2 demo_jobs = 3"
    by (simp add: demo_jobs_def job_count_def numeral_2_eq_2)
  show "job_count 2 demo_jobs < 2 ^ 62"
    unfolding c by simp
qed (simp_all add: demo_jobs_def)

lemma demo_client_start: "reachable (client_start demo_jobs 4) (client_step wanted) (client_of demo_ring demo_jobs 4)"
  using demo_ring_inv(1) by (intro reach_start) (auto simp: client_start_def client_of_def ring_start_def intro!: exI)

theorem clients_can_finish_witness:
  "\<exists>t. client_steps 3 (client_of demo_ring demo_jobs 4) t \<and> length (cs_got t) = 3"
  using clients_can_finish [OF demo_client_start demo_jobs_laws(1,3)] unfolding demo_jobs_laws(2) by blast

theorem clients_deliver_witness:
  "\<exists>s order. reachable (client_start demo_jobs 4) (client_step 3) s \<and>
     cs_got s = map (received 4 (rs_meta (cs_sys s)) \<circ> snd) order \<and> length order = 3 \<and> claims_of 0 order = [demo_args] \<and>
     claims_of 1 order = [demo_args, demo_args\<lparr>pa_user := 7\<rparr>]"
proof -
  note start = demo_client_start [of "job_count 2 demo_jobs"]
  obtain s where s: "client_steps (job_count 2 demo_jobs) (client_of demo_ring demo_jobs 4) s" "length (cs_got s) = 3"
    using clients_finish [OF clients.unbounded.reachable_inv [OF start TrueI] demo_jobs_laws(1,3)] unfolding demo_jobs_laws(2) by blast
  from clients_deliver [OF reachable_steps [OF start s(1)] demo_jobs_laws(1,3)] show ?thesis
    using reachable_steps [OF start s(1)] s(2) unfolding demo_jobs_laws(2)
    by (metis demo_jobs_laws(4,5) take_all order_refl)
qed

end
