(* ===== verification/Example_Threads.thy ===== *)
theory Example_Threads
  imports Example_Programs Ring_Clients
begin

text \<open>
  The programs with threads, \<^verbatim>\<open>examples/ring_mpsc.cpp\<close> and \<^verbatim>\<open>benchmark/ring_benchmark.cpp\<close>. Their
  threads run in every interleaving, so a program is a relation between its start and its ends.
\<close>

section \<open>Threads that share a ring\<close>

text \<open>The end of the consumer's loop and of every thread, which are joined.\<close>

definition threads_done :: "nat \<Rightarrow> client_state \<Rightarrow> bool" where
  "threads_done wanted s \<longleftrightarrow>
     wanted \<le> length (cs_got s) \<and> rs_cons (cs_sys s) = CIdle \<and> (\<forall>i. cs_todo s i = [] \<and> rs_prod (cs_sys s) i = PIdle)"

definition threads_run :: "MpscRing \<Rightarrow> (nat \<Rightarrow> push_args list) \<Rightarrow> nat \<Rightarrow> nat \<Rightarrow> client_state \<Rightarrow> bool" where
  "threads_run r jobs n wanted s \<longleftrightarrow>
     reachable (\<lambda>s. s = client_of r jobs n) (client_step wanted) s \<and> threads_done wanted s"

text \<open>The ring the threads leave.\<close>

definition ring_after :: "MpscRing \<Rightarrow> client_state \<Rightarrow> MpscRing" where
  "ring_after r s =
     r\<lparr>mr_meta := Some (rs_meta (cs_sys s)), mr_payload := (mr_payload r)\<lparr>sp_bytes := rs_mem (cs_sys s)\<rparr>\<rparr>"

section \<open>The ring example\<close>

definition ring_demo_name :: "u32 \<Rightarrow> string" where
  "ring_demo_name pid = ''/shmfx.app.ring_demo_'' @ int_text (sint pid)"

definition ring_demo_options :: "u32 \<Rightarrow> CreateOptions" where
  "ring_demo_options pid =
     (let stride = record_stride_for 32;
          payload_size = payload_size_for 128 stride
      in \<lparr>co_name = ring_demo_name pid, co_type = RecordRing,
          co_total_size =
            align_up (SHMFX_HEADER_SIZE + sizeof_RecordRingMeta) SHMFX_CACHE_LINE_BYTES + payload_size,
          co_meta_size = sizeof_RecordRingMeta, co_perm = 0x180, co_flags = LockfreeRing\<rparr>)"

definition ring_demo_args :: "nat \<Rightarrow> nat \<Rightarrow> push_args" where
  "ring_demo_args producer i =
     \<lparr>pa_type = of_nat producer, pa_flags = 0, pa_user = of_nat i,
      pa_payload = text_bytes (''p'' @ decimal producer @ '':'' @ decimal i)\<rparr>"

definition ring_demo_jobs :: "nat \<Rightarrow> push_args list" where
  "ring_demo_jobs producer = (if producer < 4 then map (ring_demo_args producer) [0..<16] else [])"

definition ring_demo_line :: "PoppedRecord \<times> u8 list \<Rightarrow> string" where
  "ring_demo_line = (\<lambda>(popped, bytes). ''type='' @ decimal (unat (pr_type popped)) @ '' payload='' @ byte_text bytes)"

inductive ring_mpsc_main :: "(nat \<Rightarrow> u64) \<Rightarrow> (nat \<Rightarrow> os_env) \<Rightarrow> u32 \<Rightarrow> log_world \<Rightarrow> run_result \<times> log_world \<Rightarrow> bool"
  for addr env pid lw where
  ring_create_fails: "destroy (env 0) (ring_demo_name pid) (lw_world lw) = Some (e0, w1) \<Longrightarrow>
    create_segment (env 1) (ring_demo_options pid) (lw\<lparr>lw_world := w1\<rparr>) = Some (Inl e, lw2) \<Longrightarrow>
    ring_mpsc_main addr env pid lw (\<lparr>rn_exit = 1, rn_out = [], rn_err = [''create failed: '' @ to_string e]\<rparr>, lw2)"
| ring_init_fails: "destroy (env 0) (ring_demo_name pid) (lw_world lw) = Some (e0, w1) \<Longrightarrow>
    create_segment (env 1) (ring_demo_options pid) (lw\<lparr>lw_world := w1\<rparr>) = Some (Inr h, lw2) \<Longrightarrow>
    ring_initialize (handle_span addr lw2 h) 128 32 = Inl e \<Longrightarrow>
    drop_handle (env 3) h lw2 = Some lw3 \<Longrightarrow>
    ring_mpsc_main addr env pid lw (\<lparr>rn_exit = 1, rn_out = [], rn_err = [''ring init failed: '' @ to_string e]\<rparr>, lw3)"
| ring_ends: "destroy (env 0) (ring_demo_name pid) (lw_world lw) = Some (e0, w1) \<Longrightarrow>
    create_segment (env 1) (ring_demo_options pid) (lw\<lparr>lw_world := w1\<rparr>) = Some (Inr h, lw2) \<Longrightarrow>
    ring_initialize (handle_span addr lw2 h) 128 32 = Inr r \<Longrightarrow>
    threads_run r ring_demo_jobs 64 (4 * 16) s \<Longrightarrow>
    lw3 = close_ring (view_of h r) (ring_after r s) lw2 \<Longrightarrow>
    destroy (env 2) (ring_demo_name pid) (lw_world lw3) = Some (e1, w4) \<Longrightarrow>
    drop_handle (env 3) h (lw3\<lparr>lw_world := w4\<rparr>) = Some lw5 \<Longrightarrow>
    ring_mpsc_main addr env pid lw (\<lparr>rn_exit = 0, rn_out = map ring_demo_line (cs_got s), rn_err = []\<rparr>, lw5)"

inductive_cases ring_mpsc_mainE: "ring_mpsc_main addr env pid lw res"

section \<open>The ring benchmark\<close>

text \<open>
  \<open>memalign\<close> stands for \<^verbatim>\<open>posix_memalign\<close>: the buffer for an alignment and a size, or a failure, on
  which the program aborts, without a result. The lines with measured times are left out of the output.
\<close>

definition AlignedBuffer :: "(u64 \<Rightarrow> u64 \<Rightarrow> byte_span option) \<Rightarrow> u64 \<Rightarrow> byte_span option" where
  "AlignedBuffer memalign requested_size = memalign CACHE_LINE_SIZE (align_up requested_size CACHE_LINE_SIZE)"

text \<open>The buffer after the ring was initialised in its first bytes.\<close>

definition written_storage :: "byte_span \<Rightarrow> MpscRing \<Rightarrow> byte_span" where
  "written_storage sp r = sp\<lparr>sp_bytes := store_bytes 0 (ring_bytes r) (sp_bytes sp)\<rparr>"

definition bench_jobs :: "nat \<Rightarrow> nat \<Rightarrow> nat \<Rightarrow> push_args list" where
  "bench_jobs producers per_producer producer =
     (if producer < producers
      then map (\<lambda>i. \<lparr>pa_type = of_nat producer, pa_flags = 0, pa_user = of_nat i, pa_payload = replicate 64 0x42\<rparr>) [0..<per_producer]
      else [])"

inductive ring_bench_main :: "(u64 \<Rightarrow> u64 \<Rightarrow> byte_span option) \<Rightarrow> u32 \<Rightarrow> u32 \<Rightarrow> run_result \<Rightarrow> bool"
  for memalign producers per_producer where
  bench_init_fails: "AlignedBuffer memalign (payload_size_for 65536 (record_stride_for 64)) = Some storage \<Longrightarrow>
    ring_initialize storage 65536 64 = Inl e \<Longrightarrow>
    ring_bench_main memalign producers per_producer \<lparr>rn_exit = 1, rn_out = [], rn_err = [''ring initialize failed'']\<rparr>"
| bench_bind_fails: "AlignedBuffer memalign (payload_size_for 65536 (record_stride_for 64)) = Some storage \<Longrightarrow>
    ring_initialize storage 65536 64 = Inr r0 \<Longrightarrow>
    ring_bind (ring_meta r0) (written_storage storage r0) = Inl e \<Longrightarrow>
    ring_bench_main memalign producers per_producer \<lparr>rn_exit = 1, rn_out = [], rn_err = [''ring bind failed'']\<rparr>"
| bench_ends: "AlignedBuffer memalign (payload_size_for 65536 (record_stride_for 64)) = Some storage \<Longrightarrow>
    ring_initialize storage 65536 64 = Inr r0 \<Longrightarrow>
    ring_bind (ring_meta r0) (written_storage storage r0) = Inr r \<Longrightarrow>
    threads_run r (bench_jobs (unat producers) (unat per_producer)) 64 (unat (ucast producers * ucast per_producer :: u64)) s \<Longrightarrow>
    ring_bench_main memalign producers per_producer
      \<lparr>rn_exit = 0,
        rn_out = [''producers='' @ decimal (unat producers),
                  ''records='' @ decimal (unat (ucast producers * ucast per_producer :: u64)),
                  ''lost_count='' @ decimal (unat (ring_lost_count (ring_after r s)))],
        rn_err = []\<rparr>"

inductive_cases ring_bench_mainE: "ring_bench_main memalign producers per_producer res"

section \<open>Threads\<close>

lemma threads_reachable:
  assumes start: "ring_start (system_of r)" and reach: "reachable (\<lambda>s. s = client_of r jobs n) (client_step wanted) s"
  shows "reachable (client_start jobs n) (client_step wanted) s"
  using reach
proof (induction rule: reachable.induct)
  case (reach_start s)
  then show ?case
    using start by (intro reachable.reach_start) (simp add: client_start_def client_of_def)
qed (rule reachable.reach_step)

text \<open>The steps change the lost counter of the metadata and nothing else of it.\<close>

lemma client_step_meta: "client_step wanted s t \<Longrightarrow> (rs_meta (cs_sys t))\<lparr>lost_count := 0\<rparr> = (rs_meta (cs_sys s))\<lparr>lost_count := 0\<rparr>"
  by (induction rule: client_step.induct) (simp_all add: producer_step_meta)

lemma threads_meta:
  assumes "reachable (\<lambda>s. s = client_of r jobs n) (client_step wanted) s"
  shows "max_payload_of (rs_meta (cs_sys s)) = max_payload_of (ring_meta r)"
proof -
  have "(rs_meta (cs_sys s))\<lparr>lost_count := 0\<rparr> = (ring_meta r)\<lparr>lost_count := 0\<rparr>"
    using assms by (induction rule: reachable.induct) (simp_all add: client_of_def system_of_def client_step_meta)
  then have "max_payload_of ((rs_meta (cs_sys s))\<lparr>lost_count := 0\<rparr>) = max_payload_of ((ring_meta r)\<lparr>lost_count := 0\<rparr>)"
    by simp
  then show ?thesis
    by (simp add: max_payload_of_def)
qed

lemma threads_deliver:
  assumes start: "ring_start (system_of r)" and run: "threads_run r jobs n (job_count p jobs) s"
    and jobs: "\<forall>i \<ge> p. jobs i = []" "job_count p jobs < 2 ^ 62"
  shows "\<exists>order. cs_got s = map (received n (rs_meta (cs_sys s)) \<circ> snd) order \<and> (\<forall>i. claims_of i order = jobs i) \<and>
    length order = job_count p jobs"
proof -
  have inv: "client_inv jobs n s"
    using run threads_reachable [OF start] by (intro clients.unbounded.reachable_inv [where wanted = "job_count p jobs"])
      (auto simp: threads_run_def)
  have "job_count p jobs \<le> length (cs_got s)"
    using run by (simp add: threads_run_def threads_done_def)
  then have "length (rs_claimed (cs_sys s)) = job_count p jobs" "length (cs_got s) = job_count p jobs"
    using client_got(2) [OF inv jobs] client_counts(1) [OF inv jobs(1)] by simp_all
  then show ?thesis
    using client_got(1) [OF inv jobs] client_counts(2) [OF inv jobs(1)] by (intro exI [of _ "rs_claimed (cs_sys s)"]) auto
qed

lemma threads_can_run:
  assumes start: "ring_start (system_of r)" and jobs: "\<forall>i \<ge> p. jobs i = []" "job_count p jobs < 2 ^ 62"
  shows "\<exists>s. threads_run r jobs n (job_count p jobs) s"
proof -
  let ?c = "client_of r jobs n"
  have r: "reachable (\<lambda>s. s = ?c) (client_step (job_count p jobs)) ?c"
    by (rule reach_start) simp
  note inv = clients.unbounded.reachable_inv [OF threads_reachable [OF start r] TrueI]
  obtain t where t: "client_steps (job_count p jobs) ?c t" "quiet t" "length (cs_got t) = job_count p jobs"
    using clients_finish [OF inv jobs] by blast
  show ?thesis
    using reachable_steps [OF r t(1)] t(2,3) finished_todo [OF client_steps_inv [OF t(1) inv] jobs t(2,3)]
    by (auto simp: threads_run_def threads_done_def quiet_def)
qed

section \<open>What the ring example prints\<close>

lemma ring_demo_name_parse:
  assumes "unat pid < 2 ^ 31"
  shows "parse_and_validate_name (ring_demo_name pid) =
    Inr \<lparr>pn_ns = ''app'', pn_leaf = ''ring_demo_'' @ decimal (unat pid), pn_bootstrap = False\<rparr>"
proof -
  have v: "valid_service_name ''ring_demo''"
    by (simp add: valid_service_name_def is_service_tail_char_def char_between_def)
  have "ring_demo_name pid = name_prefix @ ''app'' @ CHR ''.'' # ''ring_demo'' @ ''_'' @ decimal (unat pid)"
    using assms by (simp add: ring_demo_name_def name_prefix_def pid_text)
  then show ?thesis
    using service_leaf [OF v, of pid]
    by (simp only:, subst parse_namespaced) (simp_all add: kAllowedNamespaces_def)
qed

lemma ring_demo_sizes: "record_stride_for 32 = 64" "payload_size_for 128 64 = 9344"
  by (simp_all add: record_stride_for_def payload_size_for_def record_area_offset_def slot_meta_offset_def align_up_def shm_consts)

lemma ring_demo_facts:
  "co_name (ring_demo_options pid) = ring_demo_name pid" "co_meta_size (ring_demo_options pid) = 64"
  "co_total_size (ring_demo_options pid) = 9664" "co_flags (ring_demo_options pid) AND HmacEnabled = 0"
  "320 = align_up (SHMFX_HEADER_SIZE + co_meta_size (ring_demo_options pid)) SHMFX_CACHE_LINE_BYTES"
  by (simp_all add: ring_demo_options_def Let_def ring_demo_sizes sizeof_RecordRingMeta_def) (simp_all add: shm_consts align_up_def)

lemma ring_demo_security:
  assumes "unat pid < 2 ^ 31"
  shows "validate_create_security (ring_demo_options pid) [] = Ok"
  using ring_demo_name_parse [OF assms]
  by (simp add: validate_create_security_def ring_demo_facts(1-3)) (simp add: shm_consts kMaxNamespaceSegments_def push_bit_eq_mult)

lemma ring_demo_created:
  assumes w: "world_ok (lw_world lw)" "reg_map (lw_world lw) = Map.empty" "ring_demo_name pid \<notin> dom (w_names (lw_world lw))"
    and pid: "unat pid < 2 ^ 31" and env: "calm env (ring_demo_name pid)" and addr: "page_aligned addr"
  shows "\<exists>h lw2 e r. create_segment env (ring_demo_options pid) lw = Some (Inr h, lw2) \<and> world_ok (lw_world lw2) \<and>
    w_names (lw_world lw2) = (w_names (lw_world lw))(ring_demo_name pid \<mapsto> hd_base h) \<and> reg_map (lw_world lw2) = [ring_demo_name pid \<mapsto> e] \<and>
    h_state (header_at (lw_world lw2) (hd_base h)) = segment_state_code Active \<and>
    ring_initialize (handle_span addr lw2 h) 128 32 = Inr r"
proof -
  let ?o = "ring_demo_options pid" and ?n = "ring_demo_name pid" and ?w = "lw_world lw"
  note parse = ring_demo_name_parse [OF pid]
  have l: "listed [] (reg_payload ?w) = []"
    by (intro listed_empty world_ok_registry w)
  have hyps: "parse_and_validate_name (co_name ?o) = Inr \<lparr>pn_ns = ''app'', pn_leaf = ''ring_demo_'' @ decimal (unat pid), pn_bootstrap = False\<rparr>"
      "co_name ?o \<notin> dom (w_names ?w)" "co_name ?o \<noteq> REGISTRY_NAME" "calm env (co_name ?o)"
      "validate_create_security ?o (listed [] (reg_payload ?w)) = Ok" "unat (co_meta_size ?o) < 2 ^ 63"
      "320 \<le> co_total_size ?o" "co_flags ?o AND HmacEnabled = 0 \<or> load_hmac_key (os_keys env) \<noteq> None"
      "card (dom (reg_map ?w)) < MAX_REGISTRY_ENTRIES"
    using parse w(3) env ring_demo_security [OF pid] ring_demo_facts(4) unfolding l w(2)
    by (auto simp: ring_demo_facts(1-3) parse_and_validate_name_def shm_consts)
  obtain w1 e h where c: "create env ?o ?w =
        Some (Inr \<lparr>hd_base = w_next ?w, hd_size = co_total_size ?o, hd_fd = True, hd_mode = ReadWrite, hd_owner = True\<rparr>, w1)"
      "world_ok w1" "w_names w1 = (w_names ?w)(?n \<mapsto> w_next ?w)" "reg_map w1 = (reg_map ?w)(?n \<mapsto> e)"
      "header_at w1 (w_next ?w) = h" "describes ?o 320 h" "h_state h = segment_state_code Active"
    using created_segment [OF w(1) hyps(1-6) ring_demo_facts(5) hyps(7-9)] unfolding ring_demo_facts(1)
    by (elim exE conjE) (rule that; assumption)
  let ?h = "\<lparr>hd_base = w_next ?w, hd_size = co_total_size ?o, hd_fd = True, hd_mode = ReadWrite, hd_owner = True\<rparr>"
  have off: "handle_payload w1 ?h = (320, 9344)"
    using c(6) by (simp add: handle_payload_def c(5) describes_def ring_demo_facts(3))
  let ?lw2 = "lw\<lparr>lw_world := w1, lw_rings := (lw_rings lw)(w_next ?w := zero_ring 9344)\<rparr>"
  have cs: "create_segment env ?o lw = Some (Inr ?h, ?lw2)"
    using off by (simp add: create_segment_def c(1) ring_demo_facts(3))
  have sp: "handle_span addr ?lw2 ?h = \<lparr>sp_data = addr (w_next ?w) + 320, sp_bytes = replicate 9344 0\<rparr>"
    using off by (simp add: handle_span_def zero_ring_def)
  have "payload_aligned (handle_span addr ?lw2 ?h)"
    using page_offset_aligned [OF addr] by (simp add: payload_aligned_def sp shm_consts)
  then obtain r where "ring_initialize (handle_span addr ?lw2 ?h) 128 32 = Inr r"
    using ring_initialize_inv [of 128 32 "handle_span addr ?lw2 ?h"] by (auto simp: sp ring_demo_sizes)
  then show ?thesis
    using cs c(2-4,7) w(2) by (intro exI [of _ ?h] exI [of _ ?lw2] exI [of _ e] exI [of _ r]) (simp add: c(5))
qed

lemma ring_demo_jobs_laws:
  "\<forall>i \<ge> 4. ring_demo_jobs i = []" "job_count 4 ring_demo_jobs = 4 * 16" "job_count 4 ring_demo_jobs < 2 ^ 62"
proof -
  show c: "job_count 4 ring_demo_jobs = 4 * 16"
    by (simp add: job_count_def ring_demo_jobs_def)
  show "job_count 4 ring_demo_jobs < 2 ^ 62"
    unfolding c by simp
qed (simp add: ring_demo_jobs_def)

text \<open>The payloads fit into a slot and into the consumer's buffer.\<close>

lemma ring_demo_line_text:
  assumes "a \<in> set (ring_demo_jobs i)" "max_payload_of meta = 48"
  shows "ring_demo_line (received 64 meta a) = ''type='' @ decimal i @ '' payload='' @ byte_text (pa_payload a)"
proof -
  obtain j where j: "i < 4" "j < 16" "a = ring_demo_args i j"
    using assms(1) by (auto simp: ring_demo_jobs_def split: if_splits)
  have "length (decimal i) \<le> 2" "length (decimal j) \<le> 2"
    using decimal_length [of i 1] decimal_length [of j 1] j(1,2) by simp_all
  then show ?thesis
    using j(1) assms(2)
    by (simp add: j(3) ring_demo_line_def received_def args_record_def stored_record_def popped_of_def ring_demo_args_def unat_of_nat)
qed

lemma ring_demo_output:
  assumes init: "ring_initialize sp 128 32 = Inr r" and run: "threads_run r ring_demo_jobs 64 (4 * 16) s"
  shows "\<exists>order. length order = 64 \<and> (\<forall>i. claims_of i order = ring_demo_jobs i) \<and>
      map ring_demo_line (cs_got s) = map (\<lambda>(i, a). ''type='' @ decimal i @ '' payload='' @ byte_text (pa_payload a)) order"
proof -
  have start: "ring_start (system_of r)"
    using init by (auto simp: ring_start_def intro!: exI)
  have mp: "max_payload_of (rs_meta (cs_sys s)) = 48"
    using threads_meta [of r ring_demo_jobs 64 "4 * 16" s] run ring_initialize_state(3) [OF init]
    by (simp add: threads_run_def ring_demo_sizes fresh_meta_def max_payload_of_def shm_consts)
  obtain order where o: "cs_got s = map (received 64 (rs_meta (cs_sys s)) \<circ> snd) order" "\<forall>i. claims_of i order = ring_demo_jobs i"
      "length order = 64"
    using threads_deliver [OF start run [folded ring_demo_jobs_laws(2)] ring_demo_jobs_laws(1,3)] unfolding ring_demo_jobs_laws(2) by auto
  have "ring_demo_line (received 64 (rs_meta (cs_sys s)) a) = ''type='' @ decimal i @ '' payload='' @ byte_text (pa_payload a)"
    if "(i, a) \<in> set order" for i a
  proof -
    have "a \<in> set (claims_of i order)"
      using that by (force simp: claims_of_def)
    then show ?thesis
      using ring_demo_line_text [OF _ mp, of a i] o(2) by simp
  qed
  then show ?thesis
    using o by (intro exI [of _ order]) auto
qed

text \<open>What the example does before and after its threads.\<close>

lemma ring_demo_phases:
  assumes w: "world_ok (lw_world lw)" "dom (reg_map (lw_world lw)) \<subseteq> {ring_demo_name pid} \<inter> dom (w_names (lw_world lw))"
    and pid: "unat pid < 2 ^ 31" and addr: "page_aligned addr"
    and env: "os_unlink_fail (env 0) (ring_demo_name pid) = None" "os_unlink_fail (env 2) (ring_demo_name pid) = None"
      "calm (env 1) (ring_demo_name pid)"
  shows "\<exists>e0 w1 h lw2 r e1 w4. destroy (env 0) (ring_demo_name pid) (lw_world lw) = Some (e0, w1) \<and>
    create_segment (env 1) (ring_demo_options pid) (lw\<lparr>lw_world := w1\<rparr>) = Some (Inr h, lw2) \<and>
    ring_initialize (handle_span addr lw2 h) 128 32 = Inr r \<and>
    destroy (env 2) (ring_demo_name pid) (lw_world lw2) = Some (e1, w4) \<and>
    w_names w4 = (w_names (lw_world lw))(ring_demo_name pid := None) \<and> reg_map w4 = Map.empty \<and>
    h_state (header_at w4 (hd_base h)) = segment_state_code Active"
proof -
  let ?n = "ring_demo_name pid" and ?o = "ring_demo_options pid"
  note parse = ring_demo_name_parse [OF pid]
  have reg: "?n \<noteq> REGISTRY_NAME"
    using parse by (auto simp: parse_and_validate_name_def)
  obtain e0 w1 where d: "destroy (env 0) ?n (lw_world lw) = Some (e0, w1)" "world_ok w1"
      "w_names w1 = (w_names (lw_world lw))(?n := None)" "reg_map w1 = (reg_map (lw_world lw))(?n := None)"
    using destroy_clears [OF w(1) parse reg _ env(1)] w(2) by blast
  let ?lw1 = "lw\<lparr>lw_world := w1\<rparr>"
  have lw1: "world_ok (lw_world ?lw1)" "reg_map (lw_world ?lw1) = Map.empty" "?n \<notin> dom (w_names (lw_world ?lw1))"
    using d(2-4) w(2) by (auto simp: fun_eq_iff domIff)
  obtain h lw2 e r where c: "create_segment (env 1) ?o ?lw1 = Some (Inr h, lw2)" "world_ok (lw_world lw2)"
      "w_names (lw_world lw2) = (w_names (lw_world ?lw1))(?n \<mapsto> hd_base h)" "reg_map (lw_world lw2) = [?n \<mapsto> e]"
      "h_state (header_at (lw_world lw2) (hd_base h)) = segment_state_code Active"
      "ring_initialize (handle_span addr lw2 h) 128 32 = Inr r"
    using ring_demo_created [OF lw1 pid env(3) addr] by blast
  have "?n \<in> dom (w_names (lw_world lw2))"
    by (simp add: c(3))
  from destroy_named [OF c(2) parse reg this env(2)] obtain e1 w4 where
    f: "destroy (env 2) ?n (lw_world lw2) = Some (e1, w4)" "w_names w4 = (w_names (lw_world lw2))(?n := None)"
      "reg_map w4 = (reg_map (lw_world lw2))(?n := None)" "header_at w4 = header_at (lw_world lw2)"
    by blast
  show ?thesis
    using d(1,3) c(1,3-6) f by (intro exI [of _ e0] exI [of _ w1] exI [of _ h] exI [of _ lw2] exI [of _ r] exI [of _ e1] exI [of _ w4]) simp
qed

text \<open>
  C10. The ring example: in a system without failures it ends in some run, and every run that ends has exit code 0 and
  prints the 64 records of the four threads, each once, with the number of its thread, those of one
  thread in the order of its loop. The segment and its registry entry are gone, also those of an
  earlier run with the same process id.
\<close>

theorem ring_mpsc_prints:
  assumes w: "world_ok (lw_world lw)" "dom (reg_map (lw_world lw)) \<subseteq> {ring_demo_name pid} \<inter> dom (w_names (lw_world lw))"
    and pid: "unat pid < 2 ^ 31" and addr: "page_aligned addr"
    and env: "os_unlink_fail (env 0) (ring_demo_name pid) = None" "os_unlink_fail (env 2) (ring_demo_name pid) = None"
      "calm (env 1) (ring_demo_name pid)"
  shows "(\<exists>res. ring_mpsc_main addr env pid lw res) \<and>
    (\<forall>res lw'. ring_mpsc_main addr env pid lw (res, lw') \<longrightarrow>
       rn_exit res = 0 \<and> rn_err res = [] \<and>
       (\<exists>order. length order = 64 \<and> (\<forall>i. claims_of i order = ring_demo_jobs i) \<and>
          rn_out res = map (\<lambda>(i, a). ''type='' @ decimal i @ '' payload='' @ byte_text (pa_payload a)) order) \<and>
       w_names (lw_world lw') = (w_names (lw_world lw))(ring_demo_name pid := None) \<and> reg_map (lw_world lw') = Map.empty)"
proof -
  let ?n = "ring_demo_name pid"
  obtain e0 w1 h lw2 r e1 w4 where p: "destroy (env 0) ?n (lw_world lw) = Some (e0, w1)"
      "create_segment (env 1) (ring_demo_options pid) (lw\<lparr>lw_world := w1\<rparr>) = Some (Inr h, lw2)"
      "ring_initialize (handle_span addr lw2 h) 128 32 = Inr r" "destroy (env 2) ?n (lw_world lw2) = Some (e1, w4)"
      "w_names w4 = (w_names (lw_world lw))(?n := None)" "reg_map w4 = Map.empty" "h_state (header_at w4 (hd_base h)) = segment_state_code Active"
    using ring_demo_phases [where env = env, OF assms] by (elim exE conjE) (rule that; assumption)
  have cl: "lw_world (close_ring v x lw2) = lw_world lw2" for v x
    by (simp add: close_ring_def)
  have ends: "\<exists>lw5. drop_handle (env 3) h (lw3\<lparr>lw_world := w4\<rparr>) = Some lw5 \<and> w_names (lw_world lw5) = w_names w4 \<and>
      reg_payload (lw_world lw5) = reg_payload w4" for lw3
    using drop_active [of "lw3\<lparr>lw_world := w4\<rparr>" h "env 3"] p(7) by auto
  have "ring_start (system_of r)"
    using p(3) by (auto simp: ring_start_def intro!: exI)
  then obtain s where s: "threads_run r ring_demo_jobs 64 (4 * 16) s"
    using threads_can_run [OF _ ring_demo_jobs_laws(1,3)] unfolding ring_demo_jobs_laws(2) by blast
  have "\<exists>res. ring_mpsc_main addr env pid lw res"
    using ring_ends [OF p(1-3) s refl] p(4) ends [of "close_ring (view_of h r) (ring_after r s) lw2"] unfolding cl by blast
  moreover have "rn_exit res = 0 \<and> rn_err res = [] \<and>
       (\<exists>order. length order = 64 \<and> (\<forall>i. claims_of i order = ring_demo_jobs i) \<and>
          rn_out res = map (\<lambda>(i, a). ''type='' @ decimal i @ '' payload='' @ byte_text (pa_payload a)) order) \<and>
       w_names (lw_world lw') = (w_names (lw_world lw))(?n := None) \<and> reg_map (lw_world lw') = Map.empty"
    if "ring_mpsc_main addr env pid lw (res, lw')" for res lw'
    using that
  proof (cases rule: ring_mpsc_main.cases)
    case (ring_ends e0' w1' h' lw2' r' s lw3 e1' w4')
    have same: "h' = h" "lw2' = lw2" "r' = r" "w4' = w4"
      using ring_ends(2-4,6,7) p(1-4) by (auto simp: cl)
    show ?thesis
      using ring_demo_output [OF p(3), of s] ring_ends(1,5,8) ends [of lw3] p(5,6) unfolding same by auto
  qed (use p in auto)
  ultimately show ?thesis
    by blast
qed

theorem ring_mpsc_prints_witness:
  "\<exists>res lw' order. ring_mpsc_main (\<lambda>_. 4096) (\<lambda>_. demo_env) 42 \<lparr>lw_world = demo_world, lw_rings = \<lambda>_. zero_ring 0\<rparr> (res, lw') \<and>
     rn_exit res = 0 \<and> length (rn_out res) = 64 \<and> length order = 64 \<and> claims_of 3 order = map (ring_demo_args 3) [0..<16]"
proof -
  let ?lw = "\<lparr>lw_world = demo_world, lw_rings = \<lambda>_. zero_ring 0\<rparr>"
  have "world_ok (lw_world ?lw)" "dom (reg_map (lw_world ?lw)) \<subseteq> {ring_demo_name 42} \<inter> dom (w_names (lw_world ?lw))"
      "unat (42 :: u32) < 2 ^ 31" "page_aligned (\<lambda>_. 4096)"
    using demo_world_ok by (simp_all add: page_aligned_def)
  note t = ring_mpsc_prints [where env = "\<lambda>_. demo_env", OF this demo_alive(2) demo_alive(2) demo_calm]
  obtain x where x: "ring_mpsc_main (\<lambda>_. 4096) (\<lambda>_. demo_env) 42 ?lw x"
    using conjunct1 [OF t] by blast
  obtain res lw' where r: "ring_mpsc_main (\<lambda>_. 4096) (\<lambda>_. demo_env) 42 ?lw (res, lw')"
    using x by (cases x) simp
  then obtain order where "rn_exit res = 0" "length order = 64" "\<forall>i. claims_of i order = ring_demo_jobs i"
      "rn_out res = map (\<lambda>(i, a). ''type='' @ decimal i @ '' payload='' @ byte_text (pa_payload a)) order"
    using conjunct2 [OF t] by blast
  then show ?thesis
    using r by (intro exI [of _ res] exI [of _ lw'] exI [of _ order]) (simp add: ring_demo_jobs_def)
qed

section \<open>What the benchmark reports\<close>

text \<open>Binding to what was initialised gives the same ring.\<close>

lemma initialize_bind:
  assumes "ring_initialize sp rmax mp = Inr r" "2 \<le> unat rmax" "unat mp + 16 \<le> 4294967232"
  shows "ring_bind (ring_meta r) (written_storage sp r) = Inr r"
proof -
  note st = ring_initialize_state [OF assms]
  have "rmax \<noteq> 0"
    using assms(2) by auto
  then have len: "length (ring_bytes r) = unat (payload_size_for rmax (record_stride_for mp))"
    using unat_payload_size_for [OF _ record_stride_for_small [OF assms(3)]
        layout_size_no_overflow [OF record_stride_for_bounds(2) [OF assms(3)]]]
    by (simp add: ring_inv_length(1) [OF st(1)] st(3) fresh_meta_def)
  have i: "payload_aligned sp" "payload_size_for rmax (record_stride_for mp) \<noteq> 0"
      "unat (payload_size_for rmax (record_stride_for mp)) \<le> length (sp_bytes sp)" "sp_data (mr_payload r) = sp_data sp"
    using assms(1) by (auto simp: ring_initialize_def Let_def span_first_def not_less split: if_splits)
  have "valid_meta (ring_meta r)"
    using st(1) by (auto simp: ring_inv_def ring_fits_def ring_meta_def)
  moreover have "span_first (unat (payload_size_for rmax (record_stride_for mp))) (written_storage sp r) = mr_payload r"
    using i(4) by (simp add: span_first_def written_storage_def store_bytes_def len [symmetric] ring_bytes_def)
  moreover have "\<lparr>mr_meta = Some (ring_meta r), mr_payload = mr_payload r\<rparr> = r"
    using ring_inv_length(2) [OF st(1)] by (intro MpscRing.equality) simp_all
  moreover have "record_max (ring_meta r) = rmax" "record_stride (ring_meta r) = record_stride_for mp"
    by (simp_all add: st(3) fresh_meta_def)
  moreover have "payload_aligned (written_storage sp r)"
      "unat (payload_size_for rmax (record_stride_for mp)) \<le> length (sp_bytes (written_storage sp r))"
    using i(1,3) len by (simp_all add: payload_aligned_def written_storage_def store_bytes_def)
  ultimately show ?thesis
    using i(2) by (simp add: ring_bind_def)
qed

lemma bench_jobs_laws:
  "\<forall>i \<ge> p. bench_jobs p k i = []" "job_count p (bench_jobs p k) = p * k"
  by (simp_all add: bench_jobs_def job_count_def)

text \<open>
  The benchmark, given a buffer of the size and alignment it asks for: some run ends, and every
  run that ends has exit code 0 and reports the number of all records.
\<close>

lemma ring_bench_reports:
  assumes buffer: "memalign 64 (align_up (payload_size_for 65536 (record_stride_for 64)) 64) = Some sp"
      "payload_aligned sp" "unat (payload_size_for 65536 (record_stride_for 64)) \<le> length (sp_bytes sp)"
    and total: "unat producers * unat per_producer < 2 ^ 62"
  shows "(\<exists>res. ring_bench_main memalign producers per_producer res) \<and>
    (\<forall>res. ring_bench_main memalign producers per_producer res \<longrightarrow>
       rn_exit res = 0 \<and> rn_err res = [] \<and>
       (\<exists>lost. rn_out res = [''producers='' @ decimal (unat producers),
          ''records='' @ decimal (unat producers * unat per_producer), ''lost_count='' @ decimal (unat (lost :: u64))]))"
proof -
  let ?p = "unat producers" and ?k = "unat per_producer"
  have big: "2 \<le> unat (65536 :: u32)" "unat (64 :: u32) + 16 \<le> 4294967232"
    by simp_all
  have b: "AlignedBuffer memalign (payload_size_for 65536 (record_stride_for 64)) = Some sp"
    using buffer(1) by (simp add: AlignedBuffer_def shm_consts)
  obtain r where r: "ring_initialize sp 65536 64 = Inr r"
    using ring_initialize_inv [OF big buffer(2,3)] by blast
  note bd = initialize_bind [OF r big]
  have total': "unat (ucast producers * ucast per_producer :: u64) = ?p * ?k"
    using total by (subst unat_mult_64) simp_all
  have "ring_start (system_of r)"
    using r by (auto simp: ring_start_def intro!: exI)
  then obtain s where "threads_run r (bench_jobs ?p ?k) 64 (?p * ?k) s"
    using threads_can_run [OF _ bench_jobs_laws(1), of r ?p ?k] total unfolding bench_jobs_laws(2) by blast
  then have "\<exists>res. ring_bench_main memalign producers per_producer res"
    using bench_ends [OF b r bd, of producers per_producer s] unfolding total' by blast
  moreover have "rn_exit res = 0 \<and> rn_err res = [] \<and>
       (\<exists>lost. rn_out res = [''producers='' @ decimal ?p, ''records='' @ decimal (?p * ?k), ''lost_count='' @ decimal (unat (lost :: u64))])"
    if "ring_bench_main memalign producers per_producer res" for res
    using that by (cases rule: ring_bench_main.cases) (use b r bd in \<open>auto simp: total'\<close>)
  ultimately show ?thesis
    by blast
qed

end
