(* ===== verification/Ring_Rest.thy ===== *)
theory Ring_Rest
  imports Ring_Mpsc
begin

text \<open>
  A shared ring between calls: when no push and no pop is in progress, the bytes that the
  interleaved accesses have left are a ring as the calls one after the other leave it.
\<close>

section \<open>At rest\<close>

definition at_rest :: "ring_system \<Rightarrow> bool" where
  "at_rest s \<longleftrightarrow> rs_cons s = CIdle \<and> (\<forall>i. rs_prod s i = PIdle)"

text \<open>The ring object of a thread, over the shared metadata and bytes.\<close>

definition shared_ring :: "u64 \<Rightarrow> ring_system \<Rightarrow> MpscRing" where
  "shared_ring data s = \<lparr>mr_meta = Some (rs_meta s), mr_payload = \<lparr>sp_data = data, sp_bytes = rs_mem s\<rparr>\<rparr>"

lemma rest_ring:
  assumes reach: "ring_reachable s" "counters_left s" and rest: "at_rest s"
  shows "ring_inv (shared_ring data s)" "head_pos (shared_ring data s) = length (rs_popped s)"
    "tail_pos (shared_ring data s) = length (rs_claimed s)"
    "ring_items (shared_ring data s) = map (args_record (rs_meta s) \<circ> snd) (drop (length (rs_popped s)) (rs_claimed s))"
proof -
  let ?h = "length (rs_popped s)" and ?t = "length (rs_claimed s)" and ?r = "shared_ring data s"
  have idle: "rs_cons s = CIdle" and none: "\<not> pending (rs_prod s) p" for p
    using rest by (auto simp: at_rest_def pending_def)
  note inv = ring_conc.reachable_inv [OF reach]
  note core = ring_coreD [OF system_invD(1) [OF inv]]
  have b: "ring_bytes ?r = rs_mem s" "ring_meta ?r = rs_meta s" "mr_meta ?r = Some (rs_meta s)"
    by (simp_all add: shared_ring_def ring_bytes_def ring_meta_def)
  have head: "get_head (rs_mem s) = of_nat ?h"
    using system_invD(5) [OF inv] by (simp add: idle)
  have win: "window (rs_meta s) ?h ?t (rs_mem s)"
    unfolding window_def using core(4,7,8,9) core(10) none head by (simp add: idle)
  show "ring_inv ?r"
    unfolding ring_inv_def b using core(1,3) win by blast
  show hp: "head_pos ?r = ?h" and tp: "tail_pos ?r = ?t"
    using windowD(6,7) [OF win core(2)] by (simp_all add: head_pos_def tail_pos_def b)
  have "get_record (rs_meta s) (slot_at (rs_meta s) p) (rs_mem s) = args_record (rs_meta s) (snd (rs_claimed s ! p))"
    if "?h \<le> p" "p < ?t" for p
    using core(13) [OF that none] by (simp add: claimed_record_def)
  then have "ring_items ?r = map (\<lambda>p. args_record (rs_meta s) (snd (rs_claimed s ! p))) [?h..<?t]"
    by (simp add: ring_items_def hp tp b)
  also have "\<dots> = map (args_record (rs_meta s) \<circ> snd) (drop ?h (rs_claimed s))"
    using core(7) by (intro nth_equalityI) simp_all
  finally show "ring_items ?r = map (args_record (rs_meta s) \<circ> snd) (drop ?h (rs_claimed s))" .
qed

text \<open>
  C9. Interleaved calls refine calls one after the other: whenever no call is in progress, the shared
  bytes are a well-formed ring that contains exactly the claimed records that are not delivered yet,
  in the order of the claims, and the lost counter has counted the pushes that were given up.
\<close>

theorem ring_at_rest:
  assumes "ring_reachable s" "counters_left s" "at_rest s"
  shows "ring_inv (shared_ring data s) \<and>
    ring_items (shared_ring data s) = map (args_record (rs_meta s) \<circ> snd) (drop (length (rs_popped s)) (rs_claimed s)) \<and>
    ring_lost_count (shared_ring data s) = of_nat (length (rs_dropped s))"
proof -
  have "lost_count (rs_meta s) = of_nat (length (rs_dropped s))"
    using ring_log.unbounded.reachable_inv [OF assms(1)] by (simp add: log_inv_def)
  then show ?thesis
    using rest_ring(1,4) [OF assms] by (simp add: ring_lost_count_def shared_ring_def)
qed

text \<open>A claimed record is written and published in steps of its producer alone.\<close>

lemma claim_finishes:
  assumes "ring_reachable s" "rs_prod s i = PHeader a pos"
  shows "\<exists>m. ring_reachable (s\<lparr>rs_mem := m, rs_prod := (rs_prod s)(i := PIdle), rs_returned := rs_returned s @ [(i, a, Ok)]\<rparr>)"
proof -
  define st where st: "st = (\<lambda>m p. s\<lparr>rs_mem := m, rs_prod := (rs_prod s)(i := p)\<rparr>)"
  have "st (rs_mem s) (PHeader a pos) = s"
    using assms(2) by (simp add: st fun_upd_idem)
  then have header: "ring_reachable (st (rs_mem s) (PHeader a pos))"
    using assms(1) by simp
  have step: "\<exists>m'. ring_reachable (st m' p')"
    if p: "ring_reachable (st m p)" "running p" "\<And>m. \<exists>m'. producer_step False (rs_meta s) m p = (p', rs_meta s, m')" "claim_event p p' = []" "drop_event p = []"
    for m p p'
  proof -
    obtain m' where "producer_step False (rs_meta s) m p = (p', rs_meta s, m')"
      using p(3) by blast
    then have "ring_step (st m p) (st m' p')"
      using producer [of "st m p" i False p' "rs_meta s" m'] p(2,4,5) by (simp add: st)
    then show ?thesis
      using reach_step [OF p(1)] by blast
  qed
  obtain m1 where body: "ring_reachable (st m1 (PBody a pos))"
    using step [OF header, of "PBody a pos"] by auto
  obtain m2 where publish: "ring_reachable (st m2 (PPublish a pos))"
    using step [OF body, of "PPublish a pos"] by auto
  obtain m3 where "ring_reachable (st m3 (PDone a Ok))"
    using step [OF publish, of "PDone a Ok"] by auto
  from reach_step [OF this end_push [of _ i a Ok]] show ?thesis
    by (auto simp: st)
qed

theorem ring_at_rest_witness:
  "\<exists>s. ring_reachable s \<and> ring_items (shared_ring 0 s) = [args_record (rs_meta s) demo_args, args_record (rs_meta s) demo_args]"
proof -
  obtain m1 where m1: "ring_reachable (demo_system\<lparr>rs_mem := m1, rs_prod := (rs_prod demo_system)(0 := PIdle), rs_returned := [(0, demo_args, Ok)]\<rparr>)"
    using claim_finishes [OF demo_system_reachable(1), of 0 demo_args 0] by (auto simp: demo_system_def system_of_def)
  obtain m2 where m2: "ring_reachable (demo_system\<lparr>rs_mem := m2, rs_prod := \<lambda>_. PIdle, rs_returned := [(0, demo_args, Ok), (1, demo_args, Ok)]\<rparr>)"
    using claim_finishes [OF m1, of 1 demo_args 1] by (auto simp: demo_system_def system_of_def fun_upd_twist fun_upd_idem)
  have "counters_left (demo_system\<lparr>rs_mem := m2, rs_prod := \<lambda>_. PIdle, rs_returned := [(0, demo_args, Ok), (1, demo_args, Ok)]\<rparr>)"
    using demo_system_reachable(2) by (simp add: counters_left_def)
  from ring_at_rest [OF m2 this, of 0] show ?thesis
    using m2 by (intro exI [of _ "demo_system\<lparr>rs_mem := m2, rs_prod := \<lambda>_. PIdle, rs_returned := [(0, demo_args, Ok), (1, demo_args, Ok)]\<rparr>"])
      (simp add: at_rest_def demo_system_def system_of_def)
qed

end
