(* ===== verification/Log_Threads.thy ===== *)
theory Log_Threads
  imports Log_Session Ring_Rest Ring_Clients "HOL-Library.Sublist"
begin

text \<open>
  Threads of one process that log through the same logger: every call becomes one push into the shared ring, which is not
  tried again when it fails.
\<close>

section \<open>Threads that log\<close>

definition request_args :: "log_request \<Rightarrow> push_args" where
  "request_args x =
     \<lparr>pa_type = log_level_code (lq_level x), pa_flags = lq_flags x,
      pa_user = monotonic_record_time (le_clock (lq_env x)) (le_clock_again (lq_env x)), pa_payload = lq_payload x\<rparr>"

text \<open>The ring and the calls every thread has still to make, the one in progress included.\<close>

record log_threads =
  lt_sys :: ring_system
  lt_todo :: "nat \<Rightarrow> log_call list"

inductive log_thread_step :: "log_threads \<Rightarrow> log_threads \<Rightarrow> bool" where
  call_refused: "lt_todo s i = c # cs \<Longrightarrow> rs_prod (lt_sys s) i = PIdle \<Longrightarrow> call_request le c = Inl e \<Longrightarrow>
    log_thread_step s (s\<lparr>lt_todo := (lt_todo s)(i := cs)\<rparr>)"
| call_begins: "lt_todo s i = c # cs \<Longrightarrow> rs_prod (lt_sys s) i = PIdle \<Longrightarrow> call_request le c = Inr x \<Longrightarrow>
    log_thread_step s (s\<lparr>lt_sys := (lt_sys s)\<lparr>rs_prod := (rs_prod (lt_sys s))(i := PStart (request_args x))\<rparr>\<rparr>)"
| call_access: "sys = lt_sys s \<Longrightarrow> running (rs_prod sys i) \<Longrightarrow>
    producer_step weak (rs_meta sys) (rs_mem sys) (rs_prod sys i) = (p', meta', m') \<Longrightarrow>
    log_thread_step s (s\<lparr>lt_sys := sys\<lparr>rs_meta := meta', rs_mem := m', rs_prod := (rs_prod sys)(i := p'),
      rs_claimed := rs_claimed sys @ map (Pair i) (claim_event (rs_prod sys i) p'),
      rs_dropped := rs_dropped sys @ map (Pair i) (drop_event (rs_prod sys i))\<rparr>\<rparr>)"
| call_returns: "sys = lt_sys s \<Longrightarrow> rs_prod sys i = PDone a e \<Longrightarrow>
    log_thread_step s (s\<lparr>lt_sys := sys\<lparr>rs_prod := (rs_prod sys)(i := PIdle), rs_returned := rs_returned sys @ [(i, a, e)]\<rparr>,
      lt_todo := (lt_todo s)(i := tl (lt_todo s i))\<rparr>)"

inductive_cases log_thread_stepE: "log_thread_step s t"

definition log_threads_of :: "MpscRing \<Rightarrow> (nat \<Rightarrow> log_call list) \<Rightarrow> log_threads" where
  "log_threads_of r jobs = \<lparr>lt_sys = system_of r, lt_todo = jobs\<rparr>"

text \<open>The threads are joined when all of them have returned from their last call.\<close>

definition log_threads_joined :: "log_threads \<Rightarrow> bool" where
  "log_threads_joined s \<longleftrightarrow> (\<forall>i. lt_todo s i = [] \<and> rs_prod (lt_sys s) i = PIdle)"

definition log_threads_run :: "MpscRing \<Rightarrow> (nat \<Rightarrow> log_call list) \<Rightarrow> log_threads \<Rightarrow> bool" where
  "log_threads_run r jobs s \<longleftrightarrow>
     reachable (\<lambda>s. s = log_threads_of r jobs) log_thread_step s \<and> log_threads_joined s"

section \<open>Invariant\<close>

definition asks :: "log_call \<Rightarrow> push_args \<Rightarrow> bool" where
  "asks c a \<longleftrightarrow> (\<exists>le x. call_request le c = Inr x \<and> a = request_args x)"

definition log_threads_inv :: "MpscRing \<Rightarrow> (nat \<Rightarrow> log_call list) \<Rightarrow> log_threads \<Rightarrow> bool" where
  "log_threads_inv r jobs s \<longleftrightarrow>
     ring_reachable (lt_sys s) \<and> rs_cons (lt_sys s) = CIdle \<and> rs_popped (lt_sys s) = [] \<and>
     (rs_meta (lt_sys s))\<lparr>lost_count := 0\<rparr> = (ring_meta r)\<lparr>lost_count := 0\<rparr> \<and>
     (\<forall>i. \<exists>past sub. jobs i = past @ lt_todo s i \<and> subseq sub past \<and>
        list_all2 asks sub (returns_of i Ok (rs_returned (lt_sys s)))) \<and>
     (\<forall>i a. call_args (rs_prod (lt_sys s) i) = Some a \<longrightarrow> (\<exists>c cs. lt_todo s i = c # cs \<and> asks c a))"

lemma log_threads_past:
  assumes "log_threads_inv r jobs s"
  obtains past sub where "jobs i = past @ lt_todo s i" "subseq sub past" "list_all2 asks sub (returns_of i Ok (rs_returned (lt_sys s)))"
  using assms unfolding log_threads_inv_def by metis

lemma log_thread_ring_step: "log_thread_step s t \<Longrightarrow> ring_step (lt_sys s) (lt_sys t) \<or> lt_sys t = lt_sys s"
  by (induction rule: log_thread_step.induct) (auto intro: ring_step.intros)

lemma log_threads_start:
  assumes "ring_start (system_of r)"
  shows "log_threads_inv r jobs (log_threads_of r jobs)"
proof -
  have "ring_reachable (system_of r)"
    by (rule reach_start [of ring_start, OF assms])
  then show ?thesis
    by (auto simp: log_threads_inv_def log_threads_of_def system_of_def)
qed

lemma log_threads_step:
  assumes inv: "log_threads_inv r jobs s" and step: "log_thread_step s t"
  shows "log_threads_inv r jobs t"
proof -
  have reach: "ring_reachable (lt_sys t)"
    using inv log_thread_ring_step [OF step] by (auto simp: log_threads_inv_def intro: reach_step)
  from step show ?thesis
  proof (cases rule: log_thread_step.cases)
    case (call_refused i c cs le e)
    have "\<exists>past sub. jobs i = past @ cs \<and> subseq sub past \<and> list_all2 asks sub (returns_of i Ok (rs_returned (lt_sys s)))"
    proof -
      obtain past sub where "jobs i = past @ lt_todo s i" "subseq sub past" "list_all2 asks sub (returns_of i Ok (rs_returned (lt_sys s)))"
        using log_threads_past [OF inv] by blast
      then show ?thesis
        using call_refused(2) by (intro exI [of _ "past @ [c]"] exI [of _ sub]) (auto intro: subseq_rev_drop_many)
    qed
    then show ?thesis
      using inv reach call_refused by (simp add: log_threads_inv_def)
  next
    case (call_begins i c cs le x)
    then show ?thesis
      using inv reach by (auto simp: log_threads_inv_def asks_def)
  next
    case (call_access sys i weak p' meta' m')
    then show ?thesis
      using inv reach producer_step_args [OF call_access(4)] producer_step_meta [OF call_access(4)]
      by (simp add: log_threads_inv_def)
  next
    case (call_returns sys i a e)
    have "\<exists>past sub. jobs i = past @ tl (lt_todo s i) \<and> subseq sub past \<and>
        list_all2 asks sub (returns_of i Ok (rs_returned (lt_sys s) @ [(i, a, e)]))"
    proof -
      obtain past sub where p: "jobs i = past @ lt_todo s i" "subseq sub past" "list_all2 asks sub (returns_of i Ok (rs_returned (lt_sys s)))"
        using log_threads_past [OF inv] by blast
      obtain c cs where c: "lt_todo s i = c # cs" "asks c a"
        using inv call_returns by (auto simp: log_threads_inv_def) (metis call_args.simps(10))
      show ?thesis
        using p c by (intro exI [of _ "past @ [c]"] exI [of _ "if e = Ok then sub @ [c] else sub"])
          (auto intro: subseq_rev_drop_many list_emb_append_mono list_all2_appendI)
    qed
    then show ?thesis
      using inv reach call_returns by (simp add: log_threads_inv_def)
  qed
qed

interpretation thread_log: step_invariant "\<lambda>s. ring_start (system_of r) \<and> s = log_threads_of r jobs" log_thread_step "log_threads_inv r jobs"
  for r jobs
  by unfold_locales (auto intro: log_threads_start log_threads_step)

section \<open>Joined threads\<close>

lemma joined_rest: "log_threads_inv r jobs s \<Longrightarrow> log_threads_joined s \<Longrightarrow> at_rest (lt_sys s)"
  by (simp add: log_threads_inv_def log_threads_joined_def at_rest_def)

lemma joined_claims:
  assumes inv: "log_threads_inv r jobs s" and joined: "log_threads_joined s"
  obtains sub where "subseq sub (jobs i)" "list_all2 asks sub (claims_of i (rs_claimed (lt_sys s)))"
proof -
  obtain past sub where p: "jobs i = past @ lt_todo s i" "subseq sub past" "list_all2 asks sub (returns_of i Ok (rs_returned (lt_sys s)))"
    using log_threads_past [OF inv] by blast
  have "claims_of i (rs_claimed (lt_sys s)) = returns_of i Ok (rs_returned (lt_sys s))"
    using ring_log.unbounded.reachable_inv [of "lt_sys s"] inv joined by (simp add: log_threads_inv_def log_inv_def log_threads_joined_def)
  then show ?thesis
    using p joined by (intro that [of sub]) (simp_all add: log_threads_joined_def)
qed

lemma joined_per_thread:
  assumes inv: "log_threads_inv r jobs s" and joined: "log_threads_joined s" and none: "\<forall>i \<ge> p. jobs i = []"
  shows "length (claims_of i (rs_claimed (lt_sys s))) \<le> length (jobs i)"
    "(\<Sum>i<p. length (claims_of i (rs_claimed (lt_sys s)))) = length (rs_claimed (lt_sys s))"
proof -
  let ?xs = "rs_claimed (lt_sys s)"
  show le: "length (claims_of i ?xs) \<le> length (jobs i)" for i
    using joined_claims [OF inv joined, of i] by (metis list_all2_lengthD list_emb_length)
  have "fst x < p" if "x \<in> set ?xs" for x
  proof -
    have "claims_of (fst x) ?xs \<noteq> []"
      using that by (auto simp: claims_of_def filter_empty_conv)
    then show ?thesis
      using le [of "fst x"] none by (metis le_zero_eq length_0_conv list.size(3) not_le)
  qed
  then show "(\<Sum>i<p. length (claims_of i ?xs)) = length ?xs"
    by (intro claims_count) blast
qed

lemma joined_count:
  assumes "log_threads_inv r jobs s" "log_threads_joined s" "\<forall>i \<ge> p. jobs i = []"
  shows "length (rs_claimed (lt_sys s)) \<le> job_count p jobs"
  unfolding joined_per_thread(2) [OF assms, symmetric] job_count_def by (intro sum_mono joined_per_thread(1) [OF assms])

text \<open>If as many records were claimed as the threads made calls, every call got its record.\<close>

lemma joined_complete:
  assumes inv: "log_threads_inv r jobs s" and joined: "log_threads_joined s" and none: "\<forall>i \<ge> p. jobs i = []"
    and all: "length (rs_claimed (lt_sys s)) = job_count p jobs"
  shows "list_all2 asks (jobs i) (claims_of i (rs_claimed (lt_sys s)))"
proof -
  let ?xs = "rs_claimed (lt_sys s)"
  note le = joined_per_thread(1) [OF assms(1-3)]
  have "(\<Sum>i<p. length (claims_of i ?xs)) = (\<Sum>i<p. length (jobs i))"
    using joined_per_thread(2) [OF assms(1-3)] all by (simp add: job_count_def)
  from sum_mono_inv [OF this le] have "length (claims_of i ?xs) = length (jobs i)" if "i < p"
    using that by simp
  moreover have "length (claims_of i ?xs) = length (jobs i)" if "\<not> i < p"
    using that none le [of i] by simp
  ultimately have len: "length (claims_of i ?xs) = length (jobs i)"
    by blast
  obtain sub where sub: "subseq sub (jobs i)" "list_all2 asks sub (claims_of i ?xs)"
    using joined_claims [OF inv joined] by blast
  then have "sub = jobs i"
    using len list_all2_lengthD [OF sub(2)] subseq_same_length by metis
  then show ?thesis
    using sub(2) by simp
qed

section \<open>A run without losses\<close>

text \<open>A thread that has claimed a slot and goes on alone returns with success.\<close>

lemma claimed_returns:
  assumes "rs_prod (lt_sys s) i = PHeader a pos"
  shows "\<exists>t. log_thread_step\<^sup>*\<^sup>* s t \<and> rs_prod (lt_sys t) = (rs_prod (lt_sys s))(i := PIdle) \<and> rs_cons (lt_sys t) = rs_cons (lt_sys s) \<and>
    rs_claimed (lt_sys t) = rs_claimed (lt_sys s) \<and> lt_todo t = (lt_todo s)(i := tl (lt_todo s i))"
proof -
  let ?sys = "lt_sys s" and ?m = "rs_mem (lt_sys s)" and ?meta = "rs_meta (lt_sys s)"
  let ?st = "\<lambda>p m. s\<lparr>lt_sys := ?sys\<lparr>rs_mem := m, rs_prod := (rs_prod ?sys)(i := p)\<rparr>\<rparr>"
  define m2 where "m2 = write_record_header ?meta pos (pa_type a) (pa_flags a) (pa_user a) (pa_payload a) ?m"
  define m3 where "m3 = write_record_body ?meta pos (pa_payload a) m2"
  define m4 where "m4 = put_seq (slot_of ?meta pos) (pos + 1) m3"
  let ?u = "s\<lparr>lt_sys := ?sys\<lparr>rs_mem := m4, rs_prod := (rs_prod ?sys)(i := PIdle), rs_returned := rs_returned ?sys @ [(i, a, Ok)]\<rparr>,
      lt_todo := (lt_todo s)(i := tl (lt_todo s i))\<rparr>"
  have "log_thread_step s (?st (PBody a pos) m2)"
    using call_access [OF refl, of s i False "PBody a pos" ?meta m2] assms by (simp add: m2_def)
  also have "log_thread_step\<^sup>*\<^sup>* (?st (PBody a pos) m2) (?st (PPublish a pos) m3)"
    using call_access [OF refl, of "?st (PBody a pos) m2" i False "PPublish a pos" ?meta m3] by (simp add: m3_def r_into_rtranclp)
  also have "log_thread_step\<^sup>*\<^sup>* (?st (PPublish a pos) m3) (?st (PDone a Ok) m4)"
    using call_access [OF refl, of "?st (PPublish a pos) m3" i False "PDone a Ok" ?meta m4] by (simp add: m4_def r_into_rtranclp)
  also have "log_thread_step\<^sup>*\<^sup>* (?st (PDone a Ok) m4) ?u"
    using call_returns [OF refl, of "?st (PDone a Ok) m4" i a Ok] by (simp add: r_into_rtranclp)
  finally show ?thesis
    by (intro exI [of _ ?u]) simp
qed

lemma free_slot:
  assumes inv: "log_threads_inv r jobs s" and rest: "at_rest (lt_sys s)" and c: "counters_left (lt_sys s)"
    and room: "length (rs_claimed (lt_sys s)) < slot_count (rs_meta (lt_sys s))"
  shows "valid_meta (rs_meta (lt_sys s))" "get_tail (rs_mem (lt_sys s)) = of_nat (length (rs_claimed (lt_sys s)))"
    "get_seq (slot_at (rs_meta (lt_sys s)) (length (rs_claimed (lt_sys s)))) (rs_mem (lt_sys s)) = of_nat (length (rs_claimed (lt_sys s)))"
proof -
  have reach: "ring_reachable (lt_sys s)" and popped: "rs_popped (lt_sys s) = []"
    using inv by (simp_all add: log_threads_inv_def)
  note core = ring_coreD [OF system_invD(1) [OF ring_conc.reachable_inv [OF reach c]]]
  show "valid_meta (rs_meta (lt_sys s))" "get_tail (rs_mem (lt_sys s)) = of_nat (length (rs_claimed (lt_sys s)))"
      "get_seq (slot_at (rs_meta (lt_sys s)) (length (rs_claimed (lt_sys s)))) (rs_mem (lt_sys s)) = of_nat (length (rs_claimed (lt_sys s)))"
    using core(2,9) core(10) [of "length (rs_claimed (lt_sys s))"] room popped rest by (simp_all add: at_rest_def)
qed

text \<open>A thread that runs one call alone, when no call is in progress and the ring has room.\<close>

lemma call_alone:
  assumes inv: "log_threads_inv r jobs s" and rest: "at_rest (lt_sys s)" and c: "counters_left (lt_sys s)"
    and room: "length (rs_claimed (lt_sys s)) < slot_count (rs_meta (lt_sys s))"
    and todo: "lt_todo s i = call # cs" "call_request le call = Inr x"
  shows "\<exists>t. log_thread_step\<^sup>*\<^sup>* s t \<and> at_rest (lt_sys t) \<and> lt_todo t = (lt_todo s)(i := cs) \<and>
    rs_claimed (lt_sys t) = rs_claimed (lt_sys s) @ [(i, request_args x)]"
proof -
  let ?sys = "lt_sys s" and ?t = "length (rs_claimed (lt_sys s))" and ?a = "request_args x"
  define pos :: u64 where "pos = of_nat ?t"
  have idle: "rs_cons ?sys = CIdle" "rs_prod ?sys j = PIdle" for j
    using rest by (auto simp: at_rest_def)
  note free = free_slot [OF inv rest c room, folded pos_def]
  obtain k where k: "MPSC_CAS_RETRY_BUDGET = Suc k"
    by (simp add: shm_consts)
  let ?m = "rs_mem ?sys" and ?meta = "rs_meta ?sys"
  let ?at = "\<lambda>p. s\<lparr>lt_sys := ?sys\<lparr>rs_prod := (rs_prod ?sys)(i := p)\<rparr>\<rparr>"
  let ?u = "s\<lparr>lt_sys := ?sys\<lparr>rs_mem := put_tail (pos + 1) ?m, rs_prod := (rs_prod ?sys)(i := PHeader ?a pos),
      rs_claimed := rs_claimed ?sys @ [(i, ?a)]\<rparr>\<rparr>"
  have "log_thread_step s (?at (PStart ?a))"
    using call_begins [OF todo(1) idle(2) todo(2)] by simp
  also have "log_thread_step\<^sup>*\<^sup>* (?at (PStart ?a)) (?at (PLoad ?a pos (Suc k)))"
    using call_access [OF refl, of "?at (PStart ?a)" i False "PLoad ?a pos (Suc k)" ?meta ?m] free k by (simp add: r_into_rtranclp)
  also have "log_thread_step\<^sup>*\<^sup>* (?at (PLoad ?a pos (Suc k))) (?at (PCas ?a pos k))"
    using call_access [OF refl, of "?at (PLoad ?a pos (Suc k))" i False "PCas ?a pos k" ?meta ?m] free(3)
    by (simp add: seq_diff_def r_into_rtranclp)
  also have "log_thread_step\<^sup>*\<^sup>* (?at (PCas ?a pos k)) ?u"
    using call_access [OF refl, of "?at (PCas ?a pos k)" i False "PHeader ?a pos" ?meta "put_tail (pos + 1) ?m"] free(2)
    by (simp add: atomic_compare_exchange_weak_u64_def r_into_rtranclp)
  finally have u: "log_thread_step\<^sup>*\<^sup>* s ?u" .
  obtain t where "log_thread_step\<^sup>*\<^sup>* ?u t" "rs_prod (lt_sys t) = (rs_prod (lt_sys ?u))(i := PIdle)" "rs_cons (lt_sys t) = rs_cons (lt_sys ?u)"
      "rs_claimed (lt_sys t) = rs_claimed (lt_sys ?u)" "lt_todo t = (lt_todo ?u)(i := tl (lt_todo ?u i))"
    using claimed_returns [of ?u i ?a pos] by auto
  then show ?thesis
    using rtranclp_trans [of log_thread_step, OF u] idle todo(1) by (intro exI [of _ t]) (simp add: at_rest_def)
qed

lemma log_threads_slots:
  assumes "log_threads_inv r jobs s"
  shows "slot_count (rs_meta (lt_sys s)) = unat (record_max (ring_meta r))"
    "max_payload_of (rs_meta (lt_sys s)) = max_payload_of (ring_meta r)"
    "record_max (rs_meta (lt_sys s)) = record_max (ring_meta r)" "record_stride (rs_meta (lt_sys s)) = record_stride (ring_meta r)"
proof -
  have m: "(rs_meta (lt_sys s))\<lparr>lost_count := 0\<rparr> = (ring_meta r)\<lparr>lost_count := 0\<rparr>"
    using assms by (simp add: log_threads_inv_def)
  from arg_cong [OF m, of record_max] arg_cong [OF m, of record_stride]
  show "record_max (rs_meta (lt_sys s)) = record_max (ring_meta r)" "record_stride (rs_meta (lt_sys s)) = record_stride (ring_meta r)"
    by simp_all
  then show "slot_count (rs_meta (lt_sys s)) = unat (record_max (ring_meta r))"
      "max_payload_of (rs_meta (lt_sys s)) = max_payload_of (ring_meta r)"
    by (simp_all add: max_payload_of_def)
qed

lemma job_count_step:
  assumes "i < p" "f i = c # cs"
  shows "job_count p f = Suc (job_count p (f(i := cs)))"
proof -
  have "job_count p g = length (g i) + (\<Sum>j\<in>{..<p} - {i}. length (g j))" for g :: "nat \<Rightarrow> 'a list"
    unfolding job_count_def using assms(1) by (intro sum.remove) simp_all
  from this [of f] this [of "f(i := cs)"] show ?thesis
    using assms(2) by simp
qed

text \<open>The threads can take their turns call by call: then every call gets its record, as long as the ring has room.\<close>

lemma turns:
  assumes "log_threads_inv r jobs s" "at_rest (lt_sys s)" "\<forall>i \<ge> p. jobs i = []"
    and "\<forall>i. \<forall>c \<in> set (lt_todo s i). \<exists>le x. call_request le c = Inr x"
    and "length (rs_claimed (lt_sys s)) + job_count p (lt_todo s) \<le> unat (record_max (ring_meta r))"
  shows "\<exists>t. log_thread_step\<^sup>*\<^sup>* s t \<and> log_threads_joined t \<and>
    length (rs_claimed (lt_sys t)) = length (rs_claimed (lt_sys s)) + job_count p (lt_todo s)"
  using assms
proof (induction "job_count p (lt_todo s)" arbitrary: s)
  case 0
  then have "\<forall>i<p. lt_todo s i = []"
    by (simp add: job_count_def)
  moreover have "lt_todo s i = []" if "p \<le> i" for i
    using 0(2,4) that log_threads_past [OF 0(2), of i] by (metis Nil_is_append_conv)
  ultimately have "log_threads_joined s"
    using 0(3) by (auto simp: log_threads_joined_def at_rest_def) (metis not_le)
  then show ?case
    using 0(1) by (intro exI [of _ s]) simp
next
  case (Suc n)
  have "\<exists>i<p. lt_todo s i \<noteq> []"
  proof (rule ccontr)
    assume "\<not> ?thesis"
    then show False
      using Suc(2) by (simp add: job_count_def)
  qed
  then obtain i c cs where i: "i < p" "lt_todo s i = c # cs"
    by (meson neq_Nil_conv)
  then obtain le x where x: "call_request le c = Inr x"
    using Suc(6) by (metis list.set_intros(1))
  note rm = log_threads_slots [OF Suc(3)]
  have c: "counters_left (lt_sys s)" and room: "length (rs_claimed (lt_sys s)) < slot_count (rs_meta (lt_sys s))"
    using Suc(2,7) unat_lt_32 [of "record_max (ring_meta r)"] by (simp_all add: counters_left_def rm(1))
  obtain t where t: "log_thread_step\<^sup>*\<^sup>* s t" "at_rest (lt_sys t)" "lt_todo t = (lt_todo s)(i := cs)"
      "rs_claimed (lt_sys t) = rs_claimed (lt_sys s) @ [(i, request_args x)]"
    using call_alone [OF Suc(3,4) c room i(2) x] by blast
  have n: "job_count p (lt_todo s) = Suc (job_count p (lt_todo t))"
    using job_count_step [of i p "lt_todo s" c cs] i by (simp add: t(3))
  have inv: "log_threads_inv r jobs t"
    using t(1) Suc(3) by (induction rule: rtranclp_induct) (auto intro: log_threads_step)
  have "\<forall>j. \<forall>c \<in> set (lt_todo t j). \<exists>le x. call_request le c = Inr x"
    using Suc(6) i(2) by (auto simp: t(3)) (metis list.set_intros(2))
  then obtain u where "log_thread_step\<^sup>*\<^sup>* t u" "log_threads_joined u"
      "length (rs_claimed (lt_sys u)) = length (rs_claimed (lt_sys t)) + job_count p (lt_todo t)"
    using Suc(1) [of t] Suc(2,5,7) inv t(2,4) n by auto
  then show ?case
    using t(1,4) n by (intro exI [of _ u]) (auto intro: rtranclp_trans)
qed

section \<open>A run with a loss\<close>

text \<open>A compare-exchange that keeps failing without a reason uses up the attempts of a push, although the slot is free.\<close>

lemma attempts_fail:
  assumes tail: "get_tail (rs_mem (lt_sys s)) = pos" and seq: "get_seq (slot_of (rs_meta (lt_sys s)) pos) (rs_mem (lt_sys s)) = pos"
    and st: "st = (\<lambda>p. s\<lparr>lt_sys := (lt_sys s)\<lparr>rs_prod := (rs_prod (lt_sys s))(i := p)\<rparr>\<rparr>)"
  shows "log_thread_step\<^sup>*\<^sup>* (st (PLoad a pos k)) (st (PLoad a pos 0))"
proof (induction k)
  case (Suc k)
  let ?meta = "rs_meta (lt_sys s)" and ?m = "rs_mem (lt_sys s)"
  have "log_thread_step (st (PLoad a pos (Suc k))) (st (PCas a pos k))"
    using call_access [OF refl, of "st (PLoad a pos (Suc k))" i False "PCas a pos k" ?meta ?m] seq by (simp add: st seq_diff_def)
  also have "log_thread_step\<^sup>*\<^sup>* (st (PCas a pos k)) (st (PLoad a pos k))"
    using call_access [OF refl, of "st (PCas a pos k)" i True "PLoad a pos k" ?meta ?m] tail
    by (simp add: st atomic_compare_exchange_weak_u64_def r_into_rtranclp)
  finally show ?case
    using Suc.IH by (rule rtranclp_trans)
qed simp

lemma call_lost:
  assumes inv: "log_threads_inv r jobs s" and rest: "at_rest (lt_sys s)" and c: "counters_left (lt_sys s)"
    and room: "length (rs_claimed (lt_sys s)) < slot_count (rs_meta (lt_sys s))"
    and todo: "lt_todo s i = call # cs" "call_request le call = Inr x"
  shows "\<exists>t. log_thread_step\<^sup>*\<^sup>* s t \<and> at_rest (lt_sys t) \<and> lt_todo t = (lt_todo s)(i := cs) \<and> rs_claimed (lt_sys t) = rs_claimed (lt_sys s)"
proof -
  let ?sys = "lt_sys s" and ?t = "length (rs_claimed (lt_sys s))" and ?a = "request_args x"
  have idle: "rs_cons ?sys = CIdle" "rs_prod ?sys j = PIdle" for j
    using rest by (auto simp: at_rest_def)
  define pos :: u64 where "pos = of_nat ?t"
  note free = free_slot [OF inv rest c room, folded pos_def]
  let ?m = "rs_mem ?sys" and ?meta = "rs_meta ?sys"
  define st where st: "st = (\<lambda>p. s\<lparr>lt_sys := ?sys\<lparr>rs_prod := (rs_prod ?sys)(i := p)\<rparr>\<rparr>)"
  define lost where lost: "lost = s\<lparr>lt_sys := ?sys\<lparr>rs_meta := ?meta\<lparr>lost_count := lost_count ?meta + 1\<rparr>, rs_prod := (rs_prod ?sys)(i := PDone ?a RingFull),
      rs_dropped := rs_dropped ?sys @ [(i, ?a)]\<rparr>\<rparr>"
  define u where u: "u = s\<lparr>lt_sys := ?sys\<lparr>rs_meta := ?meta\<lparr>lost_count := lost_count ?meta + 1\<rparr>, rs_dropped := rs_dropped ?sys @ [(i, ?a)],
      rs_prod := (rs_prod ?sys)(i := PIdle), rs_returned := rs_returned ?sys @ [(i, ?a, RingFull)]\<rparr>, lt_todo := (lt_todo s)(i := cs)\<rparr>"
  have "log_thread_step s (st (PStart ?a))"
    using call_begins [OF todo(1) idle(2) todo(2)] by (simp add: st)
  also have "log_thread_step\<^sup>*\<^sup>* (st (PStart ?a)) (st (PLoad ?a pos MPSC_CAS_RETRY_BUDGET))"
    using call_access [OF refl, of "st (PStart ?a)" i False "PLoad ?a pos MPSC_CAS_RETRY_BUDGET" ?meta ?m] free by (simp add: st r_into_rtranclp)
  also have "log_thread_step\<^sup>*\<^sup>* (st (PLoad ?a pos MPSC_CAS_RETRY_BUDGET)) (st (PLoad ?a pos 0))"
    by (rule attempts_fail [OF free(2,3) st])
  also have "log_thread_step\<^sup>*\<^sup>* (st (PLoad ?a pos 0)) (st (PLost ?a))"
    using call_access [OF refl, of "st (PLoad ?a pos 0)" i False "PLost ?a" ?meta ?m] by (simp add: st r_into_rtranclp)
  also have "log_thread_step\<^sup>*\<^sup>* (st (PLost ?a)) lost"
    using call_access [OF refl, of "st (PLost ?a)" i False "PDone ?a RingFull" "?meta\<lparr>lost_count := lost_count ?meta + 1\<rparr>" ?m]
    by (simp add: st lost atomic_fetch_add_u64_def r_into_rtranclp)
  also have "log_thread_step\<^sup>*\<^sup>* lost u"
    using call_returns [OF refl, of lost i ?a RingFull] todo(1) by (simp add: lost u r_into_rtranclp)
  finally show ?thesis
    using idle by (intro exI [of _ u]) (simp add: u at_rest_def)
qed

end
