(* ===== verification/Example_Logging.thy ===== *)
theory Example_Logging
  imports Example_Programs Log_Threads
begin

text \<open>
  The logging demo with several threads, \<^verbatim>\<open>apps/logging/examples/demo_multi_producer.cpp\<close>: four threads log
  through one logger; when they are joined, a center polls until it has seen as many records as the threads made calls.
\<close>

section \<open>The program\<close>

definition multi_segment :: "u32 \<Rightarrow> string" where
  "multi_segment pid = ''/shmfx.log.multidemo_'' @ int_text (sint pid)"

definition multi_options :: "u32 \<Rightarrow> LoggerOptions" where
  "multi_options pid =
     default_options\<lparr>lo_service_name := ''multidemo'', lo_segment_name := multi_segment pid, lo_record_max := 256\<rparr>"

definition multi_jobs :: "nat \<Rightarrow> log_call list" where
  "multi_jobs tid =
     (if tid < 4
      then map (\<lambda>i. LogFormat (\<lambda>f. Some (expand_d [int tid, int i] f)) Info (Some ''thread=%d i=%d'')) [0..<8]
      else [])"

text \<open>The sink counts the records and prints their texts.\<close>

definition multi_center :: "(nat \<times> string list) LogCenter" where
  "multi_center =
     set_sink (Some (\<lambda>r (drained, out). (drained + 1, out @ [lr_payload r])))
       (LogCenter_of (default_center_options\<lparr>lco_prefix := ''/shmfx.log.multidemo_''\<rparr>))"

text \<open>The polling loop, with the answers of the system for pass \<open>k\<close>.\<close>

inductive multi_poll ::
  "(nat \<Rightarrow> u64) \<Rightarrow> (nat \<Rightarrow> nat \<Rightarrow> os_env) \<Rightarrow> os_env \<Rightarrow> nat \<Rightarrow> (nat \<times> string list) LogCenter \<Rightarrow> nat \<times> string list \<Rightarrow>
   log_world \<Rightarrow> (nat \<times> string list) LogCenter \<times> (nat \<times> string list) \<times> log_world \<Rightarrow> bool"
  for addr polls env where
  poll_stops: "\<not> fst st < 4 * 8 \<Longrightarrow> multi_poll addr polls env k c st lw (c, st, lw)"
| poll_again: "fst st < 4 * 8 \<Longrightarrow> poll_once addr (polls k) env c st lw = Some (r, c', st', lw') \<Longrightarrow>
    multi_poll addr polls env (Suc k) c' st' lw' res \<Longrightarrow> multi_poll addr polls env k c st lw res"

inductive_cases multi_pollE: "multi_poll addr polls env k c st lw res"

text \<open>The loop cut off after \<open>n\<close> passes: \<open>None\<close> if it ended before or waits in one of them.\<close>

primrec multi_passes ::
  "(nat \<Rightarrow> u64) \<Rightarrow> (nat \<Rightarrow> nat \<Rightarrow> os_env) \<Rightarrow> os_env \<Rightarrow> nat \<Rightarrow> log_world \<Rightarrow>
   ((nat \<times> string list) LogCenter \<times> (nat \<times> string list) \<times> log_world) option" where
  "multi_passes addr polls env 0 lw = Some (multi_center, (0, []), lw)"
| "multi_passes addr polls env (Suc n) lw =
     (case multi_passes addr polls env n lw of
        None \<Rightarrow> None
      | Some (c, st, lw') \<Rightarrow>
          if fst st < 4 * 8
          then (case poll_once addr (polls n) env c st lw' of None \<Rightarrow> None | Some (r, c', st', lw'') \<Rightarrow> Some (c', st', lw''))
          else None)"

inductive demo_multi_main ::
  "(nat \<Rightarrow> u64) \<Rightarrow> demo_system_env \<Rightarrow> (nat \<Rightarrow> nat \<Rightarrow> os_env) \<Rightarrow> u32 \<Rightarrow> log_world \<Rightarrow> run_result \<times> log_world \<Rightarrow> bool"
  for addr d polls pid lw where
  multi_init_fails: "destroy (de_cleanup d) (multi_segment pid) (lw_world lw) = Some (e0, w1) \<Longrightarrow>
    logger_init addr (de_init d) (multi_options pid) (lw\<lparr>lw_world := w1\<rparr>) = Some (Inl e, lw2) \<Longrightarrow>
    demo_multi_main addr d polls pid lw (\<lparr>rn_exit = 1, rn_out = [], rn_err = [''logger init failed: '' @ to_string e]\<rparr>, lw2)"
| multi_ends: "destroy (de_cleanup d) (multi_segment pid) (lw_world lw) = Some (e0, w1) \<Longrightarrow>
    logger_init addr (de_init d) (multi_options pid) (lw\<lparr>lw_world := w1\<rparr>) = Some (Inr lg, lw2) \<Longrightarrow>
    log_threads_run (open_ring (lg_ring lg) lw2) multi_jobs s \<Longrightarrow>
    lw3 = close_ring (lg_ring lg) (shared_ring (rv_data (lg_ring lg)) (lt_sys s)) lw2 \<Longrightarrow>
    multi_poll addr polls (de_end d) 0 multi_center (0, []) lw3 (c, (drained, out), lw4) \<Longrightarrow>
    destroy (de_end d) (multi_segment pid) (lw_world lw4) = Some (e1, w5) \<Longrightarrow>
    center_close (de_end d) c (lw4\<lparr>lw_world := w5\<rparr>) = Some lw6 \<Longrightarrow>
    logger_close (de_end d) lg lw6 = Some lw7 \<Longrightarrow>
    demo_multi_main addr d polls pid lw (\<lparr>rn_exit = 0, rn_out = out, rn_err = []\<rparr>, lw7)"

inductive_cases demo_multi_mainE: "demo_multi_main addr d polls pid lw res"

section \<open>Facts of the program\<close>

definition multi_text :: "nat \<Rightarrow> nat \<Rightarrow> string" where
  "multi_text tid i = ''thread='' @ decimal tid @ '' i='' @ decimal i"

lemma multi_name_parse:
  assumes "unat pid < 2 ^ 31"
  shows "parse_and_validate_name (multi_segment pid) =
    Inr \<lparr>pn_ns = ''log'', pn_leaf = ''multidemo_'' @ decimal (unat pid), pn_bootstrap = False\<rparr>"
proof -
  have "valid_service_name ''multidemo''"
    by (simp add: valid_service_name_def is_service_tail_char_def char_between_def)
  then show ?thesis
    using default_name_parse [of "''multidemo''" pid] assms by (simp add: multi_segment_def pid_text default_segment_name_def)
qed

lemma multi_options_facts:
  "valid_service_name (lo_service_name (multi_options pid))" "lo_segment_name (multi_options pid) = multi_segment pid"
  "lo_record_max (multi_options pid) = 256" "lo_max_payload (multi_options pid) = 1024" "lo_flags (multi_options pid) = 0"
  by (simp_all add: multi_options_def default_options_def valid_service_name_def is_service_tail_char_def char_between_def)

lemma multi_security:
  assumes "unat pid < 2 ^ 31"
  shows "validate_create_security (make_create_options (multi_options pid) (multi_segment pid)) [] = Ok"
  using multi_name_parse [OF assms]
  by (simp add: validate_create_security_def make_create_options_def Let_def ring_payload_offset multi_options_facts stride_1024 payload_size_for_def
      record_area_offset_def slot_meta_offset_def align_up_def)
    (simp add: shm_consts kMaxNamespaceSegments_def push_bit_eq_mult)

lemma multi_jobs_laws: "\<forall>i \<ge> 4. multi_jobs i = []" "job_count 4 multi_jobs = 32"
  "c \<in> set (multi_jobs i) \<Longrightarrow> \<exists>le x. call_request le c = Inr x"
  by (auto simp: multi_jobs_def job_count_def split: if_splits)

lemma multi_center_facts:
  "lc_rings multi_center = []" "lco_prefix (lc_options multi_center) = ''/shmfx.log.multidemo_''"
  "unat (lco_drain_batch (lc_options multi_center)) = 256" "unat (lco_scratch_bytes (lc_options multi_center)) = 4096"
  by (simp_all add: multi_center_def set_sink_def LogCenter_of_def default_center_options_def)

lemma multi_sink: "fold (lc_sink multi_center) records (n, out) = (n + length records, out @ map lr_payload records)"
  by (induction records arbitrary: n out) (simp_all add: multi_center_def set_sink_def LogCenter_of_def)

lemma multi_call_text:
  assumes "asks (multi_jobs tid ! i) a" "tid < 4" "i < 8" "max_payload_of meta = 1072"
  shows "lr_payload (log_record name 4096 (args_record meta a)) = multi_text tid i"
proof -
  obtain le x where x: "call_request le (multi_jobs tid ! i) = Inr x" "a = request_args x"
    using assms(1) by (auto simp: asks_def)
  have len: "length (decimal tid) \<le> 2" "length (decimal i) \<le> 2"
    using decimal_length [of tid 1] decimal_length [of i 1] assms(2,3) by simp_all
  have "lq_payload x = text_bytes (take 1023 (multi_text tid i))"
    using x(1) assms(2,3) by (auto simp: multi_jobs_def multi_text_def int_text_def)
  then have p: "lq_payload x = text_bytes (multi_text tid i)" "length (multi_text tid i) \<le> 16"
    using len by (auto simp: multi_text_def)
  have "lr_payload (log_record name 4096 (args_record meta a)) = lr_payload (request_record name 4096 (unat (max_payload_of meta)) x)"
    using stored_request [of name 4096 meta x] by (simp add: x(2) args_record_def request_args_def)
  then show ?thesis
    using p by (simp add: request_record_def assms(4))
qed

section \<open>The phases of the program\<close>

lemma multi_setup:
  assumes lw: "world_ok (lw_world lw)" "reg_map (lw_world lw) = Map.empty" "multi_segment pid \<notin> dom (w_names (lw_world lw))"
    and pid: "unat pid < 2 ^ 31" and addr: "page_aligned addr" and env: "calm (env 0) (multi_segment pid)"
  shows "\<exists>lg e lw2. logger_init addr env (multi_options pid) lw = Some (Inr lg, lw2) \<and>
    fresh_logger (multi_options pid) (multi_segment pid) (env 0) lg e lw2 \<and>
    w_names (lw_world lw2) = (w_names (lw_world lw))(multi_segment pid \<mapsto> hd_base (lg_handle lg)) \<and> reg_map (lw_world lw2) = [multi_segment pid \<mapsto> e]"
proof -
  let ?n = "multi_segment pid" and ?o = "multi_options pid"
  have l: "listed [] (reg_payload (lw_world lw)) = []"
    by (intro listed_empty world_ok_registry lw)
  have opts: "2 \<le> unat (lo_record_max ?o)" "lo_max_payload ?o \<noteq> 0" "unat (lo_max_payload ?o) + 16 \<le> 4294967232"
      "?n = (if lo_segment_name ?o = [] then default_segment_name (os_pid (env 0)) (lo_service_name ?o) else lo_segment_name ?o)"
      "lo_flags ?o AND HmacEnabled = 0 \<or> load_hmac_key (os_keys (env 0)) \<noteq> None"
      "card (dom (reg_map (lw_world lw))) < MAX_REGISTRY_ENTRIES"
    unfolding multi_options_facts lw(2) by (simp_all add: multi_segment_def shm_consts)
  show ?thesis
    using logger_segment [where env = env, OF lw(1) multi_options_facts(1) opts(1-4) lw(3) multi_name_parse [OF pid] _ env addr _ opts(5,6)]
      multi_security [OF pid] lw(2) by (auto simp: l)
qed

lemma multi_start:
  assumes f: "fresh_logger (multi_options pid) n env lg e lw"
  shows "ring_start (system_of (open_ring (lg_ring lg) lw))"
proof -
  obtain sp where "ring_initialize sp 256 1024 = Inr (open_ring (lg_ring lg) lw)"
    using f unfolding fresh_logger_def Let_def multi_options_facts by blast
  then show ?thesis
    unfolding ring_start_def by (intro exI [of _ sp] exI [of _ 256] exI [of _ 1024] exI [of _ "open_ring (lg_ring lg) lw"]) simp
qed

text \<open>What the threads leave: a running logger whose ring holds the records that were accepted.\<close>

lemma multi_threads:
  assumes f: "fresh_logger (multi_options pid) n env lg e lw" and run: "log_threads_run (open_ring (lg_ring lg) lw) multi_jobs s"
    and lw': "lw' = close_ring (lg_ring lg) (shared_ring (rv_data (lg_ring lg)) (lt_sys s)) lw"
  shows "log_threads_inv (open_ring (lg_ring lg) lw) multi_jobs s" "running_logger (multi_options pid) n env lg e lw'"
    "view_records n 4096 (lg_ring lg) lw' = map (log_record n 4096 \<circ> args_record (rs_meta (lt_sys s)) \<circ> snd) (rs_claimed (lt_sys s))"
    "max_payload_of (rs_meta (lt_sys s)) = 1072"
proof -
  let ?v = "lg_ring lg" and ?sys = "lt_sys s"
  let ?r = "open_ring ?v lw" and ?r' = "shared_ring (rv_data ?v) ?sys"
  note start = multi_start [OF f]
  have fresh: "ring_ok ?v lw" "ring_meta ?r = fresh_meta 256 1088"
    using f unfolding fresh_logger_def Let_def multi_options_facts stride_1024 by blast+
  have "reachable (\<lambda>s. ring_start (system_of ?r) \<and> s = log_threads_of ?r multi_jobs) log_thread_step s"
    using run start by (simp add: log_threads_run_def)
  from thread_log.unbounded.reachable_inv [OF this TrueI] show inv: "log_threads_inv ?r multi_jobs s" .
  have joined: "log_threads_joined s"
    using run by (simp add: log_threads_run_def)
  note slots = log_threads_slots [OF inv]
  show "max_payload_of (rs_meta ?sys) = 1072"
    unfolding slots(2) fresh(2) by (simp add: fresh_meta_def max_payload_of_def shm_consts)
  have reach: "ring_reachable ?sys" "counters_left ?sys" and popped: "rs_popped ?sys = []"
    using inv joined_count [OF inv joined multi_jobs_laws(1)] slots(1) by (simp_all add: log_threads_inv_def counters_left_def fresh(2) fresh_meta_def multi_jobs_laws(2))
  note rest = rest_ring [OF reach joined_rest [OF inv joined]]
  have frame: "ring_frame ?r' = ring_frame ?r"
    using slots(3,4) by (simp add: ring_frame_def shared_ring_def ring_meta_def open_ring_def)
  note oc = open_close [OF fresh(1) rest(1) frame]
  have w: "lw_world lw' = lw_world lw"
    by (simp add: lw' close_ring_def)
  show "running_logger (multi_options pid) n env lg e lw'"
    using frame by (intro running_frame [OF fresh_running [OF f] w]) (simp_all add: lw' oc ring_frame_def)
  show "view_records n 4096 ?v lw' = map (log_record n 4096 \<circ> args_record (rs_meta ?sys) \<circ> snd) (rs_claimed ?sys)"
    by (simp add: view_records_def lw' oc(1) rest(4) popped)
qed

lemma multi_loop_stuck:
  assumes "multi_poll addr polls env2 k c st lw res" "fst st < 32"
    and "running_logger opts name env lg e lw" "reg_map (lw_world lw) = [name \<mapsto> e]" "watches c ar name lg"
    and "ring_items (open_ring (lg_ring lg) lw) = []" "name = lco_prefix (lc_options c) @ rest"
    and sys: "\<And>k. calm (polls k 0) name" "\<And>k. owner_alive env (polls k 0)"
  shows False
  using assms(1-7)
proof (induction rule: multi_poll.induct)
  case (poll_again st k c lw r c' st' lw' res)
  obtain r0 c0 lw0 where "poll_once addr (polls k) env2 c st lw = Some (r0, c0, st, lw0)" "watches c0 ar name lg" "lc_options c0 = lc_options c"
      "running_logger opts name env lg e lw0" "lw_world lw0 = lw_world lw" "ring_items (open_ring (lg_ring lg) lw0) = []"
    using later_poll [where denv = "polls k", OF poll_again(6,7) sys(1) sys(2) poll_again(10,8,9)] by blast
  then show ?case
    using poll_again by auto
qed simp

text \<open>The first pass takes what the threads left; if that is not all the loop waits for, all further passes find nothing.\<close>

lemma multi_first_pass:
  assumes f: "running_logger (multi_options pid) name env lg e lw" and parse: "parse_and_validate_name name = Inr p" "name \<noteq> REGISTRY_NAME"
    and map: "reg_map (lw_world lw) = [name \<mapsto> e]" and pre: "name = ''/shmfx.log.multidemo_'' @ rest" and addr: "page_aligned addr"
    and sys: "\<And>i. calm (penv i) name" "\<And>i. owner_alive env (penv i)" "\<And>i. os_keys (penv i) = os_keys env"
    and records: "view_records name 4096 (lg_ring lg) lw = records" "length records \<le> 32"
  shows "\<exists>r c ar lw'. poll_once addr penv env2 multi_center (0, []) lw = Some (r, c, (length records, map lr_payload records), lw') \<and>
    watches c ar name lg \<and> lc_options c = lc_options multi_center \<and> running_logger (multi_options pid) name env lg e lw' \<and>
    reg_map (lw_world lw') = [name \<mapsto> e] \<and> w_names (lw_world lw') = w_names (lw_world lw) \<and> ring_items (open_ring (lg_ring lg) lw') = []"
proof -
  have opts: "2 \<le> unat (lo_record_max (multi_options pid))" "unat (lo_max_payload (multi_options pid)) + 16 \<le> 4294967232"
      "name = lco_prefix (lc_options multi_center) @ rest" "length records \<le> unat (lco_drain_batch (lc_options multi_center))"
      "view_records name (unat (lco_scratch_bytes (lc_options multi_center))) (lg_ring lg) lw = records"
    using records pre by (simp_all add: multi_options_facts multi_center_facts)
  show ?thesis
    using first_poll [where denv = penv, OF f parse map sys(1) sys(1) sys(2) sys(2) sys(3) opts(3) addr opts(1,2) multi_center_facts(1) opts(5,4),
        of env2 "(0, [])"] by (auto simp: multi_sink)
qed

lemma multi_passes_on:
  assumes f: "running_logger (multi_options pid) name env lg e lw" and parse: "parse_and_validate_name name = Inr p" "name \<noteq> REGISTRY_NAME"
    and map: "reg_map (lw_world lw) = [name \<mapsto> e]" and pre: "name = ''/shmfx.log.multidemo_'' @ rest" and addr: "page_aligned addr"
    and sys: "\<And>k i. calm (polls k i) name" "\<And>k i. owner_alive env (polls k i)" "\<And>k i. os_keys (polls k i) = os_keys env"
    and records: "view_records name 4096 (lg_ring lg) lw = records" "length records < 32"
  shows "\<exists>c ar lw'. multi_passes addr polls env2 (Suc n) lw = Some (c, (length records, map lr_payload records), lw') \<and>
    watches c ar name lg \<and> lc_options c = lc_options multi_center \<and> running_logger (multi_options pid) name env lg e lw' \<and>
    reg_map (lw_world lw') = [name \<mapsto> e] \<and> ring_items (open_ring (lg_ring lg) lw') = []"
proof (induction n)
  case 0
  obtain r c ar lw' where "poll_once addr (polls 0) env2 multi_center (0, []) lw = Some (r, c, (length records, map lr_payload records), lw')"
      "watches c ar name lg" "lc_options c = lc_options multi_center" "running_logger (multi_options pid) name env lg e lw'"
      "reg_map (lw_world lw') = [name \<mapsto> e]" "ring_items (open_ring (lg_ring lg) lw') = []"
    using multi_first_pass [where penv = "polls 0" and ?env2.0 = env2, OF f parse map pre addr sys records(1)] records(2) by auto
  then show ?case
    by (intro exI [of _ c] exI [of _ ar] exI [of _ lw']) simp
next
  case (Suc n)
  then obtain c ar lw' where p: "multi_passes addr polls env2 (Suc n) lw = Some (c, (length records, map lr_payload records), lw')"
      "watches c ar name lg" "lc_options c = lc_options multi_center" "running_logger (multi_options pid) name env lg e lw'"
      "reg_map (lw_world lw') = [name \<mapsto> e]" "ring_items (open_ring (lg_ring lg) lw') = []"
    by blast
  have "name = lco_prefix (lc_options c) @ rest"
    using pre by (simp add: p(3) multi_center_facts)
  from later_poll [where denv = "polls (Suc n)", OF p(4,5) sys(1) sys(2) this p(2,6)]
  obtain r c' lw'' where q: "poll_once addr (polls (Suc n)) env2 c (length records, map lr_payload records) lw' =
        Some (r, c', (length records, map lr_payload records), lw'')" "watches c' ar name lg" "lc_options c' = lc_options c"
      "running_logger (multi_options pid) name env lg e lw''" "lw_world lw'' = lw_world lw'" "ring_items (open_ring (lg_ring lg) lw'') = []"
    by blast
  have "multi_passes addr polls env2 (Suc (Suc n)) lw = Some (c', (length records, map lr_payload records), lw'')"
    using records(2) by (subst multi_passes.simps(2)) (simp add: p(1) q(1) del: multi_passes.simps)
  then show ?case
    using q(2-6) p(3,5) by (intro exI [of _ c'] exI [of _ ar] exI [of _ lw'']) (simp del: multi_passes.simps)
qed

text \<open>The loop: it ends exactly if all calls of the threads got their records.\<close>

lemma multi_loop:
  assumes f: "running_logger (multi_options pid) name env lg e lw" and parse: "parse_and_validate_name name = Inr p" "name \<noteq> REGISTRY_NAME"
    and map: "reg_map (lw_world lw) = [name \<mapsto> e]" and pre: "name = ''/shmfx.log.multidemo_'' @ rest" and addr: "page_aligned addr"
    and sys: "\<And>k i. calm (polls k i) name" "\<And>k i. owner_alive env (polls k i)" "\<And>k i. os_keys (polls k i) = os_keys env"
    and records: "view_records name 4096 (lg_ring lg) lw = records" "length records \<le> 32"
  shows "length records = 32 \<Longrightarrow> \<exists>c ar lw'. multi_poll addr polls env2 0 multi_center (0, []) lw (c, (32, map lr_payload records), lw') \<and>
      watches c ar name lg \<and> running_logger (multi_options pid) name env lg e lw' \<and> reg_map (lw_world lw') = [name \<mapsto> e] \<and>
      w_names (lw_world lw') = w_names (lw_world lw) \<and>
      (\<forall>res. multi_poll addr polls env2 0 multi_center (0, []) lw res \<longrightarrow> res = (c, (32, map lr_payload records), lw'))"
    and "length records < 32 \<Longrightarrow> \<not> multi_poll addr polls env2 0 multi_center (0, []) lw res"
proof -
  obtain r c ar lw' where p: "poll_once addr (polls 0) env2 multi_center (0, []) lw = Some (r, c, (length records, map lr_payload records), lw')"
      "watches c ar name lg" "lc_options c = lc_options multi_center" "running_logger (multi_options pid) name env lg e lw'"
      "reg_map (lw_world lw') = [name \<mapsto> e]" "w_names (lw_world lw') = w_names (lw_world lw)" "ring_items (open_ring (lg_ring lg) lw') = []"
    using multi_first_pass [where penv = "polls 0" and ?env2.0 = env2, OF f parse map pre addr sys records] by blast
  have opts: "name = lco_prefix (lc_options multi_center) @ rest"
    using pre by (simp add: multi_center_facts)
  have step: "multi_poll addr polls env2 0 multi_center (0, []) lw res \<longleftrightarrow>
      multi_poll addr polls env2 1 c (length records, map lr_payload records) lw' res" for res
    using p(1) by (subst multi_poll.simps) auto
  show "\<not> multi_poll addr polls env2 0 multi_center (0, []) lw res" if "length records < 32"
    using multi_loop_stuck [OF _ _ p(4,5,2,7), of addr polls env2 1 "(length records, map lr_payload records)" res rest] that opts sys
    by (auto simp: step p(3))
  assume all: "length records = 32"
  have "multi_poll addr polls env2 1 c (32, map lr_payload records) lw' res \<longleftrightarrow> res = (c, (32, map lr_payload records), lw')" for res
    by (subst multi_poll.simps) auto
  then show "\<exists>c ar lw'. multi_poll addr polls env2 0 multi_center (0, []) lw (c, (32, map lr_payload records), lw') \<and>
      watches c ar name lg \<and> running_logger (multi_options pid) name env lg e lw' \<and> reg_map (lw_world lw') = [name \<mapsto> e] \<and>
      w_names (lw_world lw') = w_names (lw_world lw) \<and>
      (\<forall>res. multi_poll addr polls env2 0 multi_center (0, []) lw res \<longrightarrow> res = (c, (32, map lr_payload records), lw'))"
    using p(2,4-6) all unfolding step by (intro exI [of _ c] exI [of _ ar] exI [of _ lw']) simp
qed

section \<open>What the program prints\<close>

text \<open>The texts of the accepted records, when all calls were accepted.\<close>

lemma multi_output:
  assumes inv: "log_threads_inv r multi_jobs s" and joined: "log_threads_joined s" and all: "length (rs_claimed (lt_sys s)) = 32"
    and mp: "max_payload_of (rs_meta (lt_sys s)) = 1072"
  shows "\<exists>order. (\<forall>tid. map snd (filter (\<lambda>x. fst x = tid) order) = (if tid < 4 then map (multi_text tid) [0..<8] else [])) \<and>
    map lr_payload (map (log_record n 4096 \<circ> args_record (rs_meta (lt_sys s)) \<circ> snd) (rs_claimed (lt_sys s))) = map snd order"
proof -
  let ?xs = "rs_claimed (lt_sys s)"
  let ?f = "\<lambda>a. lr_payload (log_record n 4096 (args_record (rs_meta (lt_sys s)) a))"
  let ?order = "map (\<lambda>(i, a). (i, ?f a)) ?xs"
  have "map snd (filter (\<lambda>x. fst x = tid) ?order) = map ?f (claims_of tid ?xs)" for tid
    by (simp add: claims_of_def filter_map comp_def case_prod_beta)
  moreover have "map ?f (claims_of tid ?xs) = (if tid < 4 then map (multi_text tid) [0..<8] else [])" for tid
  proof -
    have a: "list_all2 asks (multi_jobs tid) (claims_of tid ?xs)"
      using joined_complete [OF inv joined multi_jobs_laws(1)] all by (simp add: multi_jobs_laws(2))
    show ?thesis
    proof (cases "tid < 4")
      case True
      then have "length (multi_jobs tid) = 8"
        by (simp add: multi_jobs_def)
      then show ?thesis
        using a True list_all2_lengthD [OF a] multi_call_text [OF list_all2_nthD [OF a] True _ mp]
        by (intro nth_equalityI) simp_all
    next
      case False
      then show ?thesis
        using a by (simp add: multi_jobs_def)
    qed
  qed
  ultimately show ?thesis
    by (intro exI [of _ ?order]) (simp add: comp_def case_prod_beta)
qed

text \<open>A system in which no call of the program fails and the process lives.\<close>

definition multi_system :: "demo_system_env \<Rightarrow> (nat \<Rightarrow> nat \<Rightarrow> os_env) \<Rightarrow> string \<Rightarrow> bool" where
  "multi_system d polls name \<longleftrightarrow>
     os_unlink_fail (de_cleanup d) name = None \<and> os_unlink_fail (de_end d) name = None \<and> calm (de_init d 0) name \<and>
     (\<forall>k i. calm (polls k i) name \<and> owner_alive (de_init d 0) (polls k i) \<and> os_keys (polls k i) = os_keys (de_init d 0))"

lemma multi_systemD:
  assumes "multi_system d polls (multi_segment pid)" "unat pid < 2 ^ 31"
  shows "multi_segment pid \<noteq> REGISTRY_NAME" "multi_segment pid = ''/shmfx.log.multidemo_'' @ int_text (sint pid)"
    "os_unlink_fail (de_end d) (multi_segment pid) = None" "calm (polls k i) (multi_segment pid)" "owner_alive (de_init d 0) (polls k i)"
    "os_keys (polls k i) = os_keys (de_init d 0)"
  using assms(1) multi_name_parse [OF assms(2)] by (auto simp: multi_system_def multi_segment_def parse_and_validate_name_def)

definition calm_demo :: demo_system_env where
  "calm_demo =
     \<lparr>de_cleanup = demo_env, de_init = \<lambda>_. demo_env, de_log = \<lambda>_. demo_log_env, de_poll = \<lambda>_. demo_env, de_end = demo_env\<rparr>"

lemma calm_demo_system: "multi_system calm_demo (\<lambda>_ _. demo_env) (multi_segment 42)"
  using demo_calm [of "multi_segment 42"] demo_alive by (simp add: multi_system_def calm_demo_def)

lemma multi_turns:
  assumes f: "fresh_logger (multi_options pid) n env lg e lw"
  shows "\<exists>s. log_threads_run (open_ring (lg_ring lg) lw) multi_jobs s \<and> length (rs_claimed (lt_sys s)) = 32"
proof -
  let ?r = "open_ring (lg_ring lg) lw"
  let ?s = "log_threads_of ?r multi_jobs"
  have "record_max (ring_meta ?r) = 256"
    using f unfolding fresh_logger_def Let_def multi_options_facts by (simp add: fresh_meta_def)
  then have "\<exists>t. log_thread_step\<^sup>*\<^sup>* ?s t \<and> log_threads_joined t \<and> length (rs_claimed (lt_sys t)) = 32"
    using turns [OF log_threads_start [OF multi_start [OF f]] _ multi_jobs_laws(1)] multi_jobs_laws(2,3)
    by (simp add: log_threads_of_def system_of_def at_rest_def)
  then show ?thesis
    unfolding log_threads_run_def using reachable_steps [OF reach_start [of "\<lambda>s. s = ?s", OF refl]] by blast
qed

text \<open>The program from the joined threads to its end.\<close>

lemma multi_tail:
  assumes f: "fresh_logger (multi_options pid) n env lg e lw" and run: "log_threads_run (open_ring (lg_ring lg) lw) multi_jobs s"
    and lw3: "lw3 = close_ring (lg_ring lg) (shared_ring (rv_data (lg_ring lg)) (lt_sys s)) lw"
    and parse: "parse_and_validate_name n = Inr p" "n \<noteq> REGISTRY_NAME" and map: "reg_map (lw_world lw) = [n \<mapsto> e]"
    and pre: "n = ''/shmfx.log.multidemo_'' @ rest" and addr: "page_aligned addr" and fin: "os_unlink_fail fenv n = None"
    and sys: "\<And>k i. calm (polls k i) n" "\<And>k i. owner_alive env (polls k i)" "\<And>k i. os_keys (polls k i) = os_keys env"
  shows "length (rs_claimed (lt_sys s)) < 32 \<Longrightarrow> \<not> multi_poll addr polls fenv 0 multi_center (0, []) lw3 res"
    and "length (rs_claimed (lt_sys s)) = 32 \<Longrightarrow> \<exists>c out lw4 e1 w5 lw6 lw7.
      (\<forall>res. multi_poll addr polls fenv 0 multi_center (0, []) lw3 res \<longleftrightarrow> res = (c, (32, out), lw4)) \<and>
      destroy fenv n (lw_world lw4) = Some (e1, w5) \<and> center_close fenv c (lw4\<lparr>lw_world := w5\<rparr>) = Some lw6 \<and>
      logger_close fenv lg lw6 = Some lw7 \<and> w_names (lw_world lw7) = (w_names (lw_world lw))(n := None) \<and> reg_map (lw_world lw7) = Map.empty \<and>
      (\<exists>order. (\<forall>tid. map snd (filter (\<lambda>x. fst x = tid) order) = (if tid < 4 then map (multi_text tid) [0..<8] else [])) \<and> out = map snd order)"
    and "length (rs_claimed (lt_sys s)) \<le> 32"
proof -
  note t = multi_threads [OF f run lw3]
  have joined: "log_threads_joined s"
    using run by (simp add: log_threads_run_def)
  show le: "length (rs_claimed (lt_sys s)) \<le> 32"
    using joined_count [OF t(1) joined multi_jobs_laws(1)] by (simp add: multi_jobs_laws(2))
  have w: "lw_world lw3 = lw_world lw"
    by (simp add: lw3 close_ring_def)
  have map3: "reg_map (lw_world lw3) = [n \<mapsto> e]"
    using map by (simp add: w)
  let ?records = "map (log_record n 4096 \<circ> args_record (rs_meta (lt_sys s)) \<circ> snd) (rs_claimed (lt_sys s))"
  have few: "length ?records \<le> 32"
    using le by simp
  note loop = multi_loop [where polls = polls and ?env2.0 = fenv, OF t(2) parse map3 pre addr sys t(3) few]
  show "\<not> multi_poll addr polls fenv 0 multi_center (0, []) lw3 res" if "length (rs_claimed (lt_sys s)) < 32"
    using loop(2) that by simp
  assume all: "length (rs_claimed (lt_sys s)) = 32"
  obtain c ar lw4 where c: "multi_poll addr polls fenv 0 multi_center (0, []) lw3 (c, (32, map lr_payload ?records), lw4)"
      "watches c ar n lg" "running_logger (multi_options pid) n env lg e lw4" "reg_map (lw_world lw4) = [n \<mapsto> e]"
      "w_names (lw_world lw4) = w_names (lw_world lw3)"
      "\<forall>res. multi_poll addr polls fenv 0 multi_center (0, []) lw3 res \<longrightarrow> res = (c, (32, map lr_payload ?records), lw4)"
    using loop(1) all by (simp only: length_map) blast
  note q = running_ring [OF c(3)]
  have "n \<in> dom (w_names (lw_world lw4))"
    using q(4) by auto
  from session_ends [OF q(3) parse this fin c(2) q(2)] obtain e1 w5 lw6 lw7 where u: "destroy fenv n (lw_world lw4) = Some (e1, w5)"
      "center_close fenv c (lw4\<lparr>lw_world := w5\<rparr>) = Some lw6" "logger_close fenv lg lw6 = Some lw7"
      "w_names (lw_world lw7) = (w_names (lw_world lw4))(n := None)" "reg_map (lw_world lw7) = (reg_map (lw_world lw4))(n := None)"
    by blast
  have poll: "\<forall>res. multi_poll addr polls fenv 0 multi_center (0, []) lw3 res \<longleftrightarrow> res = (c, (32, map lr_payload ?records), lw4)"
    using c(1,6) by blast
  show "\<exists>c out lw4 e1 w5 lw6 lw7.
      (\<forall>res. multi_poll addr polls fenv 0 multi_center (0, []) lw3 res \<longleftrightarrow> res = (c, (32, out), lw4)) \<and>
      destroy fenv n (lw_world lw4) = Some (e1, w5) \<and> center_close fenv c (lw4\<lparr>lw_world := w5\<rparr>) = Some lw6 \<and>
      logger_close fenv lg lw6 = Some lw7 \<and> w_names (lw_world lw7) = (w_names (lw_world lw))(n := None) \<and> reg_map (lw_world lw7) = Map.empty \<and>
      (\<exists>order. (\<forall>tid. map snd (filter (\<lambda>x. fst x = tid) order) = (if tid < 4 then map (multi_text tid) [0..<8] else [])) \<and> out = map snd order)"
    using u c(4,5) multi_output [OF t(1) joined all t(4), of n]
    by (intro exI [of _ c] exI [of _ "map lr_payload ?records"] exI [of _ lw4] exI [of _ e1] exI [of _ w5] exI [of _ lw6] exI [of _ lw7] conjI poll)
      (simp_all add: w)
qed

text \<open>The program up to the start of its threads.\<close>

lemma multi_begins:
  assumes w: "world_ok (lw_world lw)" "dom (reg_map (lw_world lw)) \<subseteq> {multi_segment pid} \<inter> dom (w_names (lw_world lw))"
    and pid: "unat pid < 2 ^ 31" and addr: "page_aligned addr" and sys: "multi_system d polls (multi_segment pid)"
  shows "\<exists>e0 w1 lg e lw2. destroy (de_cleanup d) (multi_segment pid) (lw_world lw) = Some (e0, w1) \<and>
    logger_init addr (de_init d) (multi_options pid) (lw\<lparr>lw_world := w1\<rparr>) = Some (Inr lg, lw2) \<and>
    fresh_logger (multi_options pid) (multi_segment pid) (de_init d 0) lg e lw2 \<and>
    w_names (lw_world lw2) = (w_names (lw_world lw))(multi_segment pid \<mapsto> hd_base (lg_handle lg)) \<and>
    reg_map (lw_world lw2) = [multi_segment pid \<mapsto> e]"
proof -
  let ?n = "multi_segment pid"
  note parse = multi_name_parse [OF pid]
  have reg: "?n \<noteq> REGISTRY_NAME"
    using parse by (auto simp: parse_and_validate_name_def)
  have env: "os_unlink_fail (de_cleanup d) ?n = None" "calm (de_init d 0) ?n"
    using sys by (simp_all add: multi_system_def)
  obtain e0 w1 where x: "destroy (de_cleanup d) ?n (lw_world lw) = Some (e0, w1)" "world_ok w1"
      "w_names w1 = (w_names (lw_world lw))(?n := None)" "reg_map w1 = (reg_map (lw_world lw))(?n := None)"
    using destroy_clears [OF w(1) parse reg _ env(1)] w(2) by blast
  let ?lw1 = "lw\<lparr>lw_world := w1\<rparr>"
  have lw1: "world_ok (lw_world ?lw1)" "reg_map (lw_world ?lw1) = Map.empty" "?n \<notin> dom (w_names (lw_world ?lw1))"
    using x(2-4) w(2) by (auto simp: fun_eq_iff domIff)
  show ?thesis
    using multi_setup [where env = "de_init d", OF lw1 pid addr env(2)] x(1,3) by auto
qed

text \<open>A run that ends has got all records, and has printed them.\<close>

lemma multi_ended:
  assumes run: "demo_multi_main addr d polls pid lw (res, lw')"
    and pid: "unat pid < 2 ^ 31" and addr: "page_aligned addr" and sys: "multi_system d polls (multi_segment pid)"
    and g: "destroy (de_cleanup d) (multi_segment pid) (lw_world lw) = Some (e0, w1)"
      "logger_init addr (de_init d) (multi_options pid) (lw\<lparr>lw_world := w1\<rparr>) = Some (Inr lg, lw2)"
      "fresh_logger (multi_options pid) (multi_segment pid) (de_init d 0) lg e lw2"
      "w_names (lw_world lw2) = (w_names (lw_world lw))(multi_segment pid \<mapsto> hd_base (lg_handle lg))"
      "reg_map (lw_world lw2) = [multi_segment pid \<mapsto> e]"
  shows "rn_exit res = 0 \<and> rn_err res = [] \<and>
    (\<exists>order. (\<forall>tid. map snd (filter (\<lambda>x. fst x = tid) order) = (if tid < 4 then map (multi_text tid) [0..<8] else [])) \<and>
       rn_out res = map snd order) \<and>
    w_names (lw_world lw') = (w_names (lw_world lw))(multi_segment pid := None) \<and> reg_map (lw_world lw') = Map.empty"
  using run
proof (cases rule: demo_multi_main.cases)
  case (multi_ends e0' w1' lg' lw2' s lw3 c drained out lw4 e1 w5 lw6)
  note s = multi_systemD [OF sys pid]
  note tail = multi_tail [where polls = polls, OF g(3) _ refl multi_name_parse [OF pid] s(1) g(5) s(2) addr s(3-6)]
  have same: "lg' = lg" "lw2' = lw2"
    using multi_ends(2,3) g(1,2) by auto
  have run: "log_threads_run (open_ring (lg_ring lg) lw2) multi_jobs s"
    using multi_ends(4) by (simp add: same)
  have lw3: "lw3 = close_ring (lg_ring lg) (shared_ring (rv_data (lg_ring lg)) (lt_sys s)) lw2"
    using multi_ends(5) by (simp add: same)
  have "length (rs_claimed (lt_sys s)) = 32"
    using tail(1) [OF run, folded lw3] tail(3) [OF run] multi_ends(6) by (cases "length (rs_claimed (lt_sys s)) < 32") auto
  from tail(2) [OF run this, folded lw3] obtain c' out' lw4' e1' w5' lw6' lw7' order where
    t: "\<forall>res. multi_poll addr polls (de_end d) 0 multi_center (0, []) lw3 res \<longleftrightarrow> res = (c', (32, out'), lw4')"
      "destroy (de_end d) (multi_segment pid) (lw_world lw4') = Some (e1', w5')" "center_close (de_end d) c' (lw4'\<lparr>lw_world := w5'\<rparr>) = Some lw6'"
      "logger_close (de_end d) lg lw6' = Some lw7'" "w_names (lw_world lw7') = (w_names (lw_world lw2))((multi_segment pid) := None)"
      "reg_map (lw_world lw7') = Map.empty"
      "\<forall>tid. map snd (filter (\<lambda>x. fst x = tid) order) = (if tid < 4 then map (multi_text tid) [0..<8] else [])" "out' = map snd order"
    by (elim exE conjE) (rule that; assumption)
  have p: "c = c'" "out = out'" "lw4 = lw4'"
    using t(1) multi_ends(6) by simp_all
  have "w5 = w5'" "lw6 = lw6'" and lw': "lw' = lw7'"
    using multi_ends(7-9) t(2-4) by (simp_all add: p same)
  have o: "\<exists>order. (\<forall>tid. map snd (filter (\<lambda>x. fst x = tid) order) = (if tid < 4 then map (multi_text tid) [0..<8] else [])) \<and>
      out = map snd order"
    using t(7,8) p(2) by blast
  show ?thesis
    unfolding multi_ends(1) run_result.select_convs by (intro conjI refl o) (simp_all add: lw' t(5,6) g(4))
qed (use g(1,2) in auto)

text \<open>
  C11. The logging demo with threads: some run ends, and every run that ends has exit code 0 and has printed the texts of
  all 32 calls of its four threads, each once, those of one thread in the order of its loop. The
  segment and its registry entry are gone, also those of an earlier run with the same process id.
\<close>

theorem demo_multi_prints:
  assumes w: "world_ok (lw_world lw)" "dom (reg_map (lw_world lw)) \<subseteq> {multi_segment pid} \<inter> dom (w_names (lw_world lw))"
    and pid: "unat pid < 2 ^ 31" and addr: "page_aligned addr" and sys: "multi_system d polls (multi_segment pid)"
  shows "(\<exists>res. demo_multi_main addr d polls pid lw res) \<and>
    (\<forall>res lw'. demo_multi_main addr d polls pid lw (res, lw') \<longrightarrow>
       rn_exit res = 0 \<and> rn_err res = [] \<and>
       (\<exists>order. (\<forall>tid. map snd (filter (\<lambda>x. fst x = tid) order) = (if tid < 4 then map (multi_text tid) [0..<8] else [])) \<and>
          rn_out res = map snd order) \<and>
       w_names (lw_world lw') = (w_names (lw_world lw))(multi_segment pid := None) \<and> reg_map (lw_world lw') = Map.empty)"
proof -
  let ?n = "multi_segment pid" and ?o = "multi_options pid"
  note sysD = multi_systemD [OF sys pid]
  obtain e0 w1 lg e lw2 where g: "destroy (de_cleanup d) ?n (lw_world lw) = Some (e0, w1)"
      "logger_init addr (de_init d) ?o (lw\<lparr>lw_world := w1\<rparr>) = Some (Inr lg, lw2)" "fresh_logger ?o ?n (de_init d 0) lg e lw2"
      "w_names (lw_world lw2) = (w_names (lw_world lw))(?n \<mapsto> hd_base (lg_handle lg))" "reg_map (lw_world lw2) = [?n \<mapsto> e]"
    using multi_begins [OF assms] by (elim exE conjE) (rule that; assumption)
  note tail = multi_tail [where polls = polls, OF g(3) _ refl multi_name_parse [OF pid] sysD(1) g(5) sysD(2) addr sysD(3-6)]
  obtain s where s: "log_threads_run (open_ring (lg_ring lg) lw2) multi_jobs s" "length (rs_claimed (lt_sys s)) = 32"
    using multi_turns [OF g(3)] by blast
  obtain c out lw4 e1 w5 lw6 lw7 where "\<forall>res. multi_poll addr polls (de_end d) 0 multi_center (0, [])
        (close_ring (lg_ring lg) (shared_ring (rv_data (lg_ring lg)) (lt_sys s)) lw2) res \<longleftrightarrow> res = (c, (32, out), lw4)"
      and z: "destroy (de_end d) ?n (lw_world lw4) = Some (e1, w5)" "center_close (de_end d) c (lw4\<lparr>lw_world := w5\<rparr>) = Some lw6"
        "logger_close (de_end d) lg lw6 = Some lw7"
    using tail(2) [OF s] by (elim exE conjE) (rule that; assumption)
  then have "\<exists>res. demo_multi_main addr d polls pid lw res"
    using multi_ends [OF g(1,2) s(1) refl _ z] by blast
  then show ?thesis
    using multi_ended [OF _ pid addr sys g] by blast
qed

theorem demo_multi_prints_witness:
  "\<exists>res lw' order. demo_multi_main (\<lambda>_. 4096) calm_demo (\<lambda>_ _. demo_env) 42 \<lparr>lw_world = demo_world, lw_rings = \<lambda>_. zero_ring 0\<rparr> (res, lw') \<and>
     rn_exit res = 0 \<and> rn_out res = map snd order \<and>
     map snd (filter (\<lambda>x. fst x = (2 :: nat)) order) = map (multi_text 2) [0..<8] \<and> reg_map (lw_world lw') = Map.empty"
proof -
  let ?lw = "\<lparr>lw_world = demo_world, lw_rings = \<lambda>_. zero_ring 0\<rparr>"
  have "world_ok (lw_world ?lw)" "dom (reg_map (lw_world ?lw)) \<subseteq> {multi_segment 42} \<inter> dom (w_names (lw_world ?lw))"
      "unat (42 :: u32) < 2 ^ 31" "page_aligned (\<lambda>_. 4096)"
    using demo_world_ok by (simp_all add: page_aligned_def)
  note t = demo_multi_prints [OF this calm_demo_system]
  obtain x where x: "demo_multi_main (\<lambda>_. 4096) calm_demo (\<lambda>_ _. demo_env) 42 ?lw x"
    using t by blast
  obtain res lw' where r: "demo_multi_main (\<lambda>_. 4096) calm_demo (\<lambda>_ _. demo_env) 42 ?lw (res, lw')"
    using x by (cases x) auto
  with t obtain order where "rn_exit res = 0" "rn_out res = map snd order" "reg_map (lw_world lw') = Map.empty"
      "\<forall>tid. map snd (filter (\<lambda>x. fst x = tid) order) = (if tid < 4 then map (multi_text tid) [0..<8] else [])"
    by blast
  then show ?thesis
    using r by (intro exI [of _ res] exI [of _ lw'] exI [of _ order]) simp
qed

section \<open>The loop may wait for a lost record\<close>

lemma multi_one_lost:
  assumes f: "fresh_logger (multi_options pid) n env lg e lw"
  shows "\<exists>s. log_threads_run (open_ring (lg_ring lg) lw) multi_jobs s \<and> length (rs_claimed (lt_sys s)) = 31 \<and> slot_count (rs_meta (lt_sys s)) = 256"
proof -
  let ?r = "open_ring (lg_ring lg) lw"
  let ?s = "log_threads_of ?r multi_jobs"
  have rm: "record_max (ring_meta ?r) = 256"
    using f unfolding fresh_logger_def Let_def multi_options_facts by (simp add: fresh_meta_def)
  note inv = log_threads_start [OF multi_start [OF f]]
  have s: "at_rest (lt_sys ?s)" "rs_claimed (lt_sys ?s) = []" "lt_todo ?s = multi_jobs"
    by (simp_all add: log_threads_of_def system_of_def at_rest_def)
  obtain call cs where c: "multi_jobs 0 = call # cs" "\<forall>c \<in> set (call # cs). \<exists>le x. call_request le c = Inr x"
    using multi_jobs_laws(3) [of _ 0] by (cases "multi_jobs 0") (auto simp: multi_jobs_def)
  then obtain le x where x: "call_request le call = Inr x"
    by auto
  have room: "counters_left (lt_sys ?s)" "length (rs_claimed (lt_sys ?s)) < slot_count (rs_meta (lt_sys ?s))"
    using log_threads_slots(1) [OF inv] by (simp_all add: counters_left_def s(2) rm)
  obtain t where t: "log_thread_step\<^sup>*\<^sup>* ?s t" "at_rest (lt_sys t)" "lt_todo t = multi_jobs(0 := cs)" "rs_claimed (lt_sys t) = []"
    using call_lost [OF inv s(1) room, of 0 call cs le x] c(1) x by (auto simp: s)
  have inv': "log_threads_inv ?r multi_jobs t"
    using t(1) inv by (induction rule: rtranclp_induct) (auto intro: log_threads_step)
  have n: "job_count 4 (lt_todo t) = 31"
    using job_count_step [of 0 4 multi_jobs call cs] c(1) by (simp add: t(3) multi_jobs_laws(2))
  have "\<forall>i. \<forall>c \<in> set (lt_todo t i). \<exists>le x. call_request le c = Inr x"
    using c(2) multi_jobs_laws(3) by (auto simp: t(3))
  then obtain u where u: "log_thread_step\<^sup>*\<^sup>* t u" "log_threads_joined u" "length (rs_claimed (lt_sys u)) = 31"
    using turns [OF inv' t(2) multi_jobs_laws(1)] by (auto simp: n t(4) rm)
  have "log_threads_inv ?r multi_jobs u"
    using u(1) inv' by (induction rule: rtranclp_induct) (auto intro: log_threads_step)
  then have "slot_count (rs_meta (lt_sys u)) = 256"
    using log_threads_slots(1) by (simp add: rm)
  then show ?thesis
    unfolding log_threads_run_def using reachable_steps [OF reach_start [of "\<lambda>s. s = ?s", OF refl] rtranclp_trans [OF t(1) u(1)]] u(2,3) by blast
qed

text \<open>
  C38. The loop of that demo counts on all 32 calls, but the threads ignore the results of their calls: on a machine
  whose weak compare-exchange may fail without a reason, a schedule of the threads leaves 31 records in a ring of 256
  slots, and then the program polls forever, every pass returning.
\<close>

theorem demo_multi_may_wait:
  assumes w: "world_ok (lw_world lw)" "dom (reg_map (lw_world lw)) \<subseteq> {multi_segment pid} \<inter> dom (w_names (lw_world lw))"
    and pid: "unat pid < 2 ^ 31" and addr: "page_aligned addr" and sys: "multi_system d polls (multi_segment pid)"
  shows "\<exists>e0 w1 lg lw2 s. destroy (de_cleanup d) (multi_segment pid) (lw_world lw) = Some (e0, w1) \<and>
    logger_init addr (de_init d) (multi_options pid) (lw\<lparr>lw_world := w1\<rparr>) = Some (Inr lg, lw2) \<and>
    log_threads_run (open_ring (lg_ring lg) lw2) multi_jobs s \<and>
    length (rs_claimed (lt_sys s)) = 31 \<and> slot_count (rs_meta (lt_sys s)) = 256 \<and>
    (\<forall>n. multi_passes addr polls (de_end d) n (close_ring (lg_ring lg) (shared_ring (rv_data (lg_ring lg)) (lt_sys s)) lw2) \<noteq> None)"
proof -
  let ?n = "multi_segment pid" and ?o = "multi_options pid"
  note parse = multi_name_parse [OF pid] and sysD = multi_systemD [OF sys pid]
  obtain e0 w1 lg e lw2 where g: "destroy (de_cleanup d) ?n (lw_world lw) = Some (e0, w1)"
      "logger_init addr (de_init d) ?o (lw\<lparr>lw_world := w1\<rparr>) = Some (Inr lg, lw2)" "fresh_logger ?o ?n (de_init d 0) lg e lw2"
      "w_names (lw_world lw2) = (w_names (lw_world lw))(?n \<mapsto> hd_base (lg_handle lg))" "reg_map (lw_world lw2) = [?n \<mapsto> e]"
    using multi_begins [OF assms] by (elim exE conjE) (rule that; assumption)
  obtain s where s: "log_threads_run (open_ring (lg_ring lg) lw2) multi_jobs s" "length (rs_claimed (lt_sys s)) = 31"
      "slot_count (rs_meta (lt_sys s)) = 256"
    using multi_one_lost [OF g(3)] by blast
  define lw3 where lw3: "lw3 = close_ring (lg_ring lg) (shared_ring (rv_data (lg_ring lg)) (lt_sys s)) lw2"
  note t = multi_threads [OF g(3) s(1) lw3]
  have map3: "reg_map (lw_world lw3) = [?n \<mapsto> e]"
    by (simp add: lw3 close_ring_def g(5))
  have "multi_passes addr polls (de_end d) n lw3 \<noteq> None" for n
    using multi_passes_on [where polls = polls and ?env2.0 = "de_end d" and n = "n - 1", OF t(2) parse sysD(1) map3 sysD(2) addr sysD(4-6) t(3)] s(2)
    by (cases n) auto
  then show ?thesis
    unfolding lw3 using g(1,2) s by blast
qed

theorem demo_multi_may_wait_witness:
  "\<exists>e0 w1 lg lw2 s. destroy (de_cleanup calm_demo) (multi_segment 42) demo_world = Some (e0, w1) \<and>
     logger_init (\<lambda>_. 4096) (de_init calm_demo) (multi_options 42) \<lparr>lw_world = w1, lw_rings = \<lambda>_. zero_ring 0\<rparr> = Some (Inr lg, lw2) \<and>
     log_threads_run (open_ring (lg_ring lg) lw2) multi_jobs s \<and>
     multi_passes (\<lambda>_. 4096) (\<lambda>_ _. demo_env) (de_end calm_demo) 1000
       (close_ring (lg_ring lg) (shared_ring (rv_data (lg_ring lg)) (lt_sys s)) lw2) \<noteq> None"
proof -
  let ?lw = "\<lparr>lw_world = demo_world, lw_rings = \<lambda>_. zero_ring 0\<rparr>"
  have "world_ok (lw_world ?lw)" "dom (reg_map (lw_world ?lw)) \<subseteq> {multi_segment 42} \<inter> dom (w_names (lw_world ?lw))"
      "unat (42 :: u32) < 2 ^ 31" "page_aligned (\<lambda>_. 4096)"
    using demo_world_ok by (simp_all add: page_aligned_def)
  from demo_multi_may_wait [OF this calm_demo_system] show ?thesis
    unfolding log_world.simps by blast
qed

end
