(* ===== verification/Shm_Result.thy ===== *)
theory Shm_Result
  imports Shm_Types Shm_Interfaces
begin

text \<open>
  The storage of \<^verbatim>\<open>Result<T>\<close> in \<^verbatim>\<open>shm_error.h\<close>: a flag, an error code and raw bytes in which a value lives
  or not. The other theories use the sum type \<open>Result\<close>; here it is shown that the class implements it
  and that values are neither leaked nor destroyed twice.
\<close>

section \<open>The class\<close>

text \<open>\<open>None\<close> in the storage: no value lives there.\<close>

record 'a result_object =
  ro_ok :: bool
  ro_error :: ErrorCode
  ro_storage :: "'a option"

definition result_of_value :: "'a \<Rightarrow> 'a result_object" where
  "result_of_value v = \<lparr>ro_ok = True, ro_error = Ok, ro_storage = Some v\<rparr>"

definition result_of_error :: "ErrorCode \<Rightarrow> 'a result_object" where
  "result_of_error e = \<lparr>ro_ok = False, ro_error = e, ro_storage = None\<rparr>"

text \<open>Access to the value; \<open>None\<close> is the undefined behaviour of reading storage without a value.\<close>

definition result_value :: "'a result_object \<Rightarrow> 'a option" where
  "result_value r = ro_storage r"

text \<open>The object and the number of values destroyed.\<close>

definition result_reset :: "'a result_object \<Rightarrow> 'a result_object \<times> nat" where
  "result_reset r = (if ro_ok r then (r\<lparr>ro_ok := False, ro_storage := None\<rparr>, 1) else (r, 0))"

text \<open>
  Move construction: the new object, what is left of the other one, and the number of values
  destroyed. \<open>husk v\<close> is what the move constructor of the value type leaves of \<open>v\<close>.
\<close>

definition result_move :: "('a \<Rightarrow> 'a) \<Rightarrow> 'a result_object \<Rightarrow> 'a result_object \<times> 'a result_object \<times> nat" where
  "result_move husk other =
     (let this = \<lparr>ro_ok = ro_ok other, ro_error = ro_error other, ro_storage = None\<rparr>
      in if ro_ok other
         then case result_reset (other\<lparr>ro_storage := map_option husk (result_value other)\<rparr>) of
                (other', n) \<Rightarrow> (this\<lparr>ro_storage := result_value other\<rparr>, other', n)
         else (this, other, 0))"

section \<open>Refinement to a sum\<close>

definition result_ok :: "'a result_object \<Rightarrow> bool" where
  "result_ok r \<longleftrightarrow> (ro_ok r \<longleftrightarrow> ro_storage r \<noteq> None)"

definition result_abs :: "'a result_object \<Rightarrow> 'a Result" where
  "result_abs r = (if ro_ok r then Inr (the (ro_storage r)) else Inl (ro_error r))"

lemma result_new [simp]:
  "result_ok (result_of_value v)" "result_abs (result_of_value v) = Inr v"
  "result_ok (result_of_error e)" "result_abs (result_of_error e) = Inl e"
  by (simp_all add: result_ok_def result_abs_def result_of_value_def result_of_error_def)

lemma result_move_refines:
  assumes "result_ok other" "result_move husk other = (this, other', n)"
  shows "result_ok this" "result_ok other'" "result_abs this = result_abs other" "\<not> ro_ok other'"
    "n = (if ro_ok other then 1 else 0)"
  using assms by (auto simp: result_move_def result_reset_def result_ok_def result_abs_def result_value_def Let_def
      split: if_splits)

section \<open>Lifetimes\<close>

text \<open>The result objects of a program by number, and how many values were constructed and destroyed.\<close>

record 'a result_world =
  rw_objects :: "nat \<Rightarrow> 'a result_object option"
  rw_made :: nat
  rw_destroyed :: nat

inductive result_step :: "('a \<Rightarrow> 'a) \<Rightarrow> 'a result_world \<Rightarrow> 'a result_world \<Rightarrow> bool" for husk :: "'a \<Rightarrow> 'a" where
  make_value: "rw_objects s i = None \<Longrightarrow>
    result_step husk s (s\<lparr>rw_objects := (rw_objects s)(i \<mapsto> result_of_value v), rw_made := Suc (rw_made s)\<rparr>)"
| make_error: "rw_objects s i = None \<Longrightarrow> result_step husk s (s\<lparr>rw_objects := (rw_objects s)(i \<mapsto> result_of_error e)\<rparr>)"
| move: "rw_objects s i = None \<Longrightarrow> rw_objects s j = Some r \<Longrightarrow> result_move husk r = (this, r', n) \<Longrightarrow>
    result_step husk s
      (s\<lparr>rw_objects := (rw_objects s)(i \<mapsto> this, j \<mapsto> r'),
         rw_made := rw_made s + (if ro_ok r then 1 else 0), rw_destroyed := rw_destroyed s + n\<rparr>)"
| destroy: "rw_objects s i = Some r \<Longrightarrow> result_reset r = (r', n) \<Longrightarrow>
    result_step husk s (s\<lparr>rw_objects := (rw_objects s)(i := None), rw_destroyed := rw_destroyed s + n\<rparr>)"

definition holders :: "(nat \<Rightarrow> 'a result_object option) \<Rightarrow> nat set" where
  "holders m = {i. \<exists>r. m i = Some r \<and> ro_storage r \<noteq> None}"

lemma holders_upd:
  "holders (m(i := x)) = (if \<exists>r. x = Some r \<and> ro_storage r \<noteq> None then insert i (holders m) else holders m - {i})"
  by (auto simp: holders_def)

lemma holders_none: "m i = None \<Longrightarrow> i \<notin> holders m"
  by (simp add: holders_def)

definition result_inv :: "'a result_world \<Rightarrow> bool" where
  "result_inv s \<longleftrightarrow>
     (\<forall>i r. rw_objects s i = Some r \<longrightarrow> result_ok r) \<and> finite (holders (rw_objects s)) \<and>
     rw_made s = rw_destroyed s + card (holders (rw_objects s))"

definition no_results :: "'a result_world" where
  "no_results = \<lparr>rw_objects = Map.empty, rw_made = 0, rw_destroyed = 0\<rparr>"

lemma holders_step:
  assumes "result_inv s" "result_step husk s s'"
  shows "finite (holders (rw_objects s')) \<and> rw_made s' = rw_destroyed s' + card (holders (rw_objects s'))"
  using assms(2,1)
proof cases
  case (move i j r this r' n)
  have r: "result_ok r" "result_ok this" "result_ok r'" "ro_ok this = ro_ok r" "\<not> ro_ok r'" "n = (if ro_ok r then 1 else 0)"
    using assms(1) move(3) result_move_refines [OF _ move(4)]
    by (auto simp: result_inv_def result_abs_def split: if_splits)
  have ij: "i \<noteq> j" "i \<notin> holders (rw_objects s)" "j \<in> holders (rw_objects s) \<longleftrightarrow> ro_ok r"
    using move(2,3) r(1) by (auto simp: holders_def result_ok_def)
  then show ?thesis
    using assms(1) r ij card_Suc_Diff1 [of "holders (rw_objects s)" j]
    by (auto simp: move(1) holders_upd result_inv_def result_ok_def)
next
  case (destroy i r r' n)
  have "result_ok r" "i \<in> holders (rw_objects s) \<longleftrightarrow> ro_ok r"
    using assms(1) destroy(2) by (auto simp: result_inv_def result_ok_def holders_def)
  then show ?thesis
    using assms(1) destroy(3) card_Suc_Diff1 [of "holders (rw_objects s)" i]
    by (auto simp: destroy(1) holders_upd result_inv_def result_reset_def split: if_splits)
qed (auto simp: result_inv_def holders_upd result_of_value_def result_of_error_def dest: holders_none)

interpretation results: step_invariant "\<lambda>s. s = no_results" "result_step husk" result_inv
  for husk :: "'a \<Rightarrow> 'a"
proof
  show "result_inv s" if "s = no_results" for s :: "'a result_world"
    using that by (simp add: no_results_def result_inv_def holders_def)
  show "result_inv s'" if "result_inv s" "result_step husk s s'" for s s'
  proof -
    have "result_ok r" if "rw_objects s' i = Some r" for i r
      using \<open>result_step husk s s'\<close> that \<open>result_inv s\<close>
      by cases (auto simp: result_inv_def split: if_splits dest: result_move_refines(1,2))
    then show ?thesis
      using holders_step [OF that] by (simp add: result_inv_def)
  qed
qed

text \<open>
  C20. The storage class is type safe. Whatever a program does with results, an object that reports a value
  has a live value in its storage, moving passes on the value or the error, and once all objects are
  gone every value that was constructed has been destroyed, none of them twice. An object that was
  moved from reports neither a value nor, if it had one, an error.
\<close>

theorem result_type_safe:
  assumes "reachable (\<lambda>s. s = no_results) (result_step husk) s" "rw_objects s i = Some r"
    and "result_move husk r = (this, r', n)"
  shows "(ro_ok r \<longrightarrow> result_value r \<noteq> None) \<and> result_abs this = result_abs r \<and> result_value r' = None \<and>
    result_abs r' = Inl (ro_error r) \<and> rw_destroyed s \<le> rw_made s \<and>
    (\<forall>s'. reachable (\<lambda>s. s = no_results) (result_step husk) s' \<and> rw_objects s' = Map.empty \<longrightarrow> rw_made s' = rw_destroyed s')"
proof -
  have inv: "result_inv s'" if "reachable (\<lambda>s. s = no_results) (result_step husk) s'" for s'
    using results.unbounded.reachable_inv [OF that] by simp
  have ok: "result_ok r"
    using inv [OF assms(1)] assms(2) by (auto simp: result_inv_def)
  have "rw_destroyed s \<le> rw_made s"
    using inv [OF assms(1)] by (simp add: result_inv_def)
  moreover have "rw_made s' = rw_destroyed s'"
    if "reachable (\<lambda>s. s = no_results) (result_step husk) s'" "rw_objects s' = Map.empty" for s'
    using inv [OF that(1)] that(2) by (simp add: result_inv_def holders_def)
  moreover have "result_value r' = None" "result_abs r' = Inl (ro_error r)"
    using assms(3) ok by (auto simp: result_move_def result_reset_def result_ok_def result_value_def result_abs_def Let_def
        split: if_splits)
  ultimately show ?thesis
    using ok result_move_refines(3) [OF ok assms(3)] by (auto simp: result_ok_def result_value_def)
qed

theorem result_type_safe_witness:
  "\<exists>(s :: nat result_world) r this r' n. rw_objects s 3 = Some r \<and> result_move (\<lambda>_. 0 :: nat) r = (this, r', n) \<and> result_abs this = Inr 7 \<and>
     result_abs r' = Inl Ok"
proof -
  let ?s = "(no_results :: nat result_world)\<lparr>rw_objects := (rw_objects no_results)(3 \<mapsto> result_of_value (7 :: nat)), rw_made := Suc (rw_made (no_results :: nat result_world))\<rparr>"
  have reach: "reachable (\<lambda>s. s = no_results) (result_step (\<lambda>_. 0)) ?s"
    by (rule reach_step, rule reach_start, rule refl, rule make_value) (simp add: no_results_def)
  obtain this r' n where m: "result_move (\<lambda>_. 0) (result_of_value (7 :: nat)) = (this, r', n)"
    by (cases "result_move (\<lambda>_. 0) (result_of_value (7 :: nat))")
  have "rw_objects ?s 3 = Some (result_of_value 7)"
    by simp
  from result_type_safe [OF reach this m] show ?thesis
    using m \<open>rw_objects ?s 3 = _\<close> by (intro exI [of _ ?s]) (auto simp: result_of_value_def result_abs_def)
qed

end
