(* ===== verification/Spec2Isabelle.thy ===== *)
theory Spec2Isabelle
  imports Example_Threads Example_Logging Shm_Result
begin

text \<open>
  Verification of shmfx, a C++ framework for named shared-memory segments, with the record ring its
  processes communicate through and the logging application built on it. File names below are relative
  to the repository.

  \<^bold>\<open>The program.\<close> A process creates a segment (\<^verbatim>\<open>src/shm_manager.cpp\<close>): a POSIX shared-memory object with a
  header, a metadata block and a payload. The name is checked and the header signed
  (\<^verbatim>\<open>src/shm_security.cpp\<close>), and the segment is entered in the registry (\<^verbatim>\<open>src/shm_registry.cpp\<close>), itself a
  segment with a table under a robust mutex. Owners keep a heartbeat (\<^verbatim>\<open>src/shm_lifecycle.cpp\<close>); the
  janitor of the registry removes segments whose owner is gone. The payload of a ring segment is a
  bounded queue for many producers and one consumer (\<^verbatim>\<open>src/shm_ring.cpp\<close>, on the atomic accesses of
  \<^verbatim>\<open>src/shm_sync.cpp\<close>). In the logging application (\<^verbatim>\<open>apps/logging\<close>) each producer has a ring of its own and
  a center finds the rings in the registry and drains them into a sink.

  \<^bold>\<open>Theories and sources.\<close>
    \<^item> \<^verbatim>\<open>Shmfx_Prelude\<close>: machine integers as words, rule collections, arithmetic. \<^verbatim>\<open>Shm_Memory\<close>: memory as a
      list of bytes, little-endian. \<^verbatim>\<open>Shm_Strings\<close>: the string functions of the C++ library that are used.
    \<^item> \<^verbatim>\<open>Shm_Types\<close> and \<^verbatim>\<open>Shm_Header\<close>: \<^verbatim>\<open>shm_types.h\<close>, \<^verbatim>\<open>shm_error.h\<close>, \<^verbatim>\<open>shm_header.h\<close>. Enums are datatypes with
      their codes, structs are records together with their byte layout; the static assertions of the
      headers are theorems. \<^verbatim>\<open>Shm_Result\<close>: the storage of \<^verbatim>\<open>Result\<close> in \<^verbatim>\<open>shm_error.h\<close>, a flag, an error code
      and raw bytes; the class implements the sum type that the other theories use for it, and values are
      neither leaked nor destroyed twice.
    \<^item> \<^verbatim>\<open>Shm_Interfaces\<close>: the contracts between components as locales: \<open>bounded_invariant\<close>,
      \<open>step_invariant\<close>, \<open>bounded_fifo\<close>, \<open>streaming_hash\<close>, \<open>bounded_table\<close>. Each is interpreted on the model
      of the component that provides it.
    \<^item> \<^verbatim>\<open>Shm_Sync\<close> and \<^verbatim>\<open>Shm_Ring\<close>: \<^verbatim>\<open>shm_sync\<close> and \<^verbatim>\<open>shm_ring\<close>, access by access on the bytes of the payload;
      \<open>ring_initialize\<close>, \<open>ring_bind\<close>, \<open>try_push\<close>, \<open>try_pop\<close>, \<open>drain_batch\<close>. \<^verbatim>\<open>Ring_Layout\<close> shows that the cells of a
      ring are disjoint and inside the payload, \<^verbatim>\<open>Ring_Queue\<close> refines the calls to a list with a
      capacity (interpretation \<open>ring_fifo\<close>), \<^verbatim>\<open>Ring_Theorems\<close> has the properties of calls that do not overlap.
    \<^item> \<^verbatim>\<open>Ring_Bytes\<close>, \<^verbatim>\<open>Ring_Concurrent\<close>, \<^verbatim>\<open>Ring_Interleaving\<close>, \<^verbatim>\<open>Ring_Mpsc\<close>: the same calls cut into their atomic
      accesses (\<open>producer_step\<close>, \<open>consumer_step\<close>), interleaved freely; delivery in claim order, honest
      results, wait-freedom, and that the steps of one call compose to \<open>try_push\<close> and \<open>try_pop\<close>. \<^verbatim>\<open>Ring_Rest\<close>:
      between calls the shared bytes are a ring as calls one after the other leave it. \<^verbatim>\<open>Ring_Clients\<close>:
      threads that push until they succeed and a consumer that counts, the core of the ring example and
      the ring benchmark; all records arrive, and from every state the threads can still finish.
    \<^item> \<^verbatim>\<open>Shm_Sha256\<close> and \<^verbatim>\<open>Shm_Security\<close>: \<^verbatim>\<open>shm_security.cpp\<close>. The streaming hash equals the published
      function on the padded message (interpretation of \<open>streaming_hash\<close>); names, limits, keys,
      signing and verifying headers.
    \<^item> \<^verbatim>\<open>Shm_Lifecycle\<close>: \<^verbatim>\<open>shm_lifecycle.cpp\<close>. The guard of a robust mutex, clocks, \<^verbatim>\<open>/proc\<close> parsing, dead
      owners, the heartbeat thread as a step relation.
    \<^item> \<^verbatim>\<open>Shm_Registry\<close> and \<^verbatim>\<open>Registry_Table\<close>: the table of \<^verbatim>\<open>shm_registry.cpp\<close>. Operations are lists of single
      writes, so that a crash between two of them can be stated; the table refines a map (interpretation
      \<open>registry_table\<close>) and recovery restores the invariant after every such crash.
    \<^item> \<^verbatim>\<open>Shm_Manager\<close>: \<^verbatim>\<open>shm_manager.cpp\<close> and the parts of \<^verbatim>\<open>shm_registry.cpp\<close> that make system calls. The
      record \<open>world\<close> has the names, the objects with their headers and what the process keeps;
      \<open>os_env\<close> has the answers of the system to one call. \<^verbatim>\<open>Manager_Janitor\<close> says what a pass of the janitor
      may change, \<^verbatim>\<open>Manager_World\<close> what a well-formed world is, \<^verbatim>\<open>Manager_Create\<close>, \<^verbatim>\<open>Manager_Attach\<close> and
      \<^verbatim>\<open>Manager_Release\<close> treat the calls, \<^verbatim>\<open>Manager_Theorems\<close> has the properties.
    \<^item> \<^verbatim>\<open>Shm_Logger\<close> and \<^verbatim>\<open>Log_Center\<close>: \<^verbatim>\<open>logger.cpp\<close> and \<^verbatim>\<open>log_center.cpp\<close> with their headers. The record
      \<open>log_world\<close> adds the ring storage of the segments to the world; a ring object is a view into it.
      \<^verbatim>\<open>Log_Rings\<close> shows that a logger's ring is a bounded queue of log records (interpretation
      \<open>log_fifo\<close>), \<^verbatim>\<open>Log_Theorems\<close> and \<^verbatim>\<open>Log_Lifecycle\<close> have the properties; the calls of a center are a step
      relation with an invariant (interpretation \<open>centers\<close>). \<^verbatim>\<open>Log_Session\<close> and the theorem at the end of this
      theory put all parts together, from the creation of a segment to the sink. \<^verbatim>\<open>Log_Threads\<close>: threads that
      log through one logger, their pushes interleaved access by access (interpretation \<open>thread_log\<close>).
    \<^item> \<^verbatim>\<open>Example_Programs\<close>, \<^verbatim>\<open>Example_Threads\<close>, \<^verbatim>\<open>Example_Logging\<close>: the programs under \<^verbatim>\<open>examples\<close>,
      \<^verbatim>\<open>apps/logging/examples\<close> and \<^verbatim>\<open>benchmark\<close>, from the first line of \<^verbatim>\<open>main\<close> to the destructors: what they
      print, their exit code and what they leave behind. A program without threads is a function, one
      with threads a relation with all its possible ends.

  \<^bold>\<open>Reading the model.\<close> A call that can fail returns a sum (\<open>Inl\<close> the error code) or an error code; a call
  that waits for a lock is \<open>None\<close>. System calls, clocks, the content of \<^verbatim>\<open>/proc\<close>, environment variables and
  key files, the expansion of formats by \<^verbatim>\<open>vsnprintf\<close>, the spurious failures of weak compare-exchange and
  the addresses of mappings are arguments. Objects are identified by numbers, which stand for the
  addresses of their mappings, 0 for the null pointer.

  \<^bold>\<open>Bounds.\<close> Every loop of the model is structurally recursive or bounded as in the source: 64 attempts
  to claim a slot, 100 attempts at a snapshot of a registry slot, 1024 slots, the batch of a drain. A
  push ends after at most 198 steps of its own, whatever other threads do. The loop of the hash update
  has the length of its input as fuel, which is enough because each round takes a byte or more; the
  theorem on the hash is an equation for every input. Queue positions are 64-bit numbers compared by
  signed difference; the ring theorems assume fewer than \<open>2 ^ 63\<close> pushes in the life of a ring, those
  on threads that push a given list of records fewer than \<open>2 ^ 62\<close> records. Loops that may not end, those of
  the example threads, are step relations or inductive relations; that they can end, or do not end, is
  then a theorem of its own.

  \<^bold>\<open>What the theorems say where the code fails.\<close> Rings with one slot, sizes and offsets that wrap around,
  a stride cut to 32 bits, a sequence lock that a copy overwrites, a stop request that a new owner
  erases, logging rings that are never detached or lose their last records, and a demo that waits for a
  record that was lost are stated as theorems about the same definitions.

  \<^bold>\<open>Not modelled.\<close> Memory is sequentially consistent: the acquire and release orders of the source are
  not weakened, because no formal memory model is part of the library. Calls of the manager by
  different processes do not overlap; the ring, the registry's slots and the heartbeat thread are the
  places where interleaving is explicit. \<^verbatim>\<open>cpu_relax\<close> and the sleeps have no effect
  on the state. Left out are the command line of the benchmark and the lines it prints with measured
  times, which depend on the clock only, the tests, and the build files.
\<close>

section \<open>A session of the logging application\<close>

text \<open>
  C8. A session of the logging application, from the system calls to the sink. A logger for a valid service
  starts in a system without failures; a center that watches the logging prefix looks for rings while
  the logger's process lives; the program logs; the center drains. Then the logger starts, the
  center finds exactly its ring, through the janitor, the registry and the checks of the manager, the
  calls return success until the ring is full, and the sink gets the records of the successful
  calls, in order, up to the batch size, each with the name of the segment, its level, flags, time and
  text.
\<close>

theorem logging_session:
  assumes w: "world_ok (lw_world lw)" "reg_map (lw_world lw) = Map.empty"
    and service: "valid_service_name (lo_service_name opts)" "lo_segment_name opts = []"
    and opts: "2 \<le> unat (lo_record_max opts)" "lo_max_payload opts \<noteq> 0" "unat (lo_max_payload opts) + 16 \<le> 4294967232"
    and name: "name = default_segment_name (os_pid (env 0)) (lo_service_name opts)" "name \<notin> dom (w_names (lw_world lw))"
    and sys: "calm (env 0) name" "page_aligned addr"
    and sec: "validate_create_security (make_create_options opts name) (listed [] (reg_payload (lw_world lw))) = Ok"
    and key: "lo_flags opts AND HmacEnabled = 0 \<or> load_hmac_key (os_keys (env 0)) \<noteq> None"
    and center: "lc_rings c = []" "lco_prefix (lc_options c) = ''/shmfx.log.''"
    and discovery: "calm (denv 0) name" "calm (denv 1) name" "owner_alive (env 0) (denv 0)" "owner_alive (env 0) (denv 1)"
      "os_keys (denv 1) = os_keys (env 0)"
    and calls: "length calls \<le> 2 ^ 62" "list_all (\<lambda>(le, _). env_live le) calls"
  shows "\<exists>lg lw1 ar lw2 lw3 m lw4. logger_init addr env opts lw = Some (Inr lg, lw1) \<and>
    discover_once addr denv c lw1 = Some (Ok, c\<lparr>lc_rings := [ar]\<rparr>, lw2) \<and>
    log_calls calls lg lw2 = (call_results (unat (lo_record_max opts)) calls, lw3) \<and>
    drain_once env2 (c\<lparr>lc_rings := [ar]\<rparr>) s lw3 = Some (m, c\<lparr>lc_rings := [ar]\<rparr>,
      fold (lc_sink c) (take (unat (lco_drain_batch (lc_options c)))
        (map (request_record name (unat (lco_scratch_bytes (lc_options c))) (unat (record_stride_for (lo_max_payload opts)) - 16))
          (take (unat (lo_record_max opts)) (requests calls)))) s, lw4)"
proof -
  have room: "card (dom (reg_map (lw_world lw))) < MAX_REGISTRY_ENTRIES"
    by (simp add: w(2) shm_consts)
  obtain p where parse: "parse_and_validate_name name = Inr p" "\<not> pn_bootstrap p"
    using default_name_parse [OF service(1)] name(1) by auto
  have name': "name = (if lo_segment_name opts = [] then default_segment_name (os_pid (env 0)) (lo_service_name opts)
      else lo_segment_name opts)"
    using name(1) service(2) by simp
  obtain lg e lw1 where l: "logger_init addr env opts lw = Some (Inr lg, lw1)" "fresh_logger opts name (env 0) lg e lw1"
      "reg_map (lw_world lw1) = [name \<mapsto> e]"
    using logger_segment [where env = env, OF w(1) service(1) opts name' name(2) parse sys sec key room] w(2) by auto
  have reg: "name \<noteq> REGISTRY_NAME"
    using parse by (auto simp: parse_and_validate_name_def)
  have pre: "name = lco_prefix (lc_options c) @ lo_service_name opts @ ''_'' @ decimal (unat (os_pid (env 0)))"
    by (simp add: name(1) default_segment_name_def center(2))
  obtain ar lw2 where d: "discover_once addr denv c lw1 = Some (Ok, c\<lparr>lc_rings := [ar]\<rparr>, lw2)"
      "attached_ok ar" "ar_name ar = name" "rv_segment (ar_ring ar) = rv_segment (lg_ring lg)"
      "rv_size (ar_ring ar) = rv_size (lg_ring lg)" "hd_base (ar_handle ar) = hd_base (lg_handle lg)"
      "lw_rings lw2 = lw_rings lw1"
      "lw_world lw2 = upd_header (hd_base (lg_handle lg)) (\<lambda>h. h\<lparr>h_ref_count := h_ref_count h + 1\<rparr>) (lw_world lw1)"
    using running_discover [where denv = denv, OF fresh_running [OF l(2)] parse(1) reg l(3) discovery pre sys(2) opts(1,3) center(1)]
    by blast
  have "h_state (header_at (lw_world lw1) (hd_base (lg_handle lg))) = segment_state_code Active"
    using l(2) unfolding fresh_logger_def Let_def by blast
  then have st: "h_state (header_at (lw_world lw2) (hd_base (ar_handle ar))) = segment_state_code Active"
    by (simp add: d(6,8))
  obtain lw3 where k: "log_calls calls lg lw2 = (call_results (unat (lo_record_max opts)) calls, lw3)" "ring_ok (lg_ring lg) lw3"
      "lw_world lw3 = lw_world lw2"
      "view_records name (unat (lco_scratch_bytes (lc_options c))) (lg_ring lg) lw3 =
        map (request_record name (unat (lco_scratch_bytes (lc_options c))) (unat (record_stride_for (lo_max_payload opts)) - 16))
          (take (unat (lo_record_max opts)) (requests calls))"
    using fresh_logger_calls [OF l(2) opts(3) d(7) calls] by blast
  show ?thesis
    using l(1) d(1) k(1) drain_attached [OF k(2) _ d(2,4,5) st [folded k(3)] refl, of "c\<lparr>lc_rings := [ar]\<rparr>" env2 s]
    unfolding d(3) by (simp add: k(4)) blast
qed

theorem logging_session_witness:
  "\<exists>lg lw1 c1 lw2 lw3 m rs lw4.
     logger_init (\<lambda>_. 4096) (\<lambda>_. demo_env) demo_logger_options \<lparr>lw_world = demo_world, lw_rings = \<lambda>_. zero_ring 0\<rparr> = Some (Inr lg, lw1) \<and>
     discover_once (\<lambda>_. 4096) (\<lambda>_. demo_env) demo_center lw1 = Some (Ok, c1, lw2) \<and> attached_count c1 = 1 \<and>
     log_calls [(demo_log_env, LogText Warn ''one''), (demo_log_env, LogText Info ''two''), (demo_log_env, LogText Fatal ''three'')] lg lw2 =
       ([Ok, Ok, RingFull], lw3) \<and>
     drain_once demo_env c1 [] lw3 = Some (m, c1, rs, lw4) \<and>
     map (\<lambda>r. (lr_source r, lr_level r, lr_payload r)) rs =
       [(''/shmfx.log.app_42'', Warn, ''one''), (''/shmfx.log.app_42'', Info, ''two'')]"
proof -
  let ?lw = "\<lparr>lw_world = demo_world, lw_rings = \<lambda>_. zero_ring 0\<rparr>" and ?n = "''/shmfx.log.app_42''"
  let ?calls = "[(demo_log_env, LogText Warn ''one''), (demo_log_env, LogText Info ''two''), (demo_log_env, LogText Fatal ''three'')]"
  let ?c = "\<lambda>ar. demo_center\<lparr>lc_rings := [ar]\<rparr>"
  have n: "?n \<notin> dom (w_names demo_world)" and pid: "os_pid demo_env = 42" and alive: "owner_alive demo_env demo_env"
    by (simp_all add: demo_world_def add_registry_def empty_world_def shm_consts owner_alive_def demo_env_def demo_proc_def)
  have cen: "lc_rings demo_center = []" "lco_prefix (lc_options demo_center) = ''/shmfx.log.''"
      "unat (lco_drain_batch (lc_options demo_center)) = 4" "unat (lco_scratch_bytes (lc_options demo_center)) = 16"
    by (simp_all add: demo_center_def set_sink_def LogCenter_of_def)
  have name: "?n = default_segment_name (os_pid demo_env) (lo_service_name demo_logger_options)"
    by (simp add: pid demo_logger(6) demo_logger_name)
  have opts: "2 \<le> unat (lo_record_max demo_logger_options)" "lo_max_payload demo_logger_options \<noteq> 0"
      "unat (lo_max_payload demo_logger_options) + 16 \<le> 4294967232"
      "lo_flags demo_logger_options AND HmacEnabled = 0 \<or> load_hmac_key (os_keys demo_env) \<noteq> None"
    by (simp_all add: demo_logger(2-5))
  have live: "length ?calls \<le> 2 ^ 62" "list_all (\<lambda>(le, _). env_live le) ?calls"
    using demo_env_live by simp_all
  have aligned: "page_aligned (\<lambda>_. 4096)"
    by (simp add: page_aligned_def)
  have lw: "lw_world ?lw = demo_world" and nums: "unat (2 :: u32) = 2" "unat (64 :: u32) - 16 = 48"
    by simp_all
  obtain lg lw1 ar lw2 lw3 m lw4 where s:
    "logger_init (\<lambda>_. 4096) (\<lambda>_. demo_env) demo_logger_options ?lw = Some (Inr lg, lw1)"
    "discover_once (\<lambda>_. 4096) (\<lambda>_. demo_env) demo_center lw1 = Some (Ok, ?c ar, lw2)"
    "log_calls ?calls lg lw2 = (call_results 2 ?calls, lw3)"
    "drain_once demo_env (?c ar) [] lw3 = Some (m, ?c ar,
      fold (lc_sink demo_center) (take 4 (map (request_record ?n 16 48) (take 2 (requests ?calls)))) [], lw4)"
    using logging_session [of ?lw, unfolded lw, OF demo_world_ok(1,2) demo_logger(1,2) opts(1-3), where env = "\<lambda>_. demo_env",
        OF name n demo_calm aligned demo_logger_security opts(4) cen(1,2), where denv = "\<lambda>_. demo_env",
        OF demo_calm demo_calm alive alive refl live, of demo_env "[]"]
    unfolding cen(3,4) demo_logger(3,4) record_stride_for_8 nums
    by (elim exE conjE) (rule that; assumption)
  have f: "fold (lc_sink demo_center) (take 4 (map (request_record ?n 16 48) (take 2 (requests ?calls)))) [] =
      map (request_record ?n 16 48) (take 2 (requests ?calls))"
    by (simp add: requests_def demo_center_def set_sink_def)
  have r: "map (\<lambda>r. (lr_source r, lr_level r, lr_payload r)) (map (request_record ?n 16 48) (take 2 (requests ?calls))) =
      [(?n, Warn, ''one''), (?n, Info, ''two'')]" "call_results 2 ?calls = [Ok, Ok, RingFull]"
    by (simp_all add: requests_def request_record_def)
  have one: "attached_count (?c ar) = 1"
    by (simp add: attached_count_def)
  show ?thesis
    by (intro exI conjI, rule s(1), rule s(2), rule one, rule s(3) [unfolded r(2)], rule s(4) [unfolded f], rule r(1))
qed

end
